theory Spec2Isabelle
  imports Main "HOL-Library.Word" "HOL-Library.Tree"
begin

unbundle bit_operations_syntax

section \<open>PKSM: the anonymous-page deduplication engine of mm/pksm.c\<close>

text \<open>
  The development embeds the functions of \<^verbatim>\<open>src/mm/pksm.c\<close> as state-passing HOL
  functions over one record of the engine's global variables and of the host objects
  the engine touches.  Configuration fixed throughout: \<^verbatim>\<open>CONFIG_X86_64\<close> (hence
  \<^verbatim>\<open>CONFIG_PKSM_RHASH\<close> is defined and \<^verbatim>\<open>unsigned long\<close> has 64 bits), no transparent
  huge pages (\<^verbatim>\<open>PageTransCompound\<close> is constantly 0).

  Pointers are identifiers (\<open>nat\<close>); a pointer that may be \<^verbatim>\<open>NULL\<close> is an \<open>option\<close>.
  Intrusive lists are lists of identifiers, the two red-black trees are binary trees of
  identifiers (colours and rebalancing of the kernel's rbtree library are not represented;
  the descent order is).  Locks, RCU sections, \<^verbatim>\<open>cond_resched\<close>, cache and TLB flushes
  and the per-zone statistics have no effect on the modelled state and are left out.
  A kernel oops (\<^verbatim>\<open>BUG_ON\<close>, a \<^verbatim>\<open>NULL\<close> dereference, a divide error, a read outside an
  array) is a value of type \<open>fault\<close>.
\<close>

subsection \<open>Data model\<close>

type_synonym u32 = "32 word"
type_synonym ulong = "64 word"
type_synonym rmap_id = nat
type_synonym page_id = nat
type_synonym anon_vma_id = nat
type_synonym vma_id = nat
type_synonym vaddr = nat

datatype fault = NULL_DEREF | BUG | DIVIDE_ERROR | OUT_OF_BOUNDS

text \<open>\<^verbatim>\<open>struct rmap_item\<close>.  \<open>hlist\<close> is the list of \<^verbatim>\<open>stable_node_anon\<close> records hanging
  off the item (each record is represented by its \<^verbatim>\<open>anon_vma\<close> field, head first);
  \<open>rb_linked\<close> is \<^verbatim>\<open>!RB_EMPTY_NODE(&node)\<close>; the \<^verbatim>\<open>unsigned long checksum\<close> only ever
  receives \<^verbatim>\<open>u32\<close> values and is kept as one.\<close>

record rmap_item =
  anon_vma :: "anon_vma_id option"
  page :: "page_id option"
  address :: ulong
  hlist :: "anon_vma_id list"
  rb_linked :: bool
  r_mapcount :: "32 word"
  checksum :: u32

text \<open>\<^verbatim>\<open>page->mapping\<close> with its two low flag bits: neither bit set, \<^verbatim>\<open>PAGE_MAPPING_ANON\<close>
  with an \<^verbatim>\<open>anon_vma\<close>, or \<^verbatim>\<open>PAGE_MAPPING_ANON | PAGE_MAPPING_KSM\<close> with the
  \<^verbatim>\<open>rmap_item\<close> stored by \<^verbatim>\<open>set_page_stable_ksm\<close>.\<close>

datatype mapping = MAP_NONANON | MAP_ANON anon_vma_id | MAP_KSM "rmap_id option"

record page_struct =
  mapping :: mapping
  pksm :: "rmap_id option"
  PG_pksm :: bool
  PG_locked :: bool
  PG_swapcache :: bool
  PG_mlocked :: bool
  PG_dirty :: bool
  p_count :: int
  p_mapcount :: int
  swap_unused :: bool
  content :: "u32 list"

record pte =
  pte_pfn :: page_id
  pte_write :: bool
  pte_dirty :: bool
  pte_special :: bool

record vm_area =
  vm_can_scan :: bool
  vm_locked :: bool
  vm_prot_write :: bool

record state =
  rmaps :: "rmap_id \<Rightarrow> rmap_item"
  rmap_in_use :: "rmap_id \<Rightarrow> bool"
  pages :: "page_id \<Rightarrow> page_struct"
  root_stable_tree :: "rmap_id tree"
  root_unstable_tree :: "rmap_id tree"
  new_anon_page_list :: "rmap_id list"
  del_anon_page_list :: "rmap_id list"
  pksm_rescan_page_list :: "rmap_id list"
  unstabletree_checksum_list :: "rmap_id list"
  ksm_pages_shared :: ulong
  ksm_pages_sharing :: ulong
  ksm_pages_unshared :: ulong
  ksm_rmap_items :: ulong
  ksm_stable_nodes :: ulong
  ksm_pages_zero_sharing :: ulong
  ksm_thread_pages_to_scan :: u32
  ksm_thread_sleep_millisecs :: u32
  pksm_unshared_page_update_period :: u32
  pksm_random_table :: "u32 list"
  pksm_zero_random_checksum :: u32
  empty_pksm_zero_page :: page_id
  pksm_zero_pfn :: page_id
  zero_pfn :: page_id
  stable_anon_cache :: nat
  anon_vma_refcount :: "anon_vma_id \<Rightarrow> int"
  anon_vma_head :: "anon_vma_id \<Rightarrow> vma_id list"
  vmas :: "vma_id \<Rightarrow> vm_area"
  page_vaddr :: "page_id \<Rightarrow> vma_id \<Rightarrow> vaddr option"
  pgtable :: "vma_id \<Rightarrow> vaddr \<Rightarrow> pte option"

text \<open>Host side of the state: \<open>stable_anon_cache\<close> is the number of objects the anchor
  slab can still hand out (\<^verbatim>\<open>kmem_cache_alloc\<close> returns \<^verbatim>\<open>NULL\<close> at 0);
  \<open>anon_vma_head\<close> is the \<^verbatim>\<open>same_anon_vma\<close> chain of an \<^verbatim>\<open>anon_vma\<close>; \<open>page_vaddr\<close> is
  the result of \<^verbatim>\<open>page_address_in_vma\<close> / \<^verbatim>\<open>vma_address\<close> (\<open>None\<close> for \<^verbatim>\<open>-EFAULT\<close>);
  \<open>pgtable\<close> is the present page-table entry of a mapping at an address.\<close>

definition upd_rmap :: "rmap_id \<Rightarrow> (rmap_item \<Rightarrow> rmap_item) \<Rightarrow> state \<Rightarrow> state" where
  "upd_rmap r f s = s\<lparr>rmaps := (rmaps s)(r := f (rmaps s r))\<rparr>"

definition upd_page :: "page_id \<Rightarrow> (page_struct \<Rightarrow> page_struct) \<Rightarrow> state \<Rightarrow> state" where
  "upd_page p f s = s\<lparr>pages := (pages s)(p := f (pages s p))\<rparr>"

subsection \<open>Flag bits and return codes\<close>

definition NEWLIST_FLAG :: ulong where "NEWLIST_FLAG = push_bit 0 1"
definition DELLIST_FLAG :: ulong where "DELLIST_FLAG = push_bit 1 1"
definition INKSM_FLAG :: ulong where "INKSM_FLAG = push_bit 2 1"
definition UNSTABLE_FLAG :: ulong where "UNSTABLE_FLAG = push_bit 3 1"
definition STABLE_FLAG :: ulong where "STABLE_FLAG = push_bit 4 1"
definition CHECKSUM_LIST_FLAG :: ulong where "CHECKSUM_LIST_FLAG = push_bit 5 1"
definition INITCHECKSUM_FLAG :: ulong where "INITCHECKSUM_FLAG = push_bit 6 1"
definition RESCAN_LIST_FLAG :: ulong where "RESCAN_LIST_FLAG = push_bit 7 1"

definition PKSM_FAULT_SUCCESS :: int where "PKSM_FAULT_SUCCESS = 0"
definition PKSM_FAULT_DROP :: int where "PKSM_FAULT_DROP = 1"
definition PKSM_FAULT_TRY :: int where "PKSM_FAULT_TRY = 2"
definition PKSM_FAULT_KEEP :: int where "PKSM_FAULT_KEEP = 3"

definition EFAULT :: int where "EFAULT = 14"

text \<open>\<^verbatim>\<open>rmap_item->address & FLAG\<close> used as a truth value.\<close>

definition has_flag :: "rmap_item \<Rightarrow> ulong \<Rightarrow> bool" where
  "has_flag it f = (address it AND f \<noteq> 0)"

text \<open>\<^verbatim>\<open>rmap_item->address |= FLAG\<close> and \<^verbatim>\<open>rmap_item->address &=~ FLAG\<close>.\<close>

definition set_flag :: "ulong \<Rightarrow> rmap_item \<Rightarrow> rmap_item" where
  "set_flag f it = it\<lparr>address := address it OR f\<rparr>"

definition clear_flag :: "ulong \<Rightarrow> rmap_item \<Rightarrow> rmap_item" where
  "clear_flag f it = it\<lparr>address := address it AND NOT f\<rparr>"

subsection \<open>Host page predicates and reference counting\<close>

definition PagePKSM :: "state \<Rightarrow> page_id \<Rightarrow> bool" where
  "PagePKSM s p = PG_pksm (pages s p)"

definition PageAnon :: "state \<Rightarrow> page_id \<Rightarrow> bool" where
  "PageAnon s p = (case mapping (pages s p) of MAP_NONANON \<Rightarrow> False | _ \<Rightarrow> True)"

definition PageKsm :: "state \<Rightarrow> page_id \<Rightarrow> bool" where
  "PageKsm s p = (case mapping (pages s p) of MAP_KSM _ \<Rightarrow> True | _ \<Rightarrow> False)"

definition PageLocked :: "state \<Rightarrow> page_id \<Rightarrow> bool" where
  "PageLocked s p = PG_locked (pages s p)"

definition PageSwapCache :: "state \<Rightarrow> page_id \<Rightarrow> bool" where
  "PageSwapCache s p = PG_swapcache (pages s p)"

text \<open>\<^verbatim>\<open>page_rmapping\<close>: the pointer part of \<^verbatim>\<open>page->mapping\<close> read as an \<^verbatim>\<open>anon_vma\<close>;
  only an anonymous, non-KSM page yields one.\<close>

definition page_rmapping :: "state \<Rightarrow> page_id \<Rightarrow> anon_vma_id option" where
  "page_rmapping s p = (case mapping (pages s p) of MAP_ANON a \<Rightarrow> Some a | _ \<Rightarrow> None)"

definition page_count :: "state \<Rightarrow> page_id \<Rightarrow> int" where
  "page_count s p = p_count (pages s p)"

definition page_mapcount :: "state \<Rightarrow> page_id \<Rightarrow> int" where
  "page_mapcount s p = p_mapcount (pages s p)"

definition get_page_unless_zero :: "state \<Rightarrow> page_id \<Rightarrow> state \<times> bool" where
  "get_page_unless_zero s p =
     (if p_count (pages s p) = 0 then (s, False)
      else (upd_page p (\<lambda>pg. pg\<lparr>p_count := p_count pg + 1\<rparr>) s, True))"

definition get_page :: "state \<Rightarrow> page_id \<Rightarrow> state" where
  "get_page s p = upd_page p (\<lambda>pg. pg\<lparr>p_count := p_count pg + 1\<rparr>) s"

definition put_page :: "state \<Rightarrow> page_id \<Rightarrow> state" where
  "put_page s p = upd_page p (\<lambda>pg. pg\<lparr>p_count := p_count pg - 1\<rparr>) s"

definition get_anon_vma :: "state \<Rightarrow> anon_vma_id \<Rightarrow> state" where
  "get_anon_vma s a = s\<lparr>anon_vma_refcount := (anon_vma_refcount s)(a := anon_vma_refcount s a + 1)\<rparr>"

definition put_anon_vma :: "state \<Rightarrow> anon_vma_id \<Rightarrow> state" where
  "put_anon_vma s a = s\<lparr>anon_vma_refcount := (anon_vma_refcount s)(a := anon_vma_refcount s a - 1)\<rparr>"

text \<open>\<^verbatim>\<open>check_page_dio\<close>: true when the reference count shows a user beyond the mappings,
  the caller and the swap cache.\<close>

definition check_page_dio :: "state \<Rightarrow> page_id \<Rightarrow> bool" where
  "check_page_dio s p =
     (let swapped = (if PageSwapCache s p then 1 else 0)
      in page_mapcount s p + 1 + swapped \<noteq> page_count s p)"

subsection \<open>Intrusive lists and the rbtree primitives\<close>

text \<open>\<^verbatim>\<open>list_del\<close> / \<^verbatim>\<open>list_del_init\<close> unlink a node from whichever list holds it;
  \<^verbatim>\<open>list_add_tail\<close> appends.\<close>

definition list_del :: "rmap_id \<Rightarrow> rmap_id list \<Rightarrow> rmap_id list" where
  "list_del r xs = removeAll r xs"

definition list_add_tail :: "rmap_id \<Rightarrow> rmap_id list \<Rightarrow> rmap_id list" where
  "list_add_tail r xs = xs @ [r]"

text \<open>Modelled from the spec: \<^verbatim>\<open>rb_erase\<close> and \<^verbatim>\<open>rb_link_node\<close> + \<^verbatim>\<open>rb_insert_color\<close>
  belong to the kernel's rbtree library, which is not part of \<^verbatim>\<open>src/\<close>.  The spec only
  asks for an ordered tree: erasing unlinks the node and keeps the order of the others,
  linking puts the node into the empty slot the descent ended at (the slot is named by
  the left/right turns taken from the root).\<close>

fun erase_min :: "'a tree \<Rightarrow> 'a \<Rightarrow> 'a tree \<Rightarrow> 'a \<times> 'a tree" where
  "erase_min Leaf a r = (a, r)"
| "erase_min (Node ll la lr) a r = (let (m, l') = erase_min ll la lr in (m, Node l' a r))"

fun rb_erase :: "rmap_id \<Rightarrow> rmap_id tree \<Rightarrow> rmap_id tree" where
  "rb_erase x Leaf = Leaf"
| "rb_erase x (Node l a r) =
     (if a = x then
        (case r of
           Leaf \<Rightarrow> l
         | Node rl ra rr \<Rightarrow> (let (m, r') = erase_min rl ra rr in Node l m r'))
      else Node (rb_erase x l) a (rb_erase x r))"

fun rb_link_node :: "rmap_id \<Rightarrow> bool list \<Rightarrow> rmap_id tree \<Rightarrow> rmap_id tree" where
  "rb_link_node x ds Leaf = Node Leaf x Leaf"
| "rb_link_node x [] (Node l a r) = Node l a r"
| "rb_link_node x (d # ds) (Node l a r) =
     (if d then Node l a (rb_link_node x ds r) else Node (rb_link_node x ds l) a r)"

subsection \<open>Sampled hash\<close>

text \<open>\<^verbatim>\<open>PAGE_SIZE\<close> is a host constant (4 KiB pages);
  \<^verbatim>\<open>RSAD_STRENGTH_FULL = PAGE_SIZE / sizeof(u32)\<close>.\<close>

definition PAGE_SIZE :: nat where
  "PAGE_SIZE = 4096"

definition RSAD_STRENGTH_FULL :: nat where
  "RSAD_STRENGTH_FULL = PAGE_SIZE div 4"

definition shiftl :: nat where "shiftl = 8"
definition shiftr :: nat where "shiftr = 12"

text \<open>One round of the body of \<^verbatim>\<open>HASH_FROM_TO\<close> for the word \<open>w = key[pos]\<close>:
  \<^verbatim>\<open>hash += key[pos]; hash += (hash << shiftl); hash ^= (hash >> shiftr);\<close>\<close>

definition hash_round :: "u32 \<Rightarrow> u32 \<Rightarrow> u32" where
  "hash_round hash w =
     (let h1 = hash + w;
          h2 = h1 + push_bit shiftl h1;
          h3 = h2 XOR drop_bit shiftr h2
      in h3)"

text \<open>The macro's \<^verbatim>\<open>for\<close> loop.  A table index or a word position outside its array is
  an out-of-bounds read (\<open>None\<close>).\<close>

function HASH_FROM_TO :: "u32 list \<Rightarrow> u32 list \<Rightarrow> nat \<Rightarrow> nat \<Rightarrow> u32 \<Rightarrow> u32 option" where
  "HASH_FROM_TO tbl key index to hash =
     (if index < to then
        (if index < length tbl then
           (let pos = tbl ! index in
            if unat pos < length key
            then HASH_FROM_TO tbl key (Suc index) to (hash_round hash (key ! unat pos))
            else None)
         else None)
      else Some hash)"
  by pat_completeness auto
termination
  by (relation "measure (\<lambda>(tbl, key, index, to, hash). to - index)") auto

definition pksm_calc_checksum :: "u32 list \<Rightarrow> u32 list \<Rightarrow> nat \<Rightarrow> u32 option" where
  "pksm_calc_checksum tbl addr hash_strength =
     HASH_FROM_TO tbl addr 0 hash_strength 0xdeadbeef"

definition calc_checksum :: "u32 list \<Rightarrow> u32 list \<Rightarrow> u32 option" where
  "calc_checksum tbl cont = pksm_calc_checksum tbl cont (drop_bit 4 RSAD_STRENGTH_FULL)"

text \<open>The hash as the specification words it, for comparison with the code:
  fold \<open>N >> 4\<close> selected words, \<open>N = PAGE_SIZE / 4\<close>, into an accumulator starting at
  \<^verbatim>\<open>0xdeadbeef\<close> with \<^verbatim>\<open>h = ((h + w) << 8) ^ ((h + w) >> 12)\<close>.\<close>

definition spec_hash_step :: "u32 \<Rightarrow> u32 \<Rightarrow> u32" where
  "spec_hash_step h w = push_bit 8 (h + w) XOR drop_bit 12 (h + w)"

definition spec_hash :: "u32 list \<Rightarrow> u32 list \<Rightarrow> u32" where
  "spec_hash tbl cont =
     fold (\<lambda>i h. spec_hash_step h (cont ! unat (tbl ! i)))
          [0 ..< drop_bit 4 (PAGE_SIZE div 4)] 0xdeadbeef"

subsection \<open>Slab objects\<close>

text \<open>\<^verbatim>\<open>alloc_stable_anon\<close>: \<open>False\<close> stands for the \<^verbatim>\<open>NULL\<close> it returns when the slab
  allocation fails.\<close>

definition alloc_stable_anon :: "state \<Rightarrow> state \<times> bool" where
  "alloc_stable_anon s =
     (if stable_anon_cache s = 0 then (s, False)
      else (s\<lparr>stable_anon_cache := stable_anon_cache s - 1,
              ksm_stable_nodes := ksm_stable_nodes s + 1\<rparr>, True))"

definition free_stable_anon :: "state \<Rightarrow> state" where
  "free_stable_anon s =
     s\<lparr>stable_anon_cache := stable_anon_cache s + 1,
       ksm_stable_nodes := ksm_stable_nodes s - 1\<rparr>"

text \<open>\<^verbatim>\<open>pksm_free_rmap_item\<close>: the freed object leaves the set of live items; its memory
  is not cleared.\<close>

definition pksm_free_rmap_item :: "state \<Rightarrow> rmap_id option \<Rightarrow> state" where
  "pksm_free_rmap_item s ro =
     (case ro of
        None \<Rightarrow> s
      | Some r \<Rightarrow> s\<lparr>ksm_rmap_items := ksm_rmap_items s - 1,
                     rmap_in_use := (rmap_in_use s)(r := False)\<rparr>)"

subsection \<open>Validity and sharing counters\<close>

definition check_valid_rmap_item :: "state \<Rightarrow> rmap_id option \<Rightarrow> bool" where
  "check_valid_rmap_item s ro =
     (case ro of
        None \<Rightarrow> False
      | Some r \<Rightarrow>
          (case page (rmaps s r) of
             None \<Rightarrow> False
           | Some p \<Rightarrow> PagePKSM s p \<and> has_flag (rmaps s r) INKSM_FLAG))"

definition page_stable_rmap_item :: "state \<Rightarrow> page_id \<Rightarrow> rmap_id option" where
  "page_stable_rmap_item s p =
     (if PageKsm s p then (if PagePKSM s p then pksm (pages s p) else None) else None)"

definition in_stable_tree :: "rmap_item \<Rightarrow> bool" where
  "in_stable_tree it = has_flag it STABLE_FLAG"

definition in_unstable_tree :: "rmap_item \<Rightarrow> bool" where
  "in_unstable_tree it = has_flag it UNSTABLE_FLAG"

text \<open>One iteration of the loops of \<^verbatim>\<open>pksm_del_sharing_page_counter\<close> and
  \<^verbatim>\<open>pksm_add_sharing_page_counter\<close>.\<close>

definition del_sharing_step :: "rmap_id \<Rightarrow> state \<Rightarrow> state" where
  "del_sharing_step r s =
     upd_rmap r (\<lambda>it. it\<lparr>r_mapcount := r_mapcount it - 1\<rparr>)
       (s\<lparr>ksm_pages_sharing := ksm_pages_sharing s - 1\<rparr>)"

definition add_sharing_step :: "rmap_id \<Rightarrow> state \<Rightarrow> state" where
  "add_sharing_step r s =
     upd_rmap r (\<lambda>it. it\<lparr>r_mapcount := r_mapcount it + 1\<rparr>)
       (s\<lparr>ksm_pages_sharing := ksm_pages_sharing s + 1\<rparr>)"

text \<open>The loops run \<open>n\<close> times for \<open>n > 0\<close> and not at all otherwise; with
  \<^verbatim>\<open>page->pksm == NULL\<close> the first iteration dereferences \<^verbatim>\<open>NULL\<close>.\<close>

definition pksm_del_sharing_page_counter :: "state \<Rightarrow> page_id \<Rightarrow> int \<Rightarrow> fault + state" where
  "pksm_del_sharing_page_counter s p n =
     (case pksm (pages s p) of
        None \<Rightarrow> (if 0 < n then Inl NULL_DEREF else Inr s)
      | Some r \<Rightarrow> Inr ((del_sharing_step r ^^ nat n) s))"

definition pksm_add_sharing_page_counter :: "state \<Rightarrow> page_id \<Rightarrow> int \<Rightarrow> fault + state" where
  "pksm_add_sharing_page_counter s p n =
     (if PageKsm s p then
        (case pksm (pages s p) of
           None \<Rightarrow> (if 0 < n then Inl NULL_DEREF else Inr s)
         | Some r \<Rightarrow> Inr ((add_sharing_step r ^^ nat n) s))
      else Inr s)"

subsection \<open>Leaving a tree\<close>

text \<open>The loop of \<^verbatim>\<open>remove_rmap_item_from_tree\<close> that releases every anchor of the
  item.\<close>

fun free_stable_anons :: "anon_vma_id list \<Rightarrow> state \<Rightarrow> state" where
  "free_stable_anons [] s = s"
| "free_stable_anons (a # as) s = free_stable_anons as (free_stable_anon (put_anon_vma s a))"

definition remove_rmap_item_from_tree :: "state \<Rightarrow> rmap_id option \<Rightarrow> bool \<Rightarrow> state" where
  "remove_rmap_item_from_tree s ro free_anon =
     (case ro of
        None \<Rightarrow> s
      | Some r \<Rightarrow>
          (let s1 =
                 (if has_flag (rmaps s r) STABLE_FLAG then
                    (if rb_linked (rmaps s r) then
                       (upd_rmap r (\<lambda>it. (clear_flag STABLE_FLAG it)\<lparr>rb_linked := False\<rparr>) s)
                         \<lparr>root_stable_tree := rb_erase r (root_stable_tree s),
                          ksm_pages_shared := ksm_pages_shared s - 1\<rparr>
                     else s)
                  else if has_flag (rmaps s r) UNSTABLE_FLAG then
                    (let s0 =
                           (if rb_linked (rmaps s r) then
                              (upd_rmap r (\<lambda>it. (clear_flag UNSTABLE_FLAG it)\<lparr>rb_linked := False\<rparr>) s)
                                \<lparr>root_unstable_tree := rb_erase r (root_unstable_tree s),
                                 ksm_pages_unshared := ksm_pages_unshared s - 1\<rparr>
                            else s)
                     in if has_flag (rmaps s0 r) CHECKSUM_LIST_FLAG then
                          (upd_rmap r (clear_flag CHECKSUM_LIST_FLAG) s0)
                            \<lparr>unstabletree_checksum_list := list_del r (unstabletree_checksum_list s0)\<rparr>
                        else s0)
                  else s)
           in if free_anon \<and> hlist (rmaps s1 r) \<noteq> [] then
                upd_rmap r (\<lambda>it. it\<lparr>hlist := []\<rparr>) (free_stable_anons (hlist (rmaps s1 r)) s1)
              else s1))"

subsection \<open>Event intake\<close>

text \<open>\<^verbatim>\<open>pksm_add_new_anon_page\<close>; the result is the new state and the return value.\<close>

definition pksm_add_new_anon_page ::
  "state \<Rightarrow> page_id option \<Rightarrow> rmap_id option \<Rightarrow> anon_vma_id option \<Rightarrow> state \<times> int" where
  "pksm_add_new_anon_page s po ro ao =
     (case ro of
        None \<Rightarrow> (s, - EFAULT)
      | Some r \<Rightarrow>
          (case po of
             None \<Rightarrow> (s, - EFAULT)
           | Some p \<Rightarrow>
               (case ao of
                  None \<Rightarrow> (s, - EFAULT)
                | Some a \<Rightarrow>
                    if PagePKSM s p then (s, - EFAULT)
                    else if \<not> PageAnon s p then (s, - EFAULT)
                    else if PageKsm s p then (s, - EFAULT)
                    else
                      (let s1 = upd_rmap r (\<lambda>it. it\<lparr>anon_vma := Some a\<rparr>) s;
                           s2 = upd_page p (\<lambda>pg. pg\<lparr>PG_pksm := True\<rparr>) s1;
                           s3 = upd_rmap r (set_flag NEWLIST_FLAG) s2;
                           s4 = upd_rmap r (set_flag INITCHECKSUM_FLAG) s3;
                           s5 = upd_page p (\<lambda>pg. pg\<lparr>pksm := Some r\<rparr>) s4;
                           s6 = upd_rmap r (\<lambda>it. it\<lparr>page := Some p\<rparr>) s5;
                           s7 = s6\<lparr>new_anon_page_list := list_add_tail r (new_anon_page_list s6)\<rparr>
                       in (s7, 0)))))"

text \<open>\<^verbatim>\<open>pksm_del_anon_page\<close>.  \<^verbatim>\<open>list_del(&rmap_item->list)\<close> unlinks the item from the
  queue it is on, the new list or the rescan list.\<close>

definition pksm_del_anon_page :: "state \<Rightarrow> page_id \<Rightarrow> fault + state \<times> int" where
  "pksm_del_anon_page s p =
     (if \<not> PagePKSM s p then Inr (s, - EFAULT)
      else
        (let s1 = upd_page p (\<lambda>pg. pg\<lparr>PG_pksm := False\<rparr>) s in
         case pksm (pages s1 p) of
           None \<Rightarrow> Inr (s1, - EFAULT)
         | Some r \<Rightarrow>
             if page (rmaps s1 r) \<noteq> Some p then Inr (s1, - EFAULT)
             else
               (let map = sint (r_mapcount (rmaps s1 r)) in
                case (if 0 < map then pksm_del_sharing_page_counter s1 p map else Inr s1) of
                  Inl e \<Rightarrow> Inl e
                | Inr s2 \<Rightarrow>
                    (let s3 = upd_page p (\<lambda>pg. pg\<lparr>pksm := None\<rparr>) s2;
                         s4 = upd_rmap r (\<lambda>it. it\<lparr>page := None\<rparr>) s3
                     in if address (rmaps s4 r) AND (NEWLIST_FLAG OR RESCAN_LIST_FLAG) \<noteq> 0 then
                          (let s5 = s4\<lparr>new_anon_page_list := list_del r (new_anon_page_list s4),
                                       pksm_rescan_page_list := list_del r (pksm_rescan_page_list s4)\<rparr>;
                               s6 = upd_rmap r (\<lambda>it. it\<lparr>address := 0\<rparr>) s5
                           in Inr (pksm_free_rmap_item s6 (Some r), 0))
                        else
                          (let s5 = upd_rmap r (set_flag DELLIST_FLAG) s4;
                               s6 = s5\<lparr>del_anon_page_list := list_add_tail r (del_anon_page_list s5)\<rparr>
                           in Inr (s6, 0))))))"

subsection \<open>Scanner, phase 1: intake promotion\<close>

text \<open>The first loop of \<^verbatim>\<open>ksm_do_scan\<close>, over the entries the new list holds when the
  loop starts.  \<^verbatim>\<open>list_move\<close> puts the entry at the head of the local list \<^verbatim>\<open>l_add\<close>.
  \<^verbatim>\<open>scan++ > scan_npages\<close> compares the old value of the \<^verbatim>\<open>int\<close> counter with the
  \<^verbatim>\<open>unsigned int\<close> budget, as unsigned numbers.\<close>

fun scan_new_list :: "u32 \<Rightarrow> rmap_id list \<Rightarrow> u32 \<Rightarrow> state \<times> rmap_id list \<Rightarrow> state \<times> rmap_id list" where
  "scan_new_list scan_npages [] scan (s, l_add) = (s, l_add)"
| "scan_new_list scan_npages (r # rest) scan (s, l_add) =
     (let s1 = s\<lparr>new_anon_page_list := list_del r (new_anon_page_list s)\<rparr>;
          l_add1 = r # l_add;
          s2 = upd_rmap r (clear_flag NEWLIST_FLAG) s1;
          s3 = upd_rmap r (set_flag INKSM_FLAG) s2
      in if scan_npages < scan then (s3, l_add1)
         else scan_new_list scan_npages rest (scan + 1) (s3, l_add1))"

text \<open>The second loop, over the rescan list.  An entry flagged \<^verbatim>\<open>DELLIST_FLAG\<close> is
  unlinked and skipped by \<^verbatim>\<open>continue\<close>, without counting.\<close>

fun scan_rescan_list :: "u32 \<Rightarrow> rmap_id list \<Rightarrow> u32 \<Rightarrow> state \<times> rmap_id list \<Rightarrow> state \<times> rmap_id list" where
  "scan_rescan_list scan_npages [] scan (s, l_add) = (s, l_add)"
| "scan_rescan_list scan_npages (r # rest) scan (s, l_add) =
     (let s1 = s\<lparr>pksm_rescan_page_list := list_del r (pksm_rescan_page_list s)\<rparr>;
          s2 = upd_rmap r (clear_flag RESCAN_LIST_FLAG) s1
      in if has_flag (rmaps s2 r) DELLIST_FLAG then
           scan_rescan_list scan_npages rest scan (s2, l_add)
         else
           (let l_add1 = list_add_tail r l_add
            in if scan_npages < scan then (s2, l_add1)
               else scan_rescan_list scan_npages rest (scan + 1) (s2, l_add1)))"

text \<open>Both loops in sequence, \<^verbatim>\<open>scan\<close> reset to 0 in between: the state and the
  working list \<^verbatim>\<open>l_add\<close> that phase 2 then processes.\<close>

definition ksm_do_scan_intake :: "state \<Rightarrow> u32 \<Rightarrow> state \<times> rmap_id list" where
  "ksm_do_scan_intake s scan_npages =
     (let (s1, l1) = scan_new_list scan_npages (new_anon_page_list s) 0 (s, [])
      in scan_rescan_list scan_npages (pksm_rescan_page_list s1) 0 (s1, l1))"

subsection \<open>Anchors\<close>

text \<open>\<^verbatim>\<open>stable_tree_append\<close>.  The result of \<^verbatim>\<open>alloc_stable_anon\<close> is used unchecked:
  \<^verbatim>\<open>anon_node->anon_vma = ...\<close> with \<^verbatim>\<open>anon_node == NULL\<close> is a \<^verbatim>\<open>NULL\<close> dereference,
  and so is \<^verbatim>\<open>get_anon_vma\<close> of a \<^verbatim>\<open>NULL\<close> pointer.  \<^verbatim>\<open>hlist_add_head\<close> leaves
  \<^verbatim>\<open>anon_node->hlist.next == NULL\<close> exactly when the list was empty.\<close>

definition stable_tree_append :: "state \<Rightarrow> rmap_id option \<Rightarrow> page_id \<Rightarrow> fault + state" where
  "stable_tree_append s rmap_head p =
     (let rmap = pksm (pages s p) in
      if \<not> check_valid_rmap_item s rmap_head then Inr s
      else if \<not> check_valid_rmap_item s rmap then Inr s
      else
        (case (rmap_head, rmap) of
           (Some h, Some r) \<Rightarrow>
             (case alloc_stable_anon s of
                (s1, False) \<Rightarrow> Inl NULL_DEREF
              | (s1, True) \<Rightarrow>
                  (case (if PageKsm s1 p then anon_vma (rmaps s1 r) else page_rmapping s1 p) of
                     None \<Rightarrow> Inl NULL_DEREF
                   | Some a \<Rightarrow>
                       (let s2 = get_anon_vma s1 a;
                            was_empty = (hlist (rmaps s2 h) = []);
                            s3 = upd_rmap h (\<lambda>it. it\<lparr>hlist := a # hlist it\<rparr>) s2
                        in if was_empty
                           then Inr (s3\<lparr>ksm_pages_shared := ksm_pages_shared s3 + 1\<rparr>)
                           else Inr s3)))
         | _ \<Rightarrow> Inr s))"

subsection \<open>Scanner, phase 3: sample size\<close>

text \<open>\<^verbatim>\<open>pksm_calc_update_pages_num\<close>.  \<^verbatim>\<open>ksm_pages_unshared\<close> is \<^verbatim>\<open>unsigned long\<close>, the
  three tunables are \<^verbatim>\<open>unsigned int\<close>: the product with the sleep time is a 64-bit
  product, the divisor \<^verbatim>\<open>period * 1000\<close> a 32-bit one, and the result is truncated to
  \<^verbatim>\<open>unsigned int\<close>.  A zero divisor is a divide error.\<close>

definition pksm_calc_update_pages_num :: "state \<Rightarrow> fault + u32" where
  "pksm_calc_update_pages_num s =
     (if ksm_pages_unshared s < ucast (ksm_thread_pages_to_scan s)
      then Inr (ucast (ksm_pages_unshared s))
      else
        (let divisor = pksm_unshared_page_update_period s * 1000 in
         if divisor = 0 then Inl DIVIDE_ERROR
         else Inr (ucast ((ksm_pages_unshared s * ucast (ksm_thread_sleep_millisecs s))
                            div ucast divisor))))"

subsection \<open>Host page-table primitives\<close>

text \<open>Modelled from the spec: the host's page handle and page-table primitives (spec
  sections 3, 4.4 and 6: content lock with try and blocking variants, map count,
  \<^verbatim>\<open>write_protect\<close>, \<^verbatim>\<open>replace_pte\<close>, \<^verbatim>\<open>anon_vma_iter\<close>, \<^verbatim>\<open>vma_eligible\<close>) are
  declared outside \<^verbatim>\<open>src/\<close>.  They read and write the host part of the state:
  \<^verbatim>\<open>page_check_address\<close> finds the present entry at the address if it maps the page;
  \<^verbatim>\<open>page_lock_anon_vma\<close> yields the \<^verbatim>\<open>anon_vma\<close> of a mapped anonymous, non-KSM page;
  \<^verbatim>\<open>try_to_free_swap\<close> drops an unused swap-cache slot and its reference.  The
  blocking \<^verbatim>\<open>lock_page\<close> is modelled as returning with the lock held.  The state
  does not record who holds a page lock, so a call that waits for another holder to
  release it and a call on a page the caller has itself left locked, which never
  returns, are not told apart: the model has returning executions of
  \<^verbatim>\<open>cmp_and_merge_page\<close> where the host would sleep for ever in \<^verbatim>\<open>lock_page\<close>.\<close>

definition page_check_address :: "state \<Rightarrow> page_id \<Rightarrow> vma_id \<Rightarrow> vaddr \<Rightarrow> pte option" where
  "page_check_address s p v a =
     (case pgtable s v a of
        None \<Rightarrow> None
      | Some e \<Rightarrow> if pte_pfn e = p then Some e else None)"

definition page_lock_anon_vma :: "state \<Rightarrow> page_id \<Rightarrow> anon_vma_id option" where
  "page_lock_anon_vma s p =
     (case mapping (pages s p) of
        MAP_ANON a \<Rightarrow> if 0 < page_mapcount s p then Some a else None
      | _ \<Rightarrow> None)"

definition set_pte_at :: "state \<Rightarrow> vma_id \<Rightarrow> vaddr \<Rightarrow> pte \<Rightarrow> state" where
  "set_pte_at s v a e = s\<lparr>pgtable := (pgtable s)(v := (pgtable s v)(a \<mapsto> e))\<rparr>"

definition trylock_page :: "state \<Rightarrow> page_id \<Rightarrow> state \<times> bool" where
  "trylock_page s p =
     (if PG_locked (pages s p) then (s, False)
      else (upd_page p (\<lambda>pg. pg\<lparr>PG_locked := True\<rparr>) s, True))"

definition lock_page :: "state \<Rightarrow> page_id \<Rightarrow> state" where
  "lock_page s p = upd_page p (\<lambda>pg. pg\<lparr>PG_locked := True\<rparr>) s"

definition unlock_page :: "state \<Rightarrow> page_id \<Rightarrow> state" where
  "unlock_page s p = upd_page p (\<lambda>pg. pg\<lparr>PG_locked := False\<rparr>) s"

definition set_page_dirty :: "state \<Rightarrow> page_id \<Rightarrow> state" where
  "set_page_dirty s p = upd_page p (\<lambda>pg. pg\<lparr>PG_dirty := True\<rparr>) s"

definition page_add_anon_rmap :: "state \<Rightarrow> page_id \<Rightarrow> state" where
  "page_add_anon_rmap s p = upd_page p (\<lambda>pg. pg\<lparr>p_mapcount := p_mapcount pg + 1\<rparr>) s"

definition page_remove_rmap :: "state \<Rightarrow> page_id \<Rightarrow> state" where
  "page_remove_rmap s p = upd_page p (\<lambda>pg. pg\<lparr>p_mapcount := p_mapcount pg - 1\<rparr>) s"

definition try_to_free_swap :: "state \<Rightarrow> page_id \<Rightarrow> state" where
  "try_to_free_swap s p =
     (if PG_swapcache (pages s p) \<and> swap_unused (pages s p)
      then upd_page p (\<lambda>pg. pg\<lparr>PG_swapcache := False, p_count := p_count pg - 1\<rparr>) s
      else s)"

definition munlock_vma_page :: "state \<Rightarrow> page_id \<Rightarrow> state" where
  "munlock_vma_page s p = upd_page p (\<lambda>pg. pg\<lparr>PG_mlocked := False\<rparr>) s"

definition mlock_vma_page :: "state \<Rightarrow> page_id \<Rightarrow> state" where
  "mlock_vma_page s p = upd_page p (\<lambda>pg. pg\<lparr>PG_mlocked := True\<rparr>) s"

definition vma_can_enter :: "state \<Rightarrow> vma_id \<Rightarrow> bool" where
  "vma_can_enter s v = vm_can_scan (vmas s v)"

subsection \<open>Page contents\<close>

text \<open>\<^verbatim>\<open>memcmp_pages\<close> / \<^verbatim>\<open>pages_identical\<close> compare the \<^verbatim>\<open>PAGE_SIZE\<close> bytes of two
  pages; \<^verbatim>\<open>is_full_zero\<close> scans \<^verbatim>\<open>PAGE_SIZE\<close> bytes for a non-zero word.\<close>

definition pages_identical :: "state \<Rightarrow> page_id \<Rightarrow> page_id \<Rightarrow> bool" where
  "pages_identical s p1 p2 =
     (take (PAGE_SIZE div 4) (content (pages s p1)) = take (PAGE_SIZE div 4) (content (pages s p2)))"

definition is_full_zero :: "u32 list \<Rightarrow> nat \<Rightarrow> bool" where
  "is_full_zero cont len = list_all (\<lambda>w. w = 0) (take (len div 4) cont)"

definition is_page_full_zero :: "state \<Rightarrow> page_id \<Rightarrow> bool" where
  "is_page_full_zero s p = is_full_zero (content (pages s p)) PAGE_SIZE"

subsection \<open>Merge primitives\<close>

text \<open>\<^verbatim>\<open>write_protect_page\<close>: the state, the return code and the value stored through
  \<^verbatim>\<open>orig_pte\<close> (\<open>None\<close> when nothing is stored and the caller's \<^verbatim>\<open>__pte(0)\<close> stays).\<close>

definition write_protect_page :: "state \<Rightarrow> vma_id \<Rightarrow> page_id \<Rightarrow> state \<times> int \<times> pte option" where
  "write_protect_page s v p =
     (case page_vaddr s p v of
        None \<Rightarrow> (s, PKSM_FAULT_DROP, None)
      | Some addr \<Rightarrow>
          (case page_check_address s p v addr of
             None \<Rightarrow> (s, PKSM_FAULT_DROP, None)
           | Some e \<Rightarrow>
               if pte_write e \<or> pte_dirty e then
                 (let swapped = (if PageSwapCache s p then 1 else 0) in
                  if page_mapcount s p + 1 + swapped \<noteq> page_count s p
                  then (s, PKSM_FAULT_TRY, None)
                  else
                    (let s1 = (if pte_dirty e then set_page_dirty s p else s);
                         entry = e\<lparr>pte_write := False, pte_dirty := False\<rparr>;
                         s2 = set_pte_at s1 v addr entry
                     in (s2, 0, Some entry)))
               else (s, 0, Some e)))"

definition is_zero_pfn :: "state \<Rightarrow> page_id \<Rightarrow> bool" where
  "is_zero_pfn s k = (k = pksm_zero_pfn s \<or> k = zero_pfn s)"

definition replace_page ::
  "state \<Rightarrow> vma_id \<Rightarrow> page_id \<Rightarrow> page_id \<Rightarrow> pte option \<Rightarrow> fault + state \<times> int" where
  "replace_page s v p kpage orig_pte =
     (case page_vaddr s p v of
        None \<Rightarrow> Inr (s, PKSM_FAULT_DROP)
      | Some addr \<Rightarrow>
          (case pgtable s v addr of
             None \<Rightarrow> Inr (s, PKSM_FAULT_DROP)
           | Some e \<Rightarrow>
               if Some e \<noteq> orig_pte then Inr (s, PKSM_FAULT_DROP)
               else
                 (let entry = \<lparr>pte_pfn = kpage, pte_write = vm_prot_write (vmas s v),
                               pte_dirty = False, pte_special = False\<rparr>;
                      (s1, entry1) =
                        (if is_zero_pfn s kpage
                         then (s\<lparr>ksm_pages_zero_sharing := ksm_pages_zero_sharing s + 1\<rparr>,
                               entry\<lparr>pte_special := True\<rparr>)
                         else (page_add_anon_rmap (get_page s kpage) kpage, entry));
                      s2 = set_pte_at s1 v addr entry1;
                      s3 = page_remove_rmap s2 p;
                      s4 = (if \<not> 0 < page_mapcount s3 p then try_to_free_swap s3 p else s3);
                      s5 = put_page s4 p
                  in case pksm_add_sharing_page_counter s5 kpage 1 of
                       Inl f \<Rightarrow> Inl f
                     | Inr s6 \<Rightarrow> Inr (s6, 0))))"

definition set_page_stable_ksm :: "state \<Rightarrow> page_id \<Rightarrow> rmap_id option \<Rightarrow> state" where
  "set_page_stable_ksm s p ro = upd_page p (\<lambda>pg. pg\<lparr>mapping := MAP_KSM ro\<rparr>) s"

text \<open>\<^verbatim>\<open>pksm_writepect_pte\<close>, the per-mapping step of an ordinary merge; \<open>kpage = None\<close>
  is the call with \<^verbatim>\<open>kpage == NULL\<close> that only turns the page into a KSM page.\<close>

definition pksm_writepect_pte ::
  "page_id option \<Rightarrow> page_id \<Rightarrow> state \<Rightarrow> vma_id \<Rightarrow> fault + state \<times> int" where
  "pksm_writepect_pte kpage p s v =
     (case write_protect_page s v p of
        (s1, err, orig_pte) \<Rightarrow>
          (case (if err = 0 then
                   (case kpage of
                      None \<Rightarrow> Inr (set_page_stable_ksm s1 p None, 0)
                    | Some k \<Rightarrow>
                        if pages_identical s1 p k then replace_page s1 v p k orig_pte
                        else Inr (s1, err))
                 else Inr (s1, err)) of
             Inl f \<Rightarrow> Inl f
           | Inr (s2, err2) \<Rightarrow>
               (case kpage of
                  Some k \<Rightarrow>
                    if vm_locked (vmas s2 v) \<and> err2 = 0 then
                      (let s3 = munlock_vma_page s2 p in
                       if \<not> PG_mlocked (pages s3 k)
                       then Inr (mlock_vma_page (lock_page (unlock_page s3 p) k) k, err2)
                       else Inr (s3, err2))
                    else Inr (s2, err2)
                | None \<Rightarrow> Inr (s2, err2))))"

text \<open>\<^verbatim>\<open>pksm_merge_zero_page\<close>, the per-mapping step of the zero fast path.\<close>

definition pksm_merge_zero_page ::
  "page_id \<Rightarrow> page_id \<Rightarrow> state \<Rightarrow> vma_id \<Rightarrow> fault + state \<times> int" where
  "pksm_merge_zero_page kpage p s v =
     (case write_protect_page s v p of
        (s1, err, orig_pte) \<Rightarrow>
          if err = 0 then
            (if is_page_full_zero s1 p then replace_page s1 v p kpage orig_pte
             else Inr (s1, err))
          else Inr (s1, err))"

text \<open>The loop of \<^verbatim>\<open>pksm_rmap_walk\<close> over the mappings of the page's \<^verbatim>\<open>anon_vma\<close>;
  \<open>ret\<close> is the value of the C variable when the iteration starts.\<close>

fun rmap_walk_loop ::
  "(state \<Rightarrow> vma_id \<Rightarrow> fault + state \<times> int) \<Rightarrow> page_id \<Rightarrow> vma_id list \<Rightarrow> int \<Rightarrow> state
     \<Rightarrow> fault + state \<times> int" where
  "rmap_walk_loop rmap_one p [] ret s = Inr (s, ret)"
| "rmap_walk_loop rmap_one p (v # vs) ret s =
     (if \<not> vma_can_enter s v then Inr (s, ret)
      else
        (case page_vaddr s p v of
           None \<Rightarrow> Inr (s, ret)
         | Some addr \<Rightarrow>
             (case rmap_one s v of
                Inl f \<Rightarrow> Inl f
              | Inr (s1, ret1) \<Rightarrow>
                  if ret1 \<noteq> PKSM_FAULT_SUCCESS then Inr (s1, ret1)
                  else rmap_walk_loop rmap_one p vs ret1 s1)))"

definition pksm_rmap_walk ::
  "state \<Rightarrow> page_id \<Rightarrow> (state \<Rightarrow> vma_id \<Rightarrow> fault + state \<times> int) \<Rightarrow> fault + state \<times> int" where
  "pksm_rmap_walk s p rmap_one =
     (if \<not> PageAnon s p then Inr (s, PKSM_FAULT_DROP)
      else
        (case page_lock_anon_vma s p of
           None \<Rightarrow> Inr (s, PKSM_FAULT_DROP)
         | Some a \<Rightarrow> rmap_walk_loop rmap_one p (anon_vma_head s a) PKSM_FAULT_DROP s))"

definition try_to_merge_one_anon_page ::
  "state \<Rightarrow> page_id \<Rightarrow> page_id option \<Rightarrow> fault + state \<times> int" where
  "try_to_merge_one_anon_page s p kpage =
     (if Some p = kpage then Inr (s, 0)
      else if \<not> PageAnon s p then Inr (s, PKSM_FAULT_DROP)
      else
        (case trylock_page s p of
           (s1, False) \<Rightarrow> Inr (s1, PKSM_FAULT_TRY)
         | (s1, True) \<Rightarrow>
             (case pksm_rmap_walk s1 p (pksm_writepect_pte kpage p) of
                Inl f \<Rightarrow> Inl f
              | Inr (s2, err) \<Rightarrow> Inr (unlock_page s2 p, err))))"

definition try_to_merge_with_pksm_page ::
  "state \<Rightarrow> rmap_id \<Rightarrow> page_id \<Rightarrow> page_id option \<Rightarrow> fault + state \<times> int" where
  "try_to_merge_with_pksm_page s r p kpage =
     (if Some r \<noteq> pksm (pages s p) then Inl BUG
      else try_to_merge_one_anon_page s p kpage)"

definition try_to_merge_two_pages ::
  "state \<Rightarrow> rmap_id \<Rightarrow> page_id \<Rightarrow> rmap_id \<Rightarrow> page_id \<Rightarrow> fault + state \<times> int" where
  "try_to_merge_two_pages s r p tree_r tree_p =
     (if Some r \<noteq> pksm (pages s p) then Inl BUG
      else if Some tree_r \<noteq> pksm (pages s tree_p) then Inl BUG
      else
        (case try_to_merge_with_pksm_page s r p None of
           Inl f \<Rightarrow> Inl f
         | Inr (s1, err) \<Rightarrow>
             if err = 0 then try_to_merge_with_pksm_page s1 tree_r tree_p (Some p)
             else Inr (s1, err)))"

subsection \<open>Zero-page fast path\<close>

text \<open>\<^verbatim>\<open>find_zero_page_hash\<close> (with \<^verbatim>\<open>CONFIG_PKSM_RHASH\<close>) reads the checksum through
  \<^verbatim>\<open>page->pksm\<close>.\<close>

definition find_zero_page_hash :: "state \<Rightarrow> page_id \<Rightarrow> fault + bool" where
  "find_zero_page_hash s p =
     (case pksm (pages s p) of
        None \<Rightarrow> Inl NULL_DEREF
      | Some r \<Rightarrow> Inr (checksum (rmaps s r) = pksm_zero_random_checksum s))"

definition try_to_merge_zero_page :: "state \<Rightarrow> page_id \<Rightarrow> fault + state \<times> int" where
  "try_to_merge_zero_page s p =
     (let zero_page = empty_pksm_zero_page s in
      if \<not> PageAnon s p then Inr (s, PKSM_FAULT_DROP)
      else
        (case trylock_page s p of
           (s1, False) \<Rightarrow> Inr (s1, PKSM_FAULT_DROP)
         | (s1, True) \<Rightarrow>
             (case pksm_rmap_walk s1 p (pksm_merge_zero_page zero_page p) of
                Inl f \<Rightarrow> Inl f
              | Inr (s2, err) \<Rightarrow> Inr (unlock_page s2 p, err))))"

definition cmp_and_merge_zero_page :: "state \<Rightarrow> page_id \<Rightarrow> fault + state \<times> int" where
  "cmp_and_merge_zero_page s p =
     (case find_zero_page_hash s p of
        Inl f \<Rightarrow> Inl f
      | Inr False \<Rightarrow> Inr (s, - EFAULT)
      | Inr True \<Rightarrow>
          (case try_to_merge_zero_page s p of
             Inl f \<Rightarrow> Inl f
           | Inr (s1, err) \<Rightarrow> if err = 0 then Inr (s1, 0) else Inr (s1, - EFAULT)))"

subsection \<open>Taking a reference on a tree node's page\<close>

definition get_ksm_page :: "state \<Rightarrow> rmap_id option \<Rightarrow> state \<times> page_id option" where
  "get_ksm_page s ro =
     (if \<not> check_valid_rmap_item s ro then (s, None)
      else
        (case ro of
           None \<Rightarrow> (s, None)
         | Some r \<Rightarrow>
             if \<not> has_flag (rmaps s r) STABLE_FLAG then (s, None)
             else
               (case page (rmaps s r) of
                  None \<Rightarrow> (s, None)
                | Some p \<Rightarrow>
                    if \<not> PageKsm s p then (s, None)
                    else if mapping (pages s p) \<noteq> MAP_KSM (Some r) then (s, None)
                    else
                      (case get_page_unless_zero s p of
                         (s1, False) \<Rightarrow> (s1, None)
                       | (s1, True) \<Rightarrow>
                           if \<not> check_valid_rmap_item s1 ro then (put_page s1 p, None)
                           else if mapping (pages s1 p) \<noteq> MAP_KSM (Some r)
                           then (put_page s1 p, None)
                           else (s1, Some p)))))"

definition get_mergeable_page :: "state \<Rightarrow> rmap_id option \<Rightarrow> state \<times> page_id option" where
  "get_mergeable_page s ro =
     (if \<not> check_valid_rmap_item s ro then (s, None)
      else
        (case ro of
           None \<Rightarrow> (s, None)
         | Some r \<Rightarrow>
             if \<not> has_flag (rmaps s r) UNSTABLE_FLAG then (s, None)
             else
               (case page (rmaps s r) of
                  None \<Rightarrow> (s, None)
                | Some p \<Rightarrow>
                    (case get_page_unless_zero s p of
                       (s1, False) \<Rightarrow> (s1, None)
                     | (s1, True) \<Rightarrow>
                         if \<not> check_valid_rmap_item s1 ro then (s1, None)
                         else if PageAnon s1 p then (s1, Some p)
                         else (put_page s1 p, None)))))"

subsection \<open>Tree descents\<close>

definition hash_cmp :: "u32 \<Rightarrow> u32 \<Rightarrow> int" where
  "hash_cmp new_val node_val =
     (if node_val < new_val then 1 else if new_val < node_val then - 1 else 0)"

text \<open>How one pass of a \<^verbatim>\<open>while (*new)\<close> loop ends: at \<^verbatim>\<open>goto retry\<close>, at a
  \<^verbatim>\<open>return\<close>, or at an empty slot (named by the turns taken from the root, \<open>True\<close> for
  \<^verbatim>\<open>rb_right\<close>).\<close>

datatype 'a descent = RETRY | RETURN 'a | SLOT "bool list"

text \<open>One pass of the loop of \<^verbatim>\<open>stable_tree_search\<close> from the given subtree; \<open>ro\<close> is
  \<^verbatim>\<open>page->pksm\<close>, whose checksum is the search key.\<close>

fun stable_tree_search_walk ::
  "state \<Rightarrow> rmap_id option \<Rightarrow> rmap_id tree \<Rightarrow> fault + state \<times> page_id option descent" where
  "stable_tree_search_walk s ro Leaf = Inr (s, RETURN None)"
| "stable_tree_search_walk s ro (Node l t r) =
     (if has_flag (rmaps s t) DELLIST_FLAG \<or> page (rmaps s t) = None
      then Inr (remove_rmap_item_from_tree s (Some t) False, RETRY)
      else
        (case get_ksm_page s (Some t) of
           (s1, None) \<Rightarrow> Inr (s1, RETURN None)
         | (s1, Some tree_page) \<Rightarrow>
             (case ro of
                None \<Rightarrow> Inl NULL_DEREF
              | Some ri \<Rightarrow>
                  (let ret = hash_cmp (checksum (rmaps s1 ri)) (checksum (rmaps s1 t)) in
                   if ret < 0 then stable_tree_search_walk (put_page s1 tree_page) ro l
                   else if 0 < ret then stable_tree_search_walk (put_page s1 tree_page) ro r
                   else Inr (s1, RETURN (Some tree_page))))))"

text \<open>\<^verbatim>\<open>goto retry\<close> starts the pass again at the root of the tree as it is then.  A
  descent that retries forever has no result.\<close>

partial_function (option) stable_tree_search_retry ::
  "rmap_id option \<Rightarrow> state \<Rightarrow> (fault + state \<times> page_id option) option" where
  "stable_tree_search_retry ro s =
     (case stable_tree_search_walk s ro (root_stable_tree s) of
        Inl f \<Rightarrow> Some (Inl f)
      | Inr (s1, d) \<Rightarrow>
          (case d of
             RETRY \<Rightarrow> stable_tree_search_retry ro s1
           | RETURN x \<Rightarrow> Some (Inr (s1, x))
           | SLOT ds \<Rightarrow> Some (Inr (s1, None))))"

definition stable_tree_search :: "state \<Rightarrow> page_id \<Rightarrow> (fault + state \<times> page_id option) option" where
  "stable_tree_search s p =
     (if PageKsm s p then Some (Inr (s, None))
      else stable_tree_search_retry (pksm (pages s p)) s)"

text \<open>One pass of the loop of \<^verbatim>\<open>stable_tree_insert\<close>; \<open>ds\<close> are the turns taken so
  far.\<close>

fun stable_tree_insert_walk ::
  "state \<Rightarrow> rmap_id \<Rightarrow> bool list \<Rightarrow> rmap_id tree \<Rightarrow> state \<times> int descent" where
  "stable_tree_insert_walk s ri ds Leaf = (s, SLOT ds)"
| "stable_tree_insert_walk s ri ds (Node l t r) =
     (if has_flag (rmaps s t) DELLIST_FLAG \<or> page (rmaps s t) = None
      then (remove_rmap_item_from_tree s (Some t) False, RETRY)
      else
        (case get_ksm_page s (Some t) of
           (s1, None) \<Rightarrow> (s1, RETURN PKSM_FAULT_DROP)
         | (s1, Some tree_page) \<Rightarrow>
             (let ret = hash_cmp (checksum (rmaps s1 ri)) (checksum (rmaps s1 t));
                  s2 = put_page s1 tree_page
              in if ret < 0 then stable_tree_insert_walk s2 ri (ds @ [False]) l
                 else if 0 < ret then stable_tree_insert_walk s2 ri (ds @ [True]) r
                 else (s2, RETURN PKSM_FAULT_TRY))))"

partial_function (option) stable_tree_insert ::
  "rmap_id \<Rightarrow> page_id \<Rightarrow> state \<Rightarrow> (fault + state \<times> int) option" where
  "stable_tree_insert ri kpage s =
     (case stable_tree_insert_walk s ri [] (root_stable_tree s) of
        (s1, d) \<Rightarrow>
          (case d of
             RETRY \<Rightarrow> stable_tree_insert ri kpage s1
           | RETURN x \<Rightarrow> Some (Inr (s1, x))
           | SLOT ds \<Rightarrow>
               if has_flag (rmaps s1 ri) UNSTABLE_FLAG then Some (Inl BUG)
               else if has_flag (rmaps s1 ri) STABLE_FLAG then Some (Inl BUG)
               else
                 (let s2 = (upd_rmap ri (\<lambda>it. it\<lparr>rb_linked := True\<rparr>) s1)
                             \<lparr>root_stable_tree := rb_link_node ri ds (root_stable_tree s1)\<rparr>;
                      s3 = set_page_stable_ksm s2 kpage (Some ri);
                      s4 = upd_rmap ri (set_flag STABLE_FLAG) s3
                  in Some (Inr (s4, 0)))))"

text \<open>One pass of the loop of \<^verbatim>\<open>unstable_tree_search_insert\<close>.\<close>

fun unstable_tree_walk ::
  "state \<Rightarrow> rmap_id \<Rightarrow> page_id \<Rightarrow> bool list \<Rightarrow> rmap_id tree
     \<Rightarrow> fault + state \<times> (rmap_id \<times> page_id) option descent" where
  "unstable_tree_walk s ri p ds Leaf = Inr (s, SLOT ds)"
| "unstable_tree_walk s ri p ds (Node l t r) =
     (if Some ri \<noteq> pksm (pages s p) then Inl BUG
      else if has_flag (rmaps s t) DELLIST_FLAG \<or> page (rmaps s t) = None
      then Inr (remove_rmap_item_from_tree s (Some t) False, RETRY)
      else
        (case get_mergeable_page s (Some t) of
           (s1, None) \<Rightarrow> Inr (s1, RETURN None)
         | (s1, Some tree_page) \<Rightarrow>
             if Some t \<noteq> pksm (pages s1 tree_page) then Inl BUG
             else if p = tree_page then Inr (put_page s1 tree_page, RETURN None)
             else
               (let ret = hash_cmp (checksum (rmaps s1 ri)) (checksum (rmaps s1 t)) in
                if ret < 0 then unstable_tree_walk (put_page s1 tree_page) ri p (ds @ [False]) l
                else if 0 < ret then unstable_tree_walk (put_page s1 tree_page) ri p (ds @ [True]) r
                else Inr (s1, RETURN (Some (t, tree_page))))))"

partial_function (option) unstable_tree_retry ::
  "rmap_id \<Rightarrow> page_id \<Rightarrow> state \<Rightarrow> (fault + state \<times> (rmap_id \<times> page_id) option) option" where
  "unstable_tree_retry ri p s =
     (case unstable_tree_walk s ri p [] (root_unstable_tree s) of
        Inl f \<Rightarrow> Some (Inl f)
      | Inr (s1, d) \<Rightarrow>
          (case d of
             RETRY \<Rightarrow> unstable_tree_retry ri p s1
           | RETURN x \<Rightarrow> Some (Inr (s1, x))
           | SLOT ds \<Rightarrow>
               if Some ri \<noteq> pksm (pages s1 p) then Some (Inl BUG)
               else if has_flag (rmaps s1 ri) UNSTABLE_FLAG then Some (Inl BUG)
               else if has_flag (rmaps s1 ri) STABLE_FLAG then Some (Inl BUG)
               else
                 (let s2 = upd_rmap ri (set_flag UNSTABLE_FLAG) s1;
                      s3 = (upd_rmap ri (\<lambda>it. it\<lparr>rb_linked := True\<rparr>) s2)
                             \<lparr>root_unstable_tree := rb_link_node ri ds (root_unstable_tree s2),
                              ksm_pages_unshared := ksm_pages_unshared s2 + 1\<rparr>;
                      s4 = s3\<lparr>unstabletree_checksum_list :=
                                 list_add_tail ri (unstabletree_checksum_list s3)\<rparr>;
                      s5 = upd_rmap ri (set_flag CHECKSUM_LIST_FLAG) s4
                  in Some (Inr (s5, None)))))"

definition unstable_tree_search_insert ::
  "state \<Rightarrow> rmap_id \<Rightarrow> page_id \<Rightarrow> (fault + state \<times> (rmap_id \<times> page_id) option) option" where
  "unstable_tree_search_insert s ri p =
     (if Some ri \<noteq> pksm (pages s p) then Some (Inl BUG)
      else unstable_tree_retry ri p s)"

subsection \<open>Candidate processing\<close>

text \<open>The part of \<^verbatim>\<open>cmp_and_merge_page\<close> after the zero fast path: the stable-tree
  search and, without a match there, the unstable tree.\<close>

definition merge_with_stable ::
  "state \<Rightarrow> page_id \<Rightarrow> rmap_id \<Rightarrow> page_id \<Rightarrow> fault + state \<times> int" where
  "merge_with_stable s p ri kpage =
     (if Some ri \<noteq> pksm (pages s p) then Inl BUG
      else
        (case try_to_merge_with_pksm_page s ri p (Some kpage) of
           Inl f \<Rightarrow> Inl f
         | Inr (s1, err) \<Rightarrow>
             if err = 0 then
               (let s2 = lock_page s1 kpage in
                case stable_tree_append s2 (page_stable_rmap_item s2 kpage) p of
                  Inl f \<Rightarrow> Inl f
                | Inr s3 \<Rightarrow> Inr (put_page (unlock_page s3 kpage) kpage, 0))
             else Inr (put_page s1 kpage, err)))"

definition merge_with_unstable ::
  "state \<Rightarrow> page_id \<Rightarrow> rmap_id \<Rightarrow> rmap_id \<Rightarrow> page_id \<Rightarrow> (fault + state \<times> int) option" where
  "merge_with_unstable s p ri tree_r tree_p =
     (case try_to_merge_two_pages s ri p tree_r tree_p of
        Inl f \<Rightarrow> Some (Inl f)
      | Inr (s1, err) \<Rightarrow>
          if err = 0 then
            (if Some ri \<noteq> pksm (pages s1 p) then Some (Inl BUG)
             else if page (rmaps s1 ri) \<noteq> Some p then Some (Inl BUG)
             else
               (let s2 = remove_rmap_item_from_tree s1 (Some tree_r) False;
                    s3 = lock_page s2 p
                in case stable_tree_insert ri p s3 of
                     None \<Rightarrow> None
                   | Some (Inl f) \<Rightarrow> Some (Inl f)
                   | Some (Inr (s4, err4)) \<Rightarrow>
                       if err4 = 0 then
                         (case stable_tree_append s4 (Some ri) p of
                            Inl f \<Rightarrow> Some (Inl f)
                          | Inr s5 \<Rightarrow>
                              (case stable_tree_append (lock_page s5 tree_p) (Some ri) tree_p of
                                 Inl f \<Rightarrow> Some (Inl f)
                               | Inr s6 \<Rightarrow>
                                   Some (Inr (put_page (unlock_page (unlock_page s6 tree_p) p) tree_p, 0))))
                       else Some (Inr (put_page (unlock_page s4 p) tree_p, err4))))
          else Some (Inr (put_page s1 tree_p, err)))"

definition cmp_and_merge_trees ::
  "state \<Rightarrow> page_id \<Rightarrow> rmap_id \<Rightarrow> (fault + state \<times> int) option" where
  "cmp_and_merge_trees s p ri =
     (case stable_tree_search s p of
        None \<Rightarrow> None
      | Some (Inl f) \<Rightarrow> Some (Inl f)
      | Some (Inr (s1, Some kpage)) \<Rightarrow> Some (merge_with_stable s1 p ri kpage)
      | Some (Inr (s1, None)) \<Rightarrow>
          (case unstable_tree_search_insert s1 ri p of
             None \<Rightarrow> None
           | Some (Inl f) \<Rightarrow> Some (Inl f)
           | Some (Inr (s2, None)) \<Rightarrow> Some (Inr (s2, PKSM_FAULT_SUCCESS))
           | Some (Inr (s2, Some (tree_r, tree_p))) \<Rightarrow> merge_with_unstable s2 p ri tree_r tree_p))"

text \<open>\<^verbatim>\<open>cmp_and_merge_page\<close>: validity checks, leaving the tree, the optional re-hash, the
  zero fast path, then the trees.\<close>

definition store_checksum :: "state \<Rightarrow> page_id \<Rightarrow> rmap_id \<Rightarrow> fault + state" where
  "store_checksum s p ri =
     (case calc_checksum (pksm_random_table s) (content (pages s p)) of
        None \<Rightarrow> Inl OUT_OF_BOUNDS
      | Some c \<Rightarrow> Inr (upd_rmap ri (\<lambda>it. it\<lparr>checksum := c\<rparr>) s))"

definition cmp_and_merge_page ::
  "state \<Rightarrow> page_id \<Rightarrow> rmap_id option \<Rightarrow> bool \<Rightarrow> (fault + state \<times> int) option" where
  "cmp_and_merge_page s p ro init_checksum =
     (if \<not> check_valid_rmap_item s ro then Some (Inr (s, PKSM_FAULT_DROP))
      else
        (case ro of
           None \<Rightarrow> Some (Inr (s, PKSM_FAULT_DROP))
         | Some ri \<Rightarrow>
             if PageKsm s p \<or> in_stable_tree (rmaps s ri) then Some (Inr (s, PKSM_FAULT_DROP))
             else
               (let s1 = remove_rmap_item_from_tree s (Some ri) False in
                case (if init_checksum then store_checksum s1 p ri else Inr s1) of
                  Inl f \<Rightarrow> Some (Inl f)
                | Inr s2 \<Rightarrow>
                    (case cmp_and_merge_zero_page s2 p of
                       Inl f \<Rightarrow> Some (Inl f)
                     | Inr (s3, z) \<Rightarrow>
                         if z = 0 then Some (Inr (s3, 0))
                         else cmp_and_merge_trees s3 p ri))))"

subsection \<open>Scanner, phase 3: revalidation of the unstable tree\<close>

text \<open>The body of the loop of \<^verbatim>\<open>pksm_update_unstable_page_checksum\<close> for one entry, after
  its three \<^verbatim>\<open>BUG_ON\<close>s and up to the label \<^verbatim>\<open>out\<close>.\<close>

definition update_checksum_entry :: "state \<Rightarrow> rmap_id \<Rightarrow> fault + state" where
  "update_checksum_entry s r =
     (if \<not> check_valid_rmap_item s (Some r) then Inr s
      else
        (case page (rmaps s r) of
           None \<Rightarrow> Inr s
         | Some p \<Rightarrow>
             (case get_page_unless_zero s p of
                (s1, False) \<Rightarrow> Inr s1
              | (s1, True) \<Rightarrow>
                  if PageLocked s1 p then Inr (put_page s1 p)
                  else if check_page_dio s1 p then Inr (put_page s1 p)
                  else
                    (case calc_checksum (pksm_random_table s1) (content (pages s1 p)) of
                       None \<Rightarrow> Inl OUT_OF_BOUNDS
                     | Some c \<Rightarrow>
                         if checksum (rmaps s1 r) \<noteq> c then
                           (let s2 = upd_rmap r (\<lambda>it. it\<lparr>checksum := c\<rparr>) s1;
                                s3 = remove_rmap_item_from_tree s2 (Some r) False;
                                s4 = upd_rmap r (clear_flag INITCHECKSUM_FLAG) s3;
                                s5 = upd_rmap r (set_flag RESCAN_LIST_FLAG) s4;
                                s6 = s5\<lparr>pksm_rescan_page_list :=
                                           list_add_tail r (pksm_rescan_page_list s5)\<rparr>
                            in Inr (put_page s6 p))
                         else Inr (put_page s1 p)))))"

text \<open>The loop, over the entries the checksum list holds when it starts;
  \<^verbatim>\<open>scan++ > need_scan\<close> compares as unsigned numbers.\<close>

fun update_checksum_loop :: "u32 \<Rightarrow> rmap_id list \<Rightarrow> u32 \<Rightarrow> state \<Rightarrow> fault + state" where
  "update_checksum_loop need_scan [] scan s = Inr s"
| "update_checksum_loop need_scan (r # rest) scan s =
     (if has_flag (rmaps s r) NEWLIST_FLAG then Inl BUG
      else if \<not> has_flag (rmaps s r) CHECKSUM_LIST_FLAG then Inl BUG
      else if has_flag (rmaps s r) STABLE_FLAG then Inl BUG
      else
        (case update_checksum_entry s r of
           Inl f \<Rightarrow> Inl f
         | Inr s1 \<Rightarrow>
             if need_scan < scan then Inr s1
             else update_checksum_loop need_scan rest (scan + 1) s1))"

definition pksm_update_unstable_page_checksum :: "state \<Rightarrow> fault + state" where
  "pksm_update_unstable_page_checksum s =
     (case pksm_calc_update_pages_num s of
        Inl f \<Rightarrow> Inl f
      | Inr need_scan \<Rightarrow>
          if need_scan \<le> 0 then Inr s
          else update_checksum_loop (min need_scan (ksm_thread_pages_to_scan s))
                 (unstabletree_checksum_list s) 0 s)"

subsection \<open>Specification predicates\<close>

text \<open>\<open>refs_only s s'\<close>: the state \<open>s'\<close> differs from \<open>s\<close> at most in page reference
  counts.\<close>

definition refs_only :: "state \<Rightarrow> state \<Rightarrow> bool" where
  "refs_only s s' =
     (s' = s\<lparr>pages := pages s'\<rparr> \<and>
      (\<forall>q. pages s' q = (pages s q)\<lparr>p_count := p_count (pages s' q)\<rparr>))"

text \<open>A node is doomed when it is flagged \<^verbatim>\<open>DELLIST_FLAG\<close> or has lost its page: the
  condition under which a descent evicts it.\<close>

definition doomed :: "state \<Rightarrow> rmap_id \<Rightarrow> bool" where
  "doomed s m = (has_flag (rmaps s m) DELLIST_FLAG \<or> page (rmaps s m) = None)"

text \<open>What one pass of a descent over the tree \<open>t\<close> does to the state, by the way it ends:
  a pass that ends at \<^verbatim>\<open>goto retry\<close> has called \<^verbatim>\<open>remove_rmap_item_from_tree\<close> on one doomed
  node of \<open>t\<close> and has otherwise only moved reference counts; any other pass has only
  moved reference counts.\<close>

definition walk_ok :: "state \<Rightarrow> rmap_id tree \<Rightarrow> state \<Rightarrow> 'a descent \<Rightarrow> bool" where
  "walk_ok s t s1 d =
     (if d = RETRY
      then \<exists>m s0. m \<in> set_tree t \<and>
                  (has_flag (rmaps s m) DELLIST_FLAG \<or> page (rmaps s m) = None) \<and>
                  refs_only s s0 \<and> s1 = remove_rmap_item_from_tree s0 (Some m) False
      else refs_only s s1)"

text \<open>Every item on the checksum list is a node of the unstable tree and carries
  \<^verbatim>\<open>CHECKSUM_LIST_FLAG\<close>.\<close>

definition checksum_list_inv :: "state \<Rightarrow> bool" where
  "checksum_list_inv s =
     list_all (\<lambda>q. q \<in> set_tree (root_unstable_tree s) \<and> has_flag (rmaps s q) CHECKSUM_LIST_FLAG)
       (unstabletree_checksum_list s)"

text \<open>The unstable tree holds no item twice, and each of its nodes carries
  \<^verbatim>\<open>UNSTABLE_FLAG\<close>, not \<^verbatim>\<open>STABLE_FLAG\<close>, and is linked.\<close>

definition unstable_tree_wf :: "state \<Rightarrow> bool" where
  "unstable_tree_wf s =
     (distinct (inorder (root_unstable_tree s)) \<and>
      list_all (\<lambda>q. has_flag (rmaps s q) UNSTABLE_FLAG \<and> \<not> has_flag (rmaps s q) STABLE_FLAG \<and>
                    rb_linked (rmaps s q))
        (inorder (root_unstable_tree s)))"

text \<open>The stable tree holds no item twice, and each of its nodes carries
  \<^verbatim>\<open>STABLE_FLAG\<close> and is linked (not \<^verbatim>\<open>RB_EMPTY_NODE\<close>).\<close>

definition stable_tree_wf :: "state \<Rightarrow> bool" where
  "stable_tree_wf s =
     (distinct (inorder (root_stable_tree s)) \<and>
      list_all (\<lambda>q. has_flag (rmaps s q) STABLE_FLAG \<and> rb_linked (rmaps s q))
        (inorder (root_stable_tree s)))"

text \<open>A mapping points at the canonical zero frame.\<close>

definition zero_mapped :: "state \<Rightarrow> vma_id \<Rightarrow> vaddr \<Rightarrow> bool" where
  "zero_mapped s v a =
     (case pgtable s v a of
        None \<Rightarrow> False
      | Some e \<Rightarrow> pte_pfn e = empty_pksm_zero_page s)"

text \<open>The zero frame is not itself a page tracked by the engine.\<close>

definition zero_frame_untracked :: "state \<Rightarrow> bool" where
  "zero_frame_untracked s =
     (\<not> PG_pksm (pages s (empty_pksm_zero_page s)) \<and> pksm (pages s (empty_pksm_zero_page s)) = None)"

text \<open>Frames of a step: \<open>ident\<close> keeps the identity of the zero frame, the zero hash,
  the tracking and the contents of every page and every stored hash; \<open>kept\<close> moreover
  creates no mapping to the zero frame; \<open>same_trees\<close> keeps both trees.\<close>

definition ident :: "state \<Rightarrow> state \<Rightarrow> bool" where
  "ident s s' =
     (empty_pksm_zero_page s' = empty_pksm_zero_page s \<and>
      pksm_zero_random_checksum s' = pksm_zero_random_checksum s \<and>
      (\<forall>q. PG_pksm (pages s' q) = PG_pksm (pages s q) \<and> pksm (pages s' q) = pksm (pages s q) \<and>
           content (pages s' q) = content (pages s q)) \<and>
      (\<forall>r. checksum (rmaps s' r) = checksum (rmaps s r)))"

definition kept :: "state \<Rightarrow> state \<Rightarrow> bool" where
  "kept s s' = (ident s s' \<and> (\<forall>v a. zero_mapped s' v a \<longrightarrow> zero_mapped s v a))"

definition same_trees :: "state \<Rightarrow> state \<Rightarrow> bool" where
  "same_trees s s' =
     (root_stable_tree s' = root_stable_tree s \<and> root_unstable_tree s' = root_unstable_tree s)"

subsection \<open>An idle engine\<close>

text \<open>The state the file's initialisers give (empty trees and lists, counters 0, the
  default tunables) with an unused host: the base of the concrete states below.\<close>

definition identity_table :: "u32 list" where
  "identity_table = map word_of_nat [0 ..< 1024]"

definition zero_words :: "u32 list" where
  "zero_words = replicate 1024 0"

definition null_rmap :: rmap_item where
  "null_rmap = \<lparr>anon_vma = None, page = None, address = 0, hlist = [], rb_linked = False,
                r_mapcount = 0, checksum = 0\<rparr>"

definition null_page :: page_struct where
  "null_page = \<lparr>mapping = MAP_NONANON, pksm = None, PG_pksm = False, PG_locked = False,
                PG_swapcache = False, PG_mlocked = False, PG_dirty = False, p_count = 0,
                p_mapcount = 0, swap_unused = False, content = zero_words\<rparr>"

definition idle :: state where
  "idle = \<lparr>rmaps = (\<lambda>_. null_rmap), rmap_in_use = (\<lambda>_. False), pages = (\<lambda>_. null_page),
           root_stable_tree = Leaf, root_unstable_tree = Leaf,
           new_anon_page_list = [], del_anon_page_list = [], pksm_rescan_page_list = [],
           unstabletree_checksum_list = [],
           ksm_pages_shared = 0, ksm_pages_sharing = 0, ksm_pages_unshared = 0,
           ksm_rmap_items = 0, ksm_stable_nodes = 0, ksm_pages_zero_sharing = 0,
           ksm_thread_pages_to_scan = 1000, ksm_thread_sleep_millisecs = 20,
           pksm_unshared_page_update_period = 10,
           pksm_random_table = identity_table, pksm_zero_random_checksum = 2062316308,
           empty_pksm_zero_page = 0, pksm_zero_pfn = 0, zero_pfn = 0,
           stable_anon_cache = 0,
           anon_vma_refcount = (\<lambda>_. 0), anon_vma_head = (\<lambda>_. []),
           vmas = (\<lambda>_. \<lparr>vm_can_scan = True, vm_locked = False, vm_prot_write = False\<rparr>),
           page_vaddr = (\<lambda>_ _. None), pgtable = (\<lambda>_ _. None)\<rparr>"

subsection \<open>Concrete states\<close>

text \<open>A stable node: item 1 with its KSM page 1, and a tracked anonymous page 2 with item
  2; the anchor slab is exhausted.\<close>

definition st_append_nomem :: state where
  "st_append_nomem =
     idle\<lparr>rmaps := (\<lambda>_. null_rmap)
             (1 := null_rmap\<lparr>page := Some 1, address := INKSM_FLAG OR STABLE_FLAG,
                             anon_vma := Some 5, rb_linked := True\<rparr>,
              2 := null_rmap\<lparr>page := Some 2, address := INKSM_FLAG, anon_vma := Some 6\<rparr>),
          pages := (\<lambda>_. null_page)
             (1 := null_page\<lparr>PG_pksm := True, pksm := Some 1, mapping := MAP_KSM (Some 1),
                             p_count := 2, p_mapcount := 1\<rparr>,
              2 := null_page\<lparr>PG_pksm := True, pksm := Some 2, mapping := MAP_ANON 6,
                             p_count := 2, p_mapcount := 1\<rparr>),
          root_stable_tree := Node Leaf 1 Leaf\<rparr>"

text \<open>The same with one anchor left in the slab.\<close>

definition st_append :: state where
  "st_append = st_append_nomem\<lparr>stable_anon_cache := 1\<rparr>"

text \<open>Three items on the new list and three on the rescan list.\<close>

definition st_intake :: state where
  "st_intake =
     idle\<lparr>rmaps := (\<lambda>r. if r \<le> 3 then null_rmap\<lparr>address := NEWLIST_FLAG OR INITCHECKSUM_FLAG\<rparr>
                          else null_rmap\<lparr>address := INKSM_FLAG OR RESCAN_LIST_FLAG\<rparr>),
          new_anon_page_list := [1, 2, 3], pksm_rescan_page_list := [4, 5, 6]\<rparr>"

text \<open>Page 1 tracked and still on the new list (item 1), page 2 a merged page with two
  sharers (stable item 2), page 3 anonymous and untracked.\<close>

definition st_tracked :: state where
  "st_tracked =
     idle\<lparr>rmaps := (\<lambda>_. null_rmap)
             (1 := null_rmap\<lparr>page := Some 1, address := NEWLIST_FLAG OR INITCHECKSUM_FLAG,
                             anon_vma := Some 5\<rparr>,
              2 := null_rmap\<lparr>page := Some 2, address := INKSM_FLAG OR STABLE_FLAG,
                             anon_vma := Some 6, rb_linked := True, r_mapcount := 2\<rparr>),
          rmap_in_use := (\<lambda>r. r = 1 \<or> r = 2),
          pages := (\<lambda>_. null_page)
             (1 := null_page\<lparr>PG_pksm := True, pksm := Some 1, mapping := MAP_ANON 5,
                             p_count := 1, p_mapcount := 1\<rparr>,
              2 := null_page\<lparr>PG_pksm := True, pksm := Some 2, mapping := MAP_KSM (Some 2),
                             p_count := 3, p_mapcount := 3\<rparr>,
              3 := null_page\<lparr>mapping := MAP_ANON 7, p_count := 1, p_mapcount := 1\<rparr>),
          root_stable_tree := Node Leaf 2 Leaf,
          new_anon_page_list := [1],
          ksm_pages_sharing := 2, ksm_pages_shared := 1, ksm_rmap_items := 2\<rparr>"

text \<open>One candidate: item 1 in the unstable tree and on the checksum list, its stored
  checksum 7 out of date for its all-zero page 1.\<close>

definition st_unstable :: state where
  "st_unstable =
     idle\<lparr>rmaps := (\<lambda>_. null_rmap)
             (1 := null_rmap\<lparr>page := Some 1,
                             address := (INKSM_FLAG OR UNSTABLE_FLAG) OR CHECKSUM_LIST_FLAG,
                             anon_vma := Some 5, rb_linked := True, checksum := 7\<rparr>),
          rmap_in_use := (\<lambda>r. r = 1),
          pages := (\<lambda>_. null_page)
             (1 := null_page\<lparr>PG_pksm := True, pksm := Some 1, mapping := MAP_ANON 5,
                             p_count := 1, p_mapcount := 1\<rparr>),
          root_unstable_tree := Node Leaf 1 Leaf,
          unstabletree_checksum_list := [1],
          ksm_pages_unshared := 1, ksm_rmap_items := 1\<rparr>"

text \<open>A tracked candidate page 2 with item 2, and empty trees.\<close>

definition st_candidate :: state where
  "st_candidate =
     idle\<lparr>rmaps := (\<lambda>_. null_rmap)
             (2 := null_rmap\<lparr>page := Some 2, address := INKSM_FLAG, anon_vma := Some 6,
                             checksum := 99\<rparr>),
          rmap_in_use := (\<lambda>r. r = 2),
          pages := (\<lambda>_. null_page)
             (2 := null_page\<lparr>PG_pksm := True, pksm := Some 2, mapping := MAP_ANON 6,
                             p_count := 2, p_mapcount := 1\<rparr>),
          ksm_rmap_items := 1\<rparr>"

text \<open>A stable node (item 1, page 1) and an unstable node (item 3, page 3) whose pages
  have reference count 0, being freed by the host; page 2 with item 2 is the candidate.\<close>

definition st_stale :: state where
  "st_stale =
     idle\<lparr>rmaps := (\<lambda>_. null_rmap)
             (1 := null_rmap\<lparr>page := Some 1, address := INKSM_FLAG OR STABLE_FLAG,
                             anon_vma := Some 5, rb_linked := True, checksum := 50\<rparr>,
              2 := null_rmap\<lparr>page := Some 2, address := INKSM_FLAG, anon_vma := Some 6,
                             checksum := 99\<rparr>,
              3 := null_rmap\<lparr>page := Some 3,
                             address := (INKSM_FLAG OR UNSTABLE_FLAG) OR CHECKSUM_LIST_FLAG,
                             anon_vma := Some 7, rb_linked := True, checksum := 60\<rparr>),
          rmap_in_use := (\<lambda>r. r = 1 \<or> r = 2 \<or> r = 3),
          pages := (\<lambda>_. null_page)
             (1 := null_page\<lparr>PG_pksm := True, pksm := Some 1, mapping := MAP_KSM (Some 1)\<rparr>,
              2 := null_page\<lparr>PG_pksm := True, pksm := Some 2, mapping := MAP_ANON 6,
                             p_count := 2, p_mapcount := 1\<rparr>,
              3 := null_page\<lparr>PG_pksm := True, pksm := Some 3, mapping := MAP_ANON 7\<rparr>),
          root_stable_tree := Node Leaf 1 Leaf,
          root_unstable_tree := Node Leaf 3 Leaf,
          unstabletree_checksum_list := [3],
          ksm_pages_shared := 1, ksm_pages_unshared := 1, ksm_rmap_items := 3\<rparr>"

text \<open>The same trees after the host has destroyed pages 1 and 3: both nodes are flagged
  \<^verbatim>\<open>DELLIST_FLAG\<close> and have no page.\<close>

definition st_doomed :: state where
  "st_doomed =
     st_stale\<lparr>rmaps := (rmaps st_stale)
             (1 := (rmaps st_stale 1)\<lparr>page := None,
                     address := (INKSM_FLAG OR STABLE_FLAG) OR DELLIST_FLAG\<rparr>,
              3 := (rmaps st_stale 3)\<lparr>page := None,
                     address := ((INKSM_FLAG OR UNSTABLE_FLAG) OR CHECKSUM_LIST_FLAG) OR DELLIST_FLAG\<rparr>),
          del_anon_page_list := [1, 3]\<rparr>"

text \<open>The candidate page 2 of \<^const>\<open>st_candidate\<close>, all zero, with the zero hash
  stored on its item and mapped once, read-only and clean, at address 64 of mapping 1.\<close>

definition st_zero :: state where
  "st_zero =
     st_candidate\<lparr>rmaps := (rmaps st_candidate)
                    (2 := (rmaps st_candidate 2)\<lparr>checksum := 2062316308\<rparr>),
                  anon_vma_head := (\<lambda>_. [])(6 := [1]),
                  page_vaddr := (\<lambda>_ _. None)(2 := (\<lambda>_. None)(1 \<mapsto> 64)),
                  pgtable := (\<lambda>_ _. None)
                    (1 := (\<lambda>_. None)(64 \<mapsto> \<lparr>pte_pfn = 2, pte_write = False,
                                               pte_dirty = False, pte_special = False\<rparr>))\<rparr>"

text \<open>Two unstable nodes (items 1 and 3, pages 1 and 3, both referenced), entered on
  the checksum list in the order 3, 1; page 2 with item 2 is the candidate.\<close>

definition st_pair :: state where
  "st_pair =
     idle\<lparr>rmaps := (\<lambda>_. null_rmap)
             (1 := null_rmap\<lparr>page := Some 1,
                             address := (INKSM_FLAG OR UNSTABLE_FLAG) OR CHECKSUM_LIST_FLAG,
                             anon_vma := Some 5, rb_linked := True, checksum := 50\<rparr>,
              2 := null_rmap\<lparr>page := Some 2, address := INKSM_FLAG, anon_vma := Some 6,
                             checksum := 99\<rparr>,
              3 := null_rmap\<lparr>page := Some 3,
                             address := (INKSM_FLAG OR UNSTABLE_FLAG) OR CHECKSUM_LIST_FLAG,
                             anon_vma := Some 7, rb_linked := True, checksum := 60\<rparr>),
          rmap_in_use := (\<lambda>r. r = 1 \<or> r = 2 \<or> r = 3),
          pages := (\<lambda>_. null_page)
             (1 := null_page\<lparr>PG_pksm := True, pksm := Some 1, mapping := MAP_ANON 5,
                             p_count := 1, p_mapcount := 1\<rparr>,
              2 := null_page\<lparr>PG_pksm := True, pksm := Some 2, mapping := MAP_ANON 6,
                             p_count := 2, p_mapcount := 1\<rparr>,
              3 := null_page\<lparr>PG_pksm := True, pksm := Some 3, mapping := MAP_ANON 7,
                             p_count := 1, p_mapcount := 1\<rparr>),
          root_unstable_tree := Node Leaf 1 (Node Leaf 3 Leaf),
          unstabletree_checksum_list := [3, 1],
          ksm_pages_unshared := 2, ksm_rmap_items := 3\<rparr>"

text \<open>The same after the host has destroyed page 3: item 3 is flagged
  \<^verbatim>\<open>DELLIST_FLAG\<close> and has no page.\<close>

definition st_pair_doomed :: state where
  "st_pair_doomed =
     st_pair\<lparr>rmaps := (rmaps st_pair)
             (3 := (rmaps st_pair 3)\<lparr>page := None,
                     address := ((INKSM_FLAG OR UNSTABLE_FLAG) OR CHECKSUM_LIST_FLAG) OR DELLIST_FLAG\<rparr>),
          del_anon_page_list := [3]\<rparr>"

section \<open>Properties\<close>

subsection \<open>Flag bits\<close>

lemma flag_num:
  "NEWLIST_FLAG = 1" "DELLIST_FLAG = 2" "INKSM_FLAG = 4" "UNSTABLE_FLAG = 8"
  "STABLE_FLAG = 16" "CHECKSUM_LIST_FLAG = 32" "INITCHECKSUM_FLAG = 64"
  "RESCAN_LIST_FLAG = 128"
  by (simp_all add: NEWLIST_FLAG_def DELLIST_FLAG_def INKSM_FLAG_def UNSTABLE_FLAG_def
      STABLE_FLAG_def CHECKSUM_LIST_FLAG_def INITCHECKSUM_FLAG_def RESCAN_LIST_FLAG_def)

lemma has_flag_pow: "has_flag it (2 ^ n) = bit (address it) n"
  by (simp add: has_flag_def and_exp_eq_0_iff_not_bit)

lemma has_flag_num:
  "has_flag it 1 = bit (address it) 0" "has_flag it 2 = bit (address it) 1"
  "has_flag it 4 = bit (address it) 2" "has_flag it 8 = bit (address it) 3"
  "has_flag it 16 = bit (address it) 4" "has_flag it 32 = bit (address it) 5"
  "has_flag it 64 = bit (address it) 6" "has_flag it 128 = bit (address it) 7"
  using has_flag_pow [of it 0] has_flag_pow [of it 1] has_flag_pow [of it 2]
    has_flag_pow [of it 3] has_flag_pow [of it 4] has_flag_pow [of it 5]
    has_flag_pow [of it 6] has_flag_pow [of it 7]
  by simp_all

lemma address_set_flag: "address (set_flag f it) = address it OR f"
  by (simp add: set_flag_def)

lemma address_clear_flag: "address (clear_flag f it) = address it AND NOT f"
  by (simp add: clear_flag_def)

lemma flag_other_fields:
  "page (set_flag f it) = page it" "page (clear_flag f it) = page it"
  "hlist (set_flag f it) = hlist it" "hlist (clear_flag f it) = hlist it"
  "anon_vma (set_flag f it) = anon_vma it" "anon_vma (clear_flag f it) = anon_vma it"
  "rb_linked (set_flag f it) = rb_linked it" "rb_linked (clear_flag f it) = rb_linked it"
  "r_mapcount (set_flag f it) = r_mapcount it" "r_mapcount (clear_flag f it) = r_mapcount it"
  "checksum (set_flag f it) = checksum it" "checksum (clear_flag f it) = checksum it"
  by (simp_all add: set_flag_def clear_flag_def)

lemmas flag_simps = flag_num has_flag_num address_set_flag address_clear_flag
  flag_other_fields bit_or_iff bit_and_iff bit_not_iff

lemma new_or_rescan_test:
  "((w::ulong) AND (NEWLIST_FLAG OR RESCAN_LIST_FLAG) \<noteq> 0) = (bit w 0 \<or> bit w 7)"
proof -
  have "(w AND (2 ^ 0 OR 2 ^ 7) = 0) = (w AND 2 ^ 0 = 0 \<and> w AND 2 ^ 7 = 0)"
    by (simp only: bit.conj_disj_distrib or_eq_0_iff)
  then have "(w AND (2 ^ 0 OR 2 ^ 7) \<noteq> 0) = (bit w 0 \<or> bit w 7)"
    by (simp only: and_exp_eq_0_iff_not_bit) simp
  then show ?thesis by (simp add: flag_num)
qed


subsection \<open>The hash loop is a fold\<close>

lemma HASH_FROM_TO_fold:
  "to \<le> length tbl \<Longrightarrow> \<forall>j<to. unat (tbl ! j) < length key \<Longrightarrow> index \<le> to \<Longrightarrow>
   HASH_FROM_TO tbl key index to hash =
     Some (fold (\<lambda>j h. hash_round h (key ! unat (tbl ! j))) [index ..< to] hash)"
proof (induction tbl key index to hash rule: HASH_FROM_TO.induct)
  case (1 tbl key index to hash)
  show ?case
  proof (cases "index < to")
    case True
    then have "[index ..< to] = index # [Suc index ..< to]"
      by (simp add: upt_conv_Cons)
    with True 1 show ?thesis
      by (subst HASH_FROM_TO.simps) simp
  next
    case False
    with 1 show ?thesis by (subst HASH_FROM_TO.simps) simp
  qed
qed

lemma hash_round_zero_word:
  "hash_round h 0 = (h + push_bit 8 h) XOR drop_bit 12 (h + push_bit 8 h)"
  by (simp add: hash_round_def shiftl_def shiftr_def Let_def)

lemma spec_hash_step_zero_word: "spec_hash_step h 0 = push_bit 8 h XOR drop_bit 12 h"
  by (simp add: spec_hash_step_def)

lemma code_hash_zero_rounds:
  "fold (\<lambda>j h. hash_round h 0) [0..<64] 0xdeadbeef = 2062316308"
  by (simp add: upt_rec hash_round_zero_word)

lemma spec_hash_zero_rounds:
  "fold (\<lambda>j h. spec_hash_step h 0) [0..<64] 0xdeadbeef = 0"
  by (simp add: upt_rec spec_hash_step_zero_word)

lemma strength_64: "drop_bit 4 RSAD_STRENGTH_FULL = 64"
  by (simp add: RSAD_STRENGTH_FULL_def PAGE_SIZE_def drop_bit_eq_div)

text \<open>
  C2 (as the code has it).  For a permutation table with at least \<open>N >> 4\<close> entries that
  all index into the page (\<open>N = PAGE_SIZE / 4 = 1024\<close>), the content hash is the fold of
  the \<open>N >> 4 = 64\<close> words the table selects, in table order, into a 32-bit accumulator
  that starts at \<^verbatim>\<open>0xdeadbeef\<close>; a round first adds the word, \<open>a = h + w\<close>, then adds the
  shifted sum to the sum, \<open>b = a + (a << 8)\<close>, and then folds the high bits down,
  \<open>h' = b ^ (b >> 12)\<close>, all modulo \<open>2^32\<close>.
\<close>

theorem C2_calc_checksum_fold:
  assumes "64 \<le> length tbl" and "\<forall>j<64. unat (tbl ! j) < length cont"
  shows "calc_checksum tbl cont =
           Some (fold (\<lambda>j h. let a = h + cont ! unat (tbl ! j); b = a + push_bit 8 a
                              in b XOR drop_bit 12 b)
                      [0 ..< 64] 0xdeadbeef)"
proof -
  have "calc_checksum tbl cont = HASH_FROM_TO tbl cont 0 64 0xdeadbeef"
    by (simp add: calc_checksum_def pksm_calc_checksum_def strength_64)
  also have "\<dots> = Some (fold (\<lambda>j h. hash_round h (cont ! unat (tbl ! j))) [0 ..< 64] 0xdeadbeef)"
    using assms by (intro HASH_FROM_TO_fold) simp_all
  also have "(\<lambda>j h. hash_round h (cont ! unat (tbl ! j))) =
             (\<lambda>j h. let a = h + cont ! unat (tbl ! j); b = a + push_bit 8 a in b XOR drop_bit 12 b)"
    by (simp add: hash_round_def shiftl_def shiftr_def)
  finally show ?thesis .
qed

lemma unat_small_index: "j < 64 \<Longrightarrow> unat (word_of_nat j :: u32) = j"
proof -
  assume "j < 64"
  then have "j mod 2 ^ 32 = j" by simp
  then show ?thesis by (simp add: unat_of_nat)
qed

lemma identity_table_nth:
  "j < 64 \<Longrightarrow> unat ((map word_of_nat [0 ..< 1024] :: u32 list) ! j) = j"
  by (simp add: unat_small_index)

theorem C2_calc_checksum_fold_witness:
  "64 \<le> length (map word_of_nat [0 ..< 1024] :: u32 list) \<and>
   calc_checksum (map word_of_nat [0 ..< 1024]) (replicate 1024 0) = Some 2062316308"
proof -
  let ?tbl = "map word_of_nat [0 ..< 1024] :: u32 list"
  let ?pg = "replicate 1024 (0::u32)"
  have len: "64 \<le> length ?tbl" by simp
  have idx: "\<forall>j<64. unat (?tbl ! j) < length ?pg"
    by (simp add: unat_small_index)
  have sel: "(\<lambda>j h. let a = h + ?pg ! unat (?tbl ! j); b = a + push_bit 8 a in b XOR drop_bit 12 b) j h
             = hash_round h 0" if "j \<in> set [0 ..< 64]" for j h
    using that by (simp add: unat_small_index hash_round_zero_word Let_def)
  have "fold (\<lambda>j h. let a = h + ?pg ! unat (?tbl ! j); b = a + push_bit 8 a in b XOR drop_bit 12 b)
             [0 ..< 64] 0xdeadbeef
        = fold (\<lambda>j h. hash_round h 0) [0 ..< 64] 0xdeadbeef"
    by (rule fold_cong) (use sel in auto)
  with C2_calc_checksum_fold [OF len idx] code_hash_zero_rounds
  show ?thesis using len idx by simp
qed

lemma calc_checksum_zero_page: "calc_checksum identity_table zero_words = Some 2062316308"
proof -
  let ?tbl = "map word_of_nat [0 ..< 1024] :: u32 list"
  let ?pg = "replicate 1024 (0::u32)"
  have code: "HASH_FROM_TO ?tbl ?pg 0 64 0xdeadbeef
              = Some (fold (\<lambda>j h. hash_round h (?pg ! unat (?tbl ! j))) [0 ..< 64] 0xdeadbeef)"
    by (intro HASH_FROM_TO_fold) (simp_all add: unat_small_index)
  have "fold (\<lambda>j h. hash_round h (?pg ! unat (?tbl ! j))) [0 ..< 64] 0xdeadbeef
        = fold (\<lambda>j h. hash_round h 0) [0 ..< 64] 0xdeadbeef"
    by (rule fold_cong) (auto simp: unat_small_index)
  with code show ?thesis
    by (simp add: calc_checksum_def pksm_calc_checksum_def strength_64 code_hash_zero_rounds
        identity_table_def zero_words_def)
qed

text \<open>
  C2 (as the specification words it) fails: with the identity permutation and the all-zero
  page the code's hash is 2062316308, while folding \<open>h = ((h + w) << 8) ^ ((h + w) >> 12)\<close>
  over the same 64 words gives 0.  Already one round differs: from \<open>h = 0\<close> and \<open>w = 1\<close>
  the code reaches 257 and the specification's formula 256.
\<close>

theorem C2_spec_formula_counterexample:
  "hash_round 0 1 = 257 \<and> spec_hash_step 0 1 = 256 \<and>
   calc_checksum (map word_of_nat [0 ..< 1024]) (replicate 1024 0)
     \<noteq> Some (spec_hash (map word_of_nat [0 ..< 1024]) (replicate 1024 0))"
proof -
  let ?tbl = "map word_of_nat [0 ..< 1024] :: u32 list"
  let ?pg = "replicate 1024 (0::u32)"
  have r1: "hash_round 0 1 = 257"
    by (simp add: hash_round_def shiftl_def shiftr_def Let_def)
  have r2: "spec_hash_step 0 1 = 256"
    by (simp add: spec_hash_step_def)
  have code: "HASH_FROM_TO ?tbl ?pg 0 64 0xdeadbeef
              = Some (fold (\<lambda>j h. hash_round h (?pg ! unat (?tbl ! j))) [0 ..< 64] 0xdeadbeef)"
    by (intro HASH_FROM_TO_fold) (simp_all add: unat_small_index)
  have "fold (\<lambda>j h. hash_round h (?pg ! unat (?tbl ! j))) [0 ..< 64] 0xdeadbeef
        = fold (\<lambda>j h. hash_round h 0) [0 ..< 64] 0xdeadbeef"
    by (rule fold_cong) (auto simp: unat_small_index)
  with code have c: "calc_checksum ?tbl ?pg = Some 2062316308"
    by (simp add: calc_checksum_def pksm_calc_checksum_def strength_64 code_hash_zero_rounds)
  have "fold (\<lambda>i h. spec_hash_step h (?pg ! unat (?tbl ! i))) [0 ..< 64] 0xdeadbeef
        = fold (\<lambda>j h. spec_hash_step h 0) [0 ..< 64] 0xdeadbeef"
    by (rule fold_cong) (auto simp: unat_small_index)
  then have s: "spec_hash ?tbl ?pg = 0"
    by (simp add: spec_hash_def PAGE_SIZE_def drop_bit_eq_div spec_hash_zero_rounds)
  from r1 r2 c s show ?thesis by simp
qed

subsection \<open>Sharing counters\<close>

lemma del_sharing_funpow:
  "(del_sharing_step r ^^ k) s =
     s\<lparr>ksm_pages_sharing := ksm_pages_sharing s - of_nat k,
       rmaps := (rmaps s)(r := (rmaps s r)\<lparr>r_mapcount := r_mapcount (rmaps s r) - of_nat k\<rparr>)\<rparr>"
proof (induction k)
  case 0
  show ?case by simp
next
  case (Suc k)
  have "(del_sharing_step r ^^ Suc k) s = del_sharing_step r ((del_sharing_step r ^^ k) s)"
    by simp
  also have "\<dots> = del_sharing_step r
      (s\<lparr>ksm_pages_sharing := ksm_pages_sharing s - of_nat k,
         rmaps := (rmaps s)(r := (rmaps s r)\<lparr>r_mapcount := r_mapcount (rmaps s r) - of_nat k\<rparr>)\<rparr>)"
    by (simp only: Suc.IH)
  also have "\<dots> = s\<lparr>ksm_pages_sharing := ksm_pages_sharing s - of_nat (Suc k),
       rmaps := (rmaps s)(r := (rmaps s r)\<lparr>r_mapcount := r_mapcount (rmaps s r) - of_nat (Suc k)\<rparr>)\<rparr>"
    by (simp add: del_sharing_step_def upd_rmap_def algebra_simps)
  finally show ?case .
qed

lemma add_sharing_funpow:
  "(add_sharing_step r ^^ k) s =
     s\<lparr>ksm_pages_sharing := ksm_pages_sharing s + of_nat k,
       rmaps := (rmaps s)(r := (rmaps s r)\<lparr>r_mapcount := r_mapcount (rmaps s r) + of_nat k\<rparr>)\<rparr>"
proof (induction k)
  case 0
  show ?case by simp
next
  case (Suc k)
  have "(add_sharing_step r ^^ Suc k) s = add_sharing_step r ((add_sharing_step r ^^ k) s)"
    by simp
  also have "\<dots> = add_sharing_step r
      (s\<lparr>ksm_pages_sharing := ksm_pages_sharing s + of_nat k,
         rmaps := (rmaps s)(r := (rmaps s r)\<lparr>r_mapcount := r_mapcount (rmaps s r) + of_nat k\<rparr>)\<rparr>)"
    by (simp only: Suc.IH)
  also have "\<dots> = s\<lparr>ksm_pages_sharing := ksm_pages_sharing s + of_nat (Suc k),
       rmaps := (rmaps s)(r := (rmaps s r)\<lparr>r_mapcount := r_mapcount (rmaps s r) + of_nat (Suc k)\<rparr>)\<rparr>"
    by (simp add: add_sharing_step_def upd_rmap_def algebra_simps)
  finally show ?case .
qed

lemma of_nat_nat_sint:
  "0 \<le> sint (w :: 'a::len word) \<Longrightarrow> (of_nat (nat (sint w)) :: 'a word) = w"
  by simp

lemmas st_append_defs = st_append_def st_append_nomem_def idle_def null_rmap_def null_page_def

lemma st_append_valid:
  "check_valid_rmap_item st_append (Some 1)"
  "check_valid_rmap_item st_append (pksm (pages st_append 2))"
  by (simp_all add: st_append_defs check_valid_rmap_item_def PagePKSM_def flag_simps)

lemma st_append_result:
  "\<exists>s'. stable_tree_append st_append (Some 1) 2 = Inr s' \<and>
        hlist (rmaps s' 1) = [6] \<and> r_mapcount (rmaps s' 1) = 0"
  by (simp add: stable_tree_append_def st_append_defs check_valid_rmap_item_def PagePKSM_def
      alloc_stable_anon_def flag_simps PageKsm_def page_rmapping_def get_anon_vma_def
      upd_rmap_def Let_def)

text \<open>
  C3 (as the code has it).  \<^verbatim>\<open>stable_tree_append\<close>, when both validity checks pass and it
  returns, has put exactly one more anchor on the head item's anchor list and has left
  every item's sharer counter \<^verbatim>\<open>_mapcount\<close> as it was.  The sharer counter is moved by
  \<^verbatim>\<open>pksm_add_sharing_page_counter\<close> instead (called once per replaced page-table entry):
  for a KSM page whose metadata pointer is the item \<open>r\<close> and \<open>n \<ge> 0\<close> it adds \<open>n\<close> to the
  counter of \<open>r\<close> and changes no anchor list.  So the two numbers are kept by different
  operations and an append alone changes their difference.
\<close>

theorem C3_append_leaves_counter:
  "(check_valid_rmap_item s (Some h) \<and> check_valid_rmap_item s (pksm (pages s p)) \<and>
    stable_tree_append s (Some h) p = Inr s' \<longrightarrow>
      length (hlist (rmaps s' h)) = Suc (length (hlist (rmaps s h))) \<and>
      (\<forall>q. r_mapcount (rmaps s' q) = r_mapcount (rmaps s q))) \<and>
   (PageKsm s p \<and> pksm (pages s p) = Some r \<and> 0 \<le> n \<longrightarrow>
      (\<exists>s''. pksm_add_sharing_page_counter s p n = Inr s'' \<and>
             r_mapcount (rmaps s'' r) = r_mapcount (rmaps s r) + of_int n \<and>
             (\<forall>q. hlist (rmaps s'' q) = hlist (rmaps s q))))"
proof (intro conjI impI)
  assume a: "check_valid_rmap_item s (Some h) \<and> check_valid_rmap_item s (pksm (pages s p)) \<and>
    stable_tree_append s (Some h) p = Inr s'"
  then obtain r where r: "pksm (pages s p) = Some r"
    by (auto simp: check_valid_rmap_item_def split: option.splits)
  from a r show "length (hlist (rmaps s' h)) = Suc (length (hlist (rmaps s h)))"
    by (auto simp: stable_tree_append_def alloc_stable_anon_def get_anon_vma_def upd_rmap_def
        Let_def split: if_splits option.splits bool.splits)
  from a r show "\<forall>q. r_mapcount (rmaps s' q) = r_mapcount (rmaps s q)"
    by (auto simp: stable_tree_append_def alloc_stable_anon_def get_anon_vma_def upd_rmap_def
        Let_def split: if_splits option.splits bool.splits)
next
  assume b: "PageKsm s p \<and> pksm (pages s p) = Some r \<and> 0 \<le> n"
  then have "of_nat (nat n) = (of_int n :: 32 word)" by simp
  with b show "\<exists>s''. pksm_add_sharing_page_counter s p n = Inr s'' \<and>
             r_mapcount (rmaps s'' r) = r_mapcount (rmaps s r) + of_int n \<and>
             (\<forall>q. hlist (rmaps s'' q) = hlist (rmaps s q))"
    by (simp add: pksm_add_sharing_page_counter_def add_sharing_funpow)
qed

theorem C3_append_leaves_counter_witness:
  "check_valid_rmap_item st_append (Some 1) \<and>
   check_valid_rmap_item st_append (pksm (pages st_append 2)) \<and>
   (\<exists>s'. stable_tree_append st_append (Some 1) 2 = Inr s' \<and>
         length (hlist (rmaps s' 1)) = Suc (length (hlist (rmaps st_append 1))) \<and>
         r_mapcount (rmaps s' 1) = r_mapcount (rmaps st_append 1)) \<and>
   PageKsm st_append 1 \<and> pksm (pages st_append 1) = Some 1 \<and>
   (\<exists>s''. pksm_add_sharing_page_counter st_append 1 1 = Inr s'' \<and>
          r_mapcount (rmaps s'' 1) = r_mapcount (rmaps st_append 1) + 1 \<and>
          hlist (rmaps s'' 1) = hlist (rmaps st_append 1))"
proof -
  obtain s' where s': "stable_tree_append st_append (Some 1) 2 = Inr s'"
    using st_append_result by blast
  have k: "PageKsm st_append 1 \<and> pksm (pages st_append 1) = Some 1 \<and> (0::int) \<le> 1"
    by (simp add: st_append_defs PageKsm_def)
  from C3_append_leaves_counter [of st_append 1 2 s' 1 1] st_append_valid s'
  have a: "length (hlist (rmaps s' 1)) = Suc (length (hlist (rmaps st_append 1))) \<and>
           r_mapcount (rmaps s' 1) = r_mapcount (rmaps st_append 1)"
    by blast
  from C3_append_leaves_counter [of st_append 1 1 s' 1 1] k
  have b: "\<exists>s''. pksm_add_sharing_page_counter st_append 1 1 = Inr s'' \<and>
          r_mapcount (rmaps s'' 1) = r_mapcount (rmaps st_append 1) + 1 \<and>
          hlist (rmaps s'' 1) = hlist (rmaps st_append 1)"
    by auto
  from a b s' k st_append_valid show ?thesis by blast
qed

text \<open>
  C3 (as stated) fails.  In \<open>st_append\<close> the stable item 1 has sharer counter 0 and no
  anchor, so the two agree; after \<^verbatim>\<open>stable_tree_append\<close> of page 2 its anchor list has one
  entry and its sharer counter is still 0.
\<close>

theorem C3_counter_anchor_counterexample:
  "unat (r_mapcount (rmaps st_append 1)) = length (hlist (rmaps st_append 1)) \<and>
   (\<exists>s'. stable_tree_append st_append (Some 1) 2 = Inr s' \<and>
         unat (r_mapcount (rmaps s' 1)) \<noteq> length (hlist (rmaps s' 1)))"
proof -
  have "unat (r_mapcount (rmaps st_append 1)) = length (hlist (rmaps st_append 1))"
    by (simp add: st_append_defs)
  moreover from st_append_result
  obtain s' where "stable_tree_append st_append (Some 1) 2 = Inr s'"
    "hlist (rmaps s' 1) = [6]" "r_mapcount (rmaps s' 1) = 0" by blast
  then have "\<exists>s'. stable_tree_append st_append (Some 1) 2 = Inr s' \<and>
         unat (r_mapcount (rmaps s' 1)) \<noteq> length (hlist (rmaps s' 1))"
    by simp
  ultimately show ?thesis by blast
qed

subsection \<open>The unchecked anchor allocation\<close>

text \<open>
  C10.  With the anchor slab exhausted, \<^verbatim>\<open>alloc_stable_anon\<close> returns \<^verbatim>\<open>NULL\<close> and
  \<^verbatim>\<open>stable_tree_append\<close>, both validity checks passed, dereferences it: in
  \<open>st_append_nomem\<close> the call for the stable item 1 and the tracked page 2 ends in a
  \<^verbatim>\<open>NULL\<close> dereference.
\<close>

theorem C10_append_null_deref:
  "check_valid_rmap_item st_append_nomem (Some 1) \<and>
   check_valid_rmap_item st_append_nomem (pksm (pages st_append_nomem 2)) \<and>
   alloc_stable_anon st_append_nomem = (st_append_nomem, False) \<and>
   stable_tree_append st_append_nomem (Some 1) 2 = Inl NULL_DEREF"
  by (simp add: stable_tree_append_def st_append_nomem_def idle_def null_rmap_def null_page_def
      check_valid_rmap_item_def PagePKSM_def alloc_stable_anon_def flag_simps)

subsection \<open>Intake promotion\<close>

text \<open>
  C5.  With a budget of \<open>scan_npages = 1\<close>, three items on the new list and three on the
  rescan list, phase 1 moves all six to the working list: each loop stops only after its
  counter has passed the budget, that is after \<open>scan_npages + 2\<close> entries.
\<close>

theorem C5_intake_exceeds_budget:
  "new_anon_page_list st_intake = [1, 2, 3] \<and> pksm_rescan_page_list st_intake = [4, 5, 6] \<and>
   snd (ksm_do_scan_intake st_intake 1) = [3, 2, 1, 4, 5, 6] \<and>
   new_anon_page_list (fst (ksm_do_scan_intake st_intake 1)) = [] \<and>
   pksm_rescan_page_list (fst (ksm_do_scan_intake st_intake 1)) = []"
  by (simp add: ksm_do_scan_intake_def st_intake_def idle_def null_rmap_def Let_def upd_rmap_def
      list_del_def list_add_tail_def flag_simps)

subsection \<open>Event intake\<close>

lemma new_or_rescan_num:
  "((w::ulong) AND 129 = 0) = (\<not> bit w 0 \<and> \<not> bit w 7)"
proof -
  have "(w AND 129 \<noteq> 0) = (bit w 0 \<or> bit w 7)"
    using new_or_rescan_test [of w] by (simp add: flag_num)
  then show ?thesis by blast
qed

text \<open>
  C7.  \<^verbatim>\<open>pksm_del_anon_page\<close> on an untracked page returns \<^verbatim>\<open>-EFAULT\<close> and changes
  nothing.  On a tracked page (\<^verbatim>\<open>PagePKSM\<close> set, \<^verbatim>\<open>page->pksm\<close> the item \<open>r\<close>, whose
  back-pointer is the page, sharer counter not negative) it returns 0, having lowered
  \<^verbatim>\<open>ksm_pages_sharing\<close> and the item's sharer counter by the sharer counter's value,
  cleared the page's engine flag and unlinked \<^verbatim>\<open>page->pksm\<close> and the back-pointer.  An
  item still flagged as on the new or the rescan list is unlinked from that list and
  freed; any other item gets \<^verbatim>\<open>DELLIST_FLAG\<close> and is appended to the delete list.
\<close>

theorem C7_del_anon_page:
  "(\<not> PagePKSM s p \<longrightarrow> pksm_del_anon_page s p = Inr (s, - EFAULT)) \<and>
   (PagePKSM s p \<and> pksm (pages s p) = Some r \<and> page (rmaps s r) = Some p \<and>
    0 \<le> sint (r_mapcount (rmaps s r)) \<longrightarrow>
      (\<exists>s'. pksm_del_anon_page s p = Inr (s', 0) \<and>
            ksm_pages_sharing s' = ksm_pages_sharing s - of_int (sint (r_mapcount (rmaps s r))) \<and>
            r_mapcount (rmaps s' r) = 0 \<and>
            \<not> PagePKSM s' p \<and> pksm (pages s' p) = None \<and> page (rmaps s' r) = None \<and>
            (if has_flag (rmaps s r) NEWLIST_FLAG \<or> has_flag (rmaps s r) RESCAN_LIST_FLAG
             then \<not> rmap_in_use s' r \<and> ksm_rmap_items s' = ksm_rmap_items s - 1 \<and>
                  r \<notin> set (new_anon_page_list s') \<and> r \<notin> set (pksm_rescan_page_list s') \<and>
                  del_anon_page_list s' = del_anon_page_list s
             else rmap_in_use s' r = rmap_in_use s r \<and> has_flag (rmaps s' r) DELLIST_FLAG \<and>
                  del_anon_page_list s' = del_anon_page_list s @ [r] \<and>
                  new_anon_page_list s' = new_anon_page_list s \<and>
                  pksm_rescan_page_list s' = pksm_rescan_page_list s)))"
proof (intro conjI impI)
  assume "\<not> PagePKSM s p"
  then show "pksm_del_anon_page s p = Inr (s, - EFAULT)"
    by (simp add: pksm_del_anon_page_def)
next
  assume a: "PagePKSM s p \<and> pksm (pages s p) = Some r \<and> page (rmaps s r) = Some p \<and>
    0 \<le> sint (r_mapcount (rmaps s r))"
  let ?m = "sint (r_mapcount (rmaps s r))"
  have w32: "(of_nat (nat ?m) :: 32 word) = r_mapcount (rmaps s r)"
    using a by (simp add: of_nat_nat_sint)
  have w64: "(of_nat (nat ?m) :: 64 word) = of_int ?m"
    using a by simp
  show "\<exists>s'. pksm_del_anon_page s p = Inr (s', 0) \<and>
            ksm_pages_sharing s' = ksm_pages_sharing s - of_int ?m \<and>
            r_mapcount (rmaps s' r) = 0 \<and>
            \<not> PagePKSM s' p \<and> pksm (pages s' p) = None \<and> page (rmaps s' r) = None \<and>
            (if has_flag (rmaps s r) NEWLIST_FLAG \<or> has_flag (rmaps s r) RESCAN_LIST_FLAG
             then \<not> rmap_in_use s' r \<and> ksm_rmap_items s' = ksm_rmap_items s - 1 \<and>
                  r \<notin> set (new_anon_page_list s') \<and> r \<notin> set (pksm_rescan_page_list s') \<and>
                  del_anon_page_list s' = del_anon_page_list s
             else rmap_in_use s' r = rmap_in_use s r \<and> has_flag (rmaps s' r) DELLIST_FLAG \<and>
                  del_anon_page_list s' = del_anon_page_list s @ [r] \<and>
                  new_anon_page_list s' = new_anon_page_list s \<and>
                  pksm_rescan_page_list s' = pksm_rescan_page_list s)"
  proof (cases "0 < ?m")
    case True
    with a w32 w64 show ?thesis
      by (simp add: pksm_del_anon_page_def pksm_del_sharing_page_counter_def del_sharing_funpow
          upd_page_def upd_rmap_def PagePKSM_def Let_def new_or_rescan_num pksm_free_rmap_item_def
          list_del_def list_add_tail_def flag_simps)
  next
    case False
    with a have z: "?m = 0" by simp
    then have "r_mapcount (rmaps s r) = 0"
      by (simp add: signed_eq_0_iff)
    with a z show ?thesis
      by (simp add: pksm_del_anon_page_def 
          upd_page_def upd_rmap_def PagePKSM_def Let_def new_or_rescan_num pksm_free_rmap_item_def
          list_del_def list_add_tail_def flag_simps)
  qed
qed

lemmas st_tracked_defs = st_tracked_def idle_def null_rmap_def null_page_def

theorem C7_del_anon_page_witness:
  "\<not> PagePKSM st_tracked 3 \<and> pksm_del_anon_page st_tracked 3 = Inr (st_tracked, - EFAULT) \<and>
   PagePKSM st_tracked 1 \<and> pksm (pages st_tracked 1) = Some 1 \<and>
   (\<exists>s'. pksm_del_anon_page st_tracked 1 = Inr (s', 0) \<and> \<not> rmap_in_use s' 1 \<and>
         1 \<notin> set (new_anon_page_list s') \<and> pksm (pages s' 1) = None) \<and>
   PagePKSM st_tracked 2 \<and> pksm (pages st_tracked 2) = Some 2 \<and>
   (\<exists>s'. pksm_del_anon_page st_tracked 2 = Inr (s', 0) \<and> ksm_pages_sharing s' = 0 \<and>
         r_mapcount (rmaps s' 2) = 0 \<and> del_anon_page_list s' = [2] \<and>
         has_flag (rmaps s' 2) DELLIST_FLAG)"
proof -
  have u: "\<not> PagePKSM st_tracked 3"
    by (simp add: st_tracked_defs PagePKSM_def)
  have t1: "PagePKSM st_tracked 1 \<and> pksm (pages st_tracked 1) = Some 1 \<and>
            page (rmaps st_tracked 1) = Some 1 \<and> 0 \<le> sint (r_mapcount (rmaps st_tracked 1))"
    by (simp add: st_tracked_defs PagePKSM_def)
  have f1: "has_flag (rmaps st_tracked 1) NEWLIST_FLAG"
    by (simp add: st_tracked_defs flag_simps)
  have t2: "PagePKSM st_tracked 2 \<and> pksm (pages st_tracked 2) = Some 2 \<and>
            page (rmaps st_tracked 2) = Some 2 \<and> 0 \<le> sint (r_mapcount (rmaps st_tracked 2))"
    by (simp add: st_tracked_defs PagePKSM_def)
  have f2: "\<not> has_flag (rmaps st_tracked 2) NEWLIST_FLAG"
           "\<not> has_flag (rmaps st_tracked 2) RESCAN_LIST_FLAG"
    by (simp_all add: st_tracked_defs flag_simps)
  have v2: "ksm_pages_sharing st_tracked - of_int (sint (r_mapcount (rmaps st_tracked 2))) = 0"
           "del_anon_page_list st_tracked = []"
    by (simp_all add: st_tracked_defs)
  from C7_del_anon_page [of st_tracked 3 1] u
  have a: "pksm_del_anon_page st_tracked 3 = Inr (st_tracked, - EFAULT)" by blast
  from C7_del_anon_page [of st_tracked 1 1] t1 f1
  have b: "\<exists>s'. pksm_del_anon_page st_tracked 1 = Inr (s', 0) \<and> \<not> rmap_in_use s' 1 \<and>
         1 \<notin> set (new_anon_page_list s') \<and> pksm (pages s' 1) = None"
    by auto
  from C7_del_anon_page [of st_tracked 2 2] t2 f2 v2
  have c: "\<exists>s'. pksm_del_anon_page st_tracked 2 = Inr (s', 0) \<and> ksm_pages_sharing s' = 0 \<and>
         r_mapcount (rmaps s' 2) = 0 \<and> del_anon_page_list s' = [2] \<and>
         has_flag (rmaps s' 2) DELLIST_FLAG"
    by auto
  from u a t1 b t2 c show ?thesis by blast
qed

text \<open>
  C6 (as the code has it).  \<^verbatim>\<open>pksm_add_new_anon_page\<close> returns \<^verbatim>\<open>-EFAULT\<close> and leaves the
  state alone when the item, the page or the \<^verbatim>\<open>anon_vma\<close> pointer is \<^verbatim>\<open>NULL\<close>, or the
  page is already tracked (\<^verbatim>\<open>PagePKSM\<close>), not anonymous, or a KSM page.  Otherwise it
  returns 0 after setting the bits \<^verbatim>\<open>NEWLIST_FLAG\<close> and \<^verbatim>\<open>INITCHECKSUM_FLAG\<close> in the
  item's flags (other bits stay), recording the \<^verbatim>\<open>anon_vma\<close>, marking the page tracked,
  linking \<^verbatim>\<open>page->pksm\<close> and \<^verbatim>\<open>rmap_item->page\<close>, and appending the item to the new
  list.  Submitting the same page again, with any item and \<^verbatim>\<open>anon_vma\<close>, then returns
  \<^verbatim>\<open>-EFAULT\<close> and changes nothing, so the page stays tracked once.
\<close>

theorem C6_add_new_anon_page:
  "(ro = None \<or> po = None \<or> ao = None \<longrightarrow>
      pksm_add_new_anon_page s po ro ao = (s, - EFAULT)) \<and>
   (PagePKSM s p \<or> \<not> PageAnon s p \<or> PageKsm s p \<longrightarrow>
      pksm_add_new_anon_page s (Some p) ro ao = (s, - EFAULT)) \<and>
   (\<not> PagePKSM s p \<and> PageAnon s p \<and> \<not> PageKsm s p \<longrightarrow>
      (\<exists>s'. pksm_add_new_anon_page s (Some p) (Some r) (Some a) = (s', 0) \<and>
            address (rmaps s' r) = (address (rmaps s r) OR NEWLIST_FLAG) OR INITCHECKSUM_FLAG \<and>
            has_flag (rmaps s' r) NEWLIST_FLAG \<and> has_flag (rmaps s' r) INITCHECKSUM_FLAG \<and>
            pksm (pages s' p) = Some r \<and> page (rmaps s' r) = Some p \<and>
            anon_vma (rmaps s' r) = Some a \<and> PagePKSM s' p \<and>
            new_anon_page_list s' = new_anon_page_list s @ [r] \<and>
            pksm_add_new_anon_page s' (Some p) ro ao = (s', - EFAULT)))"
proof (intro conjI impI)
  assume "ro = None \<or> po = None \<or> ao = None"
  then show "pksm_add_new_anon_page s po ro ao = (s, - EFAULT)"
    by (auto simp: pksm_add_new_anon_page_def split: option.splits)
next
  assume "PagePKSM s p \<or> \<not> PageAnon s p \<or> PageKsm s p"
  then show "pksm_add_new_anon_page s (Some p) ro ao = (s, - EFAULT)"
    by (auto simp: pksm_add_new_anon_page_def split: option.splits)
next
  assume a: "\<not> PagePKSM s p \<and> PageAnon s p \<and> \<not> PageKsm s p"
  define s' where "s' = fst (pksm_add_new_anon_page s (Some p) (Some r) (Some a))"
  from a have r: "pksm_add_new_anon_page s (Some p) (Some r) (Some a) = (s', 0)"
    by (simp add: s'_def pksm_add_new_anon_page_def Let_def)
  from a have f: "address (rmaps s' r) = (address (rmaps s r) OR NEWLIST_FLAG) OR INITCHECKSUM_FLAG"
    "pksm (pages s' p) = Some r" "page (rmaps s' r) = Some p"
    "anon_vma (rmaps s' r) = Some a" "PagePKSM s' p"
    "new_anon_page_list s' = new_anon_page_list s @ [r]"
    by (simp_all add: s'_def pksm_add_new_anon_page_def Let_def upd_rmap_def upd_page_def
        PagePKSM_def set_flag_def list_add_tail_def)
  from f(1) have g: "has_flag (rmaps s' r) NEWLIST_FLAG" "has_flag (rmaps s' r) INITCHECKSUM_FLAG"
    by (simp_all add: flag_simps)
  from f(5) have again: "pksm_add_new_anon_page s' (Some p) ro ao = (s', - EFAULT)"
    by (auto simp: pksm_add_new_anon_page_def split: option.splits)
  from r f g again show "\<exists>s'. pksm_add_new_anon_page s (Some p) (Some r) (Some a) = (s', 0) \<and>
            address (rmaps s' r) = (address (rmaps s r) OR NEWLIST_FLAG) OR INITCHECKSUM_FLAG \<and>
            has_flag (rmaps s' r) NEWLIST_FLAG \<and> has_flag (rmaps s' r) INITCHECKSUM_FLAG \<and>
            pksm (pages s' p) = Some r \<and> page (rmaps s' r) = Some p \<and>
            anon_vma (rmaps s' r) = Some a \<and> PagePKSM s' p \<and>
            new_anon_page_list s' = new_anon_page_list s @ [r] \<and>
            pksm_add_new_anon_page s' (Some p) ro ao = (s', - EFAULT)"
    by blast
qed

text \<open>
  C6 (as stated) fails on the "otherwise": page 3 of \<open>st_tracked\<close> is untracked,
  anonymous and not a KSM page, yet the intake called without an \<^verbatim>\<open>anon_vma\<close> returns
  \<^verbatim>\<open>-EFAULT\<close> and changes nothing.
\<close>

theorem C6_null_anon_vma_counterexample:
  "\<not> PagePKSM st_tracked 3 \<and> PageAnon st_tracked 3 \<and> \<not> PageKsm st_tracked 3 \<and>
   pksm_add_new_anon_page st_tracked (Some 3) (Some 3) None = (st_tracked, - EFAULT)"
  by (simp add: st_tracked_defs PagePKSM_def PageAnon_def PageKsm_def pksm_add_new_anon_page_def)

theorem C6_add_new_anon_page_witness:
  "\<not> PagePKSM st_tracked 3 \<and> PageAnon st_tracked 3 \<and> \<not> PageKsm st_tracked 3 \<and>
   (\<exists>s'. pksm_add_new_anon_page st_tracked (Some 3) (Some 3) (Some 7) = (s', 0) \<and>
         new_anon_page_list s' = [1, 3] \<and> pksm (pages s' 3) = Some 3 \<and>
         pksm_add_new_anon_page s' (Some 3) (Some 3) (Some 7) = (s', - EFAULT)) \<and>
   PagePKSM st_tracked 1 \<and>
   pksm_add_new_anon_page st_tracked (Some 1) (Some 3) (Some 7) = (st_tracked, - EFAULT) \<and>
   pksm_add_new_anon_page st_tracked None (Some 3) (Some 7) = (st_tracked, - EFAULT)"
proof -
  have h: "\<not> PagePKSM st_tracked 3 \<and> PageAnon st_tracked 3 \<and> \<not> PageKsm st_tracked 3"
    by (simp add: st_tracked_defs PagePKSM_def PageAnon_def PageKsm_def)
  have n: "new_anon_page_list st_tracked = [1]" by (simp add: st_tracked_defs)
  have t: "PagePKSM st_tracked 1" by (simp add: st_tracked_defs PagePKSM_def)
  from C6_add_new_anon_page [of "Some 3" "Some 3" "Some 7" st_tracked 3 3 7] h n
  have 1: "\<exists>s'. pksm_add_new_anon_page st_tracked (Some 3) (Some 3) (Some 7) = (s', 0) \<and>
         new_anon_page_list s' = [1, 3] \<and> pksm (pages s' 3) = Some 3 \<and>
         pksm_add_new_anon_page s' (Some 3) (Some 3) (Some 7) = (s', - EFAULT)"
    by auto
  from C6_add_new_anon_page [of "Some 3" "Some 1" "Some 7" st_tracked 1 3 7] t
  have 2: "pksm_add_new_anon_page st_tracked (Some 1) (Some 3) (Some 7) = (st_tracked, - EFAULT)"
    by blast
  from C6_add_new_anon_page [of "Some 3" None "Some 7" st_tracked 1 3 7]
  have 3: "pksm_add_new_anon_page st_tracked None (Some 3) (Some 7) = (st_tracked, - EFAULT)"
    by blast
  from h t 1 2 3 show ?thesis by blast
qed

subsection \<open>The trees\<close>

lemma erase_min_inorder:
  "erase_min l a r = (m, t') \<Longrightarrow> inorder (Node l a r) = m # inorder t'"
proof (induction l a r arbitrary: m t' rule: erase_min.induct)
  case (1 a r)
  then show ?case by simp
next
  case (2 ll la lr a r)
  then show ?case by (auto split: prod.splits)
qed

lemma inorder_rb_erase:
  "distinct (inorder t) \<Longrightarrow> inorder (rb_erase x t) = removeAll x (inorder t)"
proof (induction t)
  case Leaf
  show ?case by simp
next
  case (Node l a r)
  show ?case
  proof (cases "a = x")
    case True
    with Node.prems have nl: "x \<notin> set (inorder l)" and nr: "x \<notin> set (inorder r)"
      by auto
    have rhs: "removeAll x (inorder (Node l a r)) = inorder l @ inorder r"
      using True nl nr by simp
    show ?thesis
    proof (cases r)
      case Leaf
      with True rhs show ?thesis by simp
    next
      case (Node rl ra rr)
      obtain m r' where e: "erase_min rl ra rr = (m, r')" by (cases "erase_min rl ra rr")
      from erase_min_inorder [OF e] have "inorder (Node rl ra rr) = m # inorder r'" .
      then have "inorder (rb_erase x (tree.Node l a (tree.Node rl ra rr))) = inorder l @ inorder (Node rl ra rr)"
        using True e by simp
      with rhs Node show ?thesis by simp
    qed
  next
    case False
    with Node show ?thesis by simp
  qed
qed

lemma set_tree_rb_erase:
  "distinct (inorder t) \<Longrightarrow> set_tree (rb_erase x t) = set_tree t - {x}"
proof -
  assume d: "distinct (inorder t)"
  have "set_tree (rb_erase x t) = set (inorder (rb_erase x t))" by simp
  also have "\<dots> = set (removeAll x (inorder t))" using d by (simp add: inorder_rb_erase)
  also have "\<dots> = set_tree t - {x}" by auto
  finally show ?thesis .
qed

lemma distinct_rb_erase: "distinct (inorder t) \<Longrightarrow> distinct (inorder (rb_erase x t))"
  by (simp add: inorder_rb_erase distinct_removeAll)

subsection \<open>Revalidation of the unstable tree\<close>

lemma unat_ucast_up: "unat (ucast (w::u32) :: ulong) = unat w"
proof -
  have "unat w < 2 ^ 32" using unsigned_less [of w] by simp
  then have "unat w < 2 ^ 64" by simp
  then show ?thesis by (simp add: unsigned_ucast_eq take_bit_nat_eq_self)
qed

lemma ucast_down: "unat w = n \<Longrightarrow> (ucast (w::ulong) :: u32) = of_nat n"
  by (auto simp add: word_unat_eq_iff unsigned_ucast_eq unat_of_nat take_bit_eq_mod)

lemma calc_small:
  assumes "unat (ksm_pages_unshared s) < unat (ksm_thread_pages_to_scan s)"
  shows "pksm_calc_update_pages_num s = Inr (ucast (ksm_pages_unshared s))"
proof -
  have "ksm_pages_unshared s < ucast (ksm_thread_pages_to_scan s)"
    unfolding word_less_nat_alt unat_ucast_up using assms .
  then show ?thesis by (simp add: pksm_calc_update_pages_num_def)
qed

lemma calc_large:
  assumes "\<not> unat (ksm_pages_unshared s) < unat (ksm_thread_pages_to_scan s)"
    and "unat (ksm_pages_unshared s) * unat (ksm_thread_sleep_millisecs s) < 2 ^ 64"
    and "0 < unat (pksm_unshared_page_update_period s)"
    and "unat (pksm_unshared_page_update_period s) * 1000 < 2 ^ 32"
  shows "pksm_calc_update_pages_num s =
           Inr (of_nat (unat (ksm_pages_unshared s) * unat (ksm_thread_sleep_millisecs s)
                          div (unat (pksm_unshared_page_update_period s) * 1000)))"
proof -
  let ?U = "ksm_pages_unshared s" and ?S = "ksm_thread_sleep_millisecs s"
  let ?P = "pksm_unshared_page_update_period s"
  have nl: "\<not> ?U < ucast (ksm_thread_pages_to_scan s)"
    unfolding word_less_nat_alt unat_ucast_up using assms(1) .
  have d: "unat (?P * 1000) = unat ?P * 1000"
    using assms(4) by (simp add: unat_word_ariths)
  with assms(3) have dz: "?P * 1000 \<noteq> 0" by (metis mult_is_0 not_less0 unat_0 zero_neq_numeral)
  have ud: "unat (ucast (?P * 1000) :: ulong) = unat ?P * 1000"
    unfolding unat_ucast_up using d .
  have um: "unat (?U * ucast ?S) = unat ?U * unat ?S"
  proof -
    have "unat (?U * ucast ?S) = (unat ?U * unat (ucast ?S :: ulong)) mod 2 ^ 64"
      by (simp add: unat_word_ariths)
    also have "\<dots> = (unat ?U * unat ?S) mod 2 ^ 64" unfolding unat_ucast_up ..
    also have "\<dots> = unat ?U * unat ?S" using assms(2) by simp
    finally show ?thesis .
  qed
  have "unat ((?U * ucast ?S) div ucast (?P * 1000)) = unat ?U * unat ?S div (unat ?P * 1000)"
    by (simp add: unat_div ud um)
  then have "(ucast ((?U * ucast ?S) div ucast (?P * 1000)) :: u32)
             = of_nat (unat ?U * unat ?S div (unat ?P * 1000))"
    by (rule ucast_down)
  with nl dz show ?thesis by (simp add: pksm_calc_update_pages_num_def Let_def)
qed

lemma update_checksum_entry_changed:
  assumes v: "check_valid_rmap_item s (Some r)" and pg: "page (rmaps s r) = Some p"
    and cnt: "p_count (pages s p) \<noteq> 0" and unl: "\<not> PG_locked (pages s p)"
    and dio: "p_mapcount (pages s p) + (if PG_swapcache (pages s p) then 1 else 0) = p_count (pages s p)"
    and ck: "calc_checksum (pksm_random_table s) (content (pages s p)) = Some c"
    and ne: "c \<noteq> checksum (rmaps s r)"
    and fl: "has_flag (rmaps s r) UNSTABLE_FLAG" "\<not> has_flag (rmaps s r) STABLE_FLAG"
      "rb_linked (rmaps s r)" "has_flag (rmaps s r) CHECKSUM_LIST_FLAG"
    and ds: "distinct (inorder (root_unstable_tree s))"
  shows "\<exists>s'. update_checksum_entry s r = Inr s' \<and> checksum (rmaps s' r) = c \<and>
          r \<notin> set_tree (root_unstable_tree s') \<and> r \<notin> set (unstabletree_checksum_list s') \<and>
          pksm_rescan_page_list s' = pksm_rescan_page_list s @ [r] \<and>
          has_flag (rmaps s' r) RESCAN_LIST_FLAG \<and> \<not> has_flag (rmaps s' r) INITCHECKSUM_FLAG \<and>
          \<not> has_flag (rmaps s' r) UNSTABLE_FLAG \<and> \<not> has_flag (rmaps s' r) CHECKSUM_LIST_FLAG"
proof -
  have nt: "r \<notin> set_tree (rb_erase r (root_unstable_tree s))"
    using ds by (simp add: set_tree_rb_erase del: set_inorder)
  have g: "get_page_unless_zero s p = (upd_page p (\<lambda>pg. pg\<lparr>p_count := p_count pg + 1\<rparr>) s, True)"
    using cnt by (simp add: get_page_unless_zero_def)
  from fl have b: "bit (address (rmaps s r)) 3" "\<not> bit (address (rmaps s r)) 4"
    "bit (address (rmaps s r)) 5"
    by (simp_all add: flag_simps)
  show ?thesis
    using v pg unl dio ck ne fl(3) nt b
    by (simp add: update_checksum_entry_def g Let_def PageLocked_def
        check_page_dio_def page_mapcount_def page_count_def PageSwapCache_def
        check_valid_rmap_item_def PagePKSM_def
        remove_rmap_item_from_tree_def put_page_def upd_page_def upd_rmap_def list_del_def
        list_add_tail_def flag_simps)
qed

lemma word_le_zero: "((w::u32) \<le> 0) = (unat w = 0)"
  by (simp add: unat_eq_0)

lemma min_of_nat_u32:
  "q < 2 ^ 32 \<Longrightarrow> min (of_nat q :: u32) b = of_nat (min q (unat b))"
proof -
  assume q: "q < 2 ^ 32"
  then have u: "unat (of_nat q :: u32) = q" by (simp add: unat_of_nat)
  show ?thesis
  proof (cases "q \<le> unat b")
    case True
    then have "(of_nat q :: u32) \<le> b" by (simp add: word_le_nat_alt u)
    with True show ?thesis by (simp add: min_def)
  next
    case False
    then have "\<not> (of_nat q :: u32) \<le> b" by (simp add: word_le_nat_alt u)
    with False show ?thesis by (simp add: min_def)
  qed
qed

lemma phase3_sample:
  assumes ov: "unat (ksm_pages_unshared s) * unat (ksm_thread_sleep_millisecs s) < 2 ^ 64"
    and p0: "0 < unat (pksm_unshared_page_update_period s)"
    and pv: "unat (pksm_unshared_page_update_period s) * 1000 < 2 ^ 32"
    and qv: "unat (ksm_pages_unshared s) * unat (ksm_thread_sleep_millisecs s)
               div (unat (pksm_unshared_page_update_period s) * 1000) < 2 ^ 32"
  shows "pksm_update_unstable_page_checksum s =
     (let need = (if unat (ksm_pages_unshared s) < unat (ksm_thread_pages_to_scan s)
                  then unat (ksm_pages_unshared s)
                  else unat (ksm_pages_unshared s) * unat (ksm_thread_sleep_millisecs s)
                         div (unat (pksm_unshared_page_update_period s) * 1000))
      in if need = 0 then Inr s
         else update_checksum_loop (of_nat (min need (unat (ksm_thread_pages_to_scan s))))
                (unstabletree_checksum_list s) 0 s)"
proof (cases "unat (ksm_pages_unshared s) < unat (ksm_thread_pages_to_scan s)")
  case True
  let ?U = "ksm_pages_unshared s" and ?B = "ksm_thread_pages_to_scan s"
  have "unat ?B < 2 ^ 32" using unsigned_less [of ?B] by simp
  with True have ul: "unat ?U < 2 ^ 32" by simp
  have dn: "(ucast ?U :: u32) = of_nat (unat ?U)" by (rule ucast_down) simp
  have un: "unat (of_nat (unat ?U) :: u32) = unat ?U"
    using ul by (simp only: unat_of_nat) simp
  show ?thesis
    unfolding pksm_update_unstable_page_checksum_def calc_small [OF True] dn
    using True un min_of_nat_u32 [OF ul, of ?B]
    by (simp only: Let_def word_le_zero sum.case if_True)
next
  case False
  let ?q = "unat (ksm_pages_unshared s) * unat (ksm_thread_sleep_millisecs s)
               div (unat (pksm_unshared_page_update_period s) * 1000)"
  have un: "unat (of_nat ?q :: u32) = ?q"
    using qv by (simp only: unat_of_nat) simp
  show ?thesis
    unfolding pksm_update_unstable_page_checksum_def calc_large [OF False ov p0 pv]
    using False un min_of_nat_u32 [OF qv]
    by (simp only: Let_def word_le_zero sum.case if_False)
qed

text \<open>
  C4 (as the code has it).  Barring overflow of the machine arithmetic and a zero period,
  the sample size of phase 3 is \<open>need = pages_unshared\<close> when
  \<open>pages_unshared < scan_budget\<close> and
  \<open>need = pages_unshared * sleep_ms / (revalidate_period_s * 1000)\<close> otherwise; with
  \<open>need = 0\<close> phase 3 changes nothing, and otherwise it walks the checksum list with the
  bound \<open>min(need, scan_budget)\<close>.  An entry that is valid, whose page can be acquired
  and is neither locked nor under direct I/O, and whose fresh hash differs from the stored
  one, gets the fresh hash stored, leaves the unstable tree and the checksum list, and is
  appended to the rescan list with \<^verbatim>\<open>RESCAN_LIST_FLAG\<close> set and \<^verbatim>\<open>INITCHECKSUM_FLAG\<close>
  cleared.
\<close>

theorem C4_revalidation:
  "(unat (ksm_pages_unshared s) * unat (ksm_thread_sleep_millisecs s) < 2 ^ 64 \<and>
    0 < unat (pksm_unshared_page_update_period s) \<and>
    unat (pksm_unshared_page_update_period s) * 1000 < 2 ^ 32 \<and>
    unat (ksm_pages_unshared s) * unat (ksm_thread_sleep_millisecs s)
      div (unat (pksm_unshared_page_update_period s) * 1000) < 2 ^ 32 \<longrightarrow>
    pksm_update_unstable_page_checksum s =
     (let need = (if unat (ksm_pages_unshared s) < unat (ksm_thread_pages_to_scan s)
                  then unat (ksm_pages_unshared s)
                  else unat (ksm_pages_unshared s) * unat (ksm_thread_sleep_millisecs s)
                         div (unat (pksm_unshared_page_update_period s) * 1000))
      in if need = 0 then Inr s
         else update_checksum_loop (of_nat (min need (unat (ksm_thread_pages_to_scan s))))
                (unstabletree_checksum_list s) 0 s)) \<and>
   (check_valid_rmap_item s (Some r) \<and> page (rmaps s r) = Some p \<and>
    p_count (pages s p) \<noteq> 0 \<and> \<not> PG_locked (pages s p) \<and>
    p_mapcount (pages s p) + (if PG_swapcache (pages s p) then 1 else 0) = p_count (pages s p) \<and>
    calc_checksum (pksm_random_table s) (content (pages s p)) = Some c \<and>
    c \<noteq> checksum (rmaps s r) \<and>
    has_flag (rmaps s r) UNSTABLE_FLAG \<and> \<not> has_flag (rmaps s r) STABLE_FLAG \<and>
    rb_linked (rmaps s r) \<and> has_flag (rmaps s r) CHECKSUM_LIST_FLAG \<and>
    distinct (inorder (root_unstable_tree s)) \<longrightarrow>
    (\<exists>s'. update_checksum_entry s r = Inr s' \<and> checksum (rmaps s' r) = c \<and>
          r \<notin> set_tree (root_unstable_tree s') \<and> r \<notin> set (unstabletree_checksum_list s') \<and>
          pksm_rescan_page_list s' = pksm_rescan_page_list s @ [r] \<and>
          has_flag (rmaps s' r) RESCAN_LIST_FLAG \<and> \<not> has_flag (rmaps s' r) INITCHECKSUM_FLAG \<and>
          \<not> has_flag (rmaps s' r) UNSTABLE_FLAG \<and> \<not> has_flag (rmaps s' r) CHECKSUM_LIST_FLAG))"
  using phase3_sample [of s] update_checksum_entry_changed [of s r p c] by blast

lemmas st_unstable_defs = st_unstable_def idle_def null_rmap_def null_page_def

lemma st_unstable_entry_hyps:
  "check_valid_rmap_item st_unstable (Some 1) \<and> page (rmaps st_unstable 1) = Some 1 \<and>
    p_count (pages st_unstable 1) \<noteq> 0 \<and> \<not> PG_locked (pages st_unstable 1) \<and>
    p_mapcount (pages st_unstable 1) + (if PG_swapcache (pages st_unstable 1) then 1 else 0)
      = p_count (pages st_unstable 1) \<and>
    calc_checksum (pksm_random_table st_unstable) (content (pages st_unstable 1)) = Some 2062316308 \<and>
    2062316308 \<noteq> checksum (rmaps st_unstable 1) \<and>
    has_flag (rmaps st_unstable 1) UNSTABLE_FLAG \<and> \<not> has_flag (rmaps st_unstable 1) STABLE_FLAG \<and>
    rb_linked (rmaps st_unstable 1) \<and> has_flag (rmaps st_unstable 1) CHECKSUM_LIST_FLAG \<and>
    distinct (inorder (root_unstable_tree st_unstable))"
  by (simp add: st_unstable_defs check_valid_rmap_item_def PagePKSM_def flag_simps
      calc_checksum_zero_page)

lemma st_unstable_config:
  "unat (ksm_pages_unshared st_unstable) = 1" "unat (ksm_thread_sleep_millisecs st_unstable) = 20"
  "unat (pksm_unshared_page_update_period st_unstable) = 10"
  "unat (ksm_thread_pages_to_scan st_unstable) = 1000"
  "unstabletree_checksum_list st_unstable = [1]"
  by (simp_all add: st_unstable_defs)

theorem C4_revalidation_witness:
  "pksm_update_unstable_page_checksum st_unstable = update_checksum_loop 1 [1] 0 st_unstable \<and>
   (\<exists>s'. update_checksum_entry st_unstable 1 = Inr s' \<and> checksum (rmaps s' 1) = 2062316308 \<and>
         1 \<notin> set_tree (root_unstable_tree s') \<and> pksm_rescan_page_list s' = [1] \<and>
         \<not> has_flag (rmaps s' 1) INITCHECKSUM_FLAG)"
proof -
  have r: "pksm_rescan_page_list st_unstable = []" by (simp add: st_unstable_defs)
  from C4_revalidation [of st_unstable 1 1 2062316308]
  have "pksm_update_unstable_page_checksum st_unstable = update_checksum_loop 1 [1] 0 st_unstable"
    by (simp add: st_unstable_config)
  moreover from C4_revalidation [of st_unstable 1 1 2062316308] st_unstable_entry_hyps r
  have "\<exists>s'. update_checksum_entry st_unstable 1 = Inr s' \<and> checksum (rmaps s' 1) = 2062316308 \<and>
         1 \<notin> set_tree (root_unstable_tree s') \<and> pksm_rescan_page_list s' = [1] \<and>
         \<not> has_flag (rmaps s' 1) INITCHECKSUM_FLAG"
    by (auto simp del: set_inorder)
  ultimately show ?thesis by blast
qed

text \<open>
  C4 (as stated) fails.  In \<open>st_unstable\<close> one page is unshared and the tunables have
  their defaults, so \<open>min(1 * 20 / (10 * 1000), 1000) = 0\<close> entries should be re-hashed;
  yet phase 3 re-hashes item 1, stores the new hash, takes the item out of the unstable
  tree and requeues it.  The requeued item has \<^verbatim>\<open>INITCHECKSUM_FLAG\<close> clear, not set.
\<close>

theorem C4_sample_size_counterexample:
  "min (unat (ksm_pages_unshared st_unstable) * unat (ksm_thread_sleep_millisecs st_unstable)
          div (unat (pksm_unshared_page_update_period st_unstable) * 1000))
       (unat (ksm_thread_pages_to_scan st_unstable)) = 0 \<and>
   checksum (rmaps st_unstable 1) = 7 \<and>
   (\<exists>s'. pksm_update_unstable_page_checksum st_unstable = Inr s' \<and>
         checksum (rmaps s' 1) = 2062316308 \<and> root_unstable_tree s' = Leaf \<and>
         pksm_rescan_page_list s' = [1] \<and> has_flag (rmaps s' 1) RESCAN_LIST_FLAG \<and>
         \<not> has_flag (rmaps s' 1) INITCHECKSUM_FLAG)"
proof -
  have a: "min (unat (ksm_pages_unshared st_unstable) * unat (ksm_thread_sleep_millisecs st_unstable)
          div (unat (pksm_unshared_page_update_period st_unstable) * 1000))
       (unat (ksm_thread_pages_to_scan st_unstable)) = 0"
    by (simp add: st_unstable_config)
  have b: "checksum (rmaps st_unstable 1) = 7" by (simp add: st_unstable_defs)
  have n: "pksm_calc_update_pages_num st_unstable = Inr 1"
    by (simp add: pksm_calc_update_pages_num_def st_unstable_defs)
  have l: "pksm_update_unstable_page_checksum st_unstable = update_checksum_loop 1 [1] 0 st_unstable"
    by (simp add: pksm_update_unstable_page_checksum_def n) (simp add: st_unstable_defs)
  have c: "\<exists>s'. update_checksum_loop 1 [1] 0 st_unstable = Inr s' \<and>
         checksum (rmaps s' 1) = 2062316308 \<and> root_unstable_tree s' = Leaf \<and>
         pksm_rescan_page_list s' = [1] \<and> has_flag (rmaps s' 1) RESCAN_LIST_FLAG \<and>
         \<not> has_flag (rmaps s' 1) INITCHECKSUM_FLAG"
    by (simp add: update_checksum_entry_def st_unstable_defs Let_def PageLocked_def
        get_page_unless_zero_def check_page_dio_def page_mapcount_def page_count_def
        PageSwapCache_def check_valid_rmap_item_def PagePKSM_def calc_checksum_zero_page
        remove_rmap_item_from_tree_def put_page_def upd_page_def upd_rmap_def list_del_def
        list_add_tail_def flag_simps)
  from a b l c show ?thesis by simp
qed

subsection \<open>Frames of the descents\<close>

lemma refs_only_refl: "refs_only s s"
  by (simp add: refs_only_def)

lemma refs_only_trans: "refs_only s s1 \<Longrightarrow> refs_only s1 s2 \<Longrightarrow> refs_only s s2"
  unfolding refs_only_def
  by (metis (no_types, lifting) page_struct.update_convs(8) state.update_convs(3) state.surjective
      page_struct.surjective)

lemma refs_only_fields:
  assumes "refs_only s s'"
  shows "rmaps s' = rmaps s" "root_stable_tree s' = root_stable_tree s"
    "root_unstable_tree s' = root_unstable_tree s"
    "unstabletree_checksum_list s' = unstabletree_checksum_list s"
    "pgtable s' = pgtable s" "empty_pksm_zero_page s' = empty_pksm_zero_page s"
    "pksm_zero_random_checksum s' = pksm_zero_random_checksum s"
    "pksm (pages s' q) = pksm (pages s q)" "PG_pksm (pages s' q) = PG_pksm (pages s q)"
    "content (pages s' q) = content (pages s q)" "mapping (pages s' q) = mapping (pages s q)"
proof -
  from assms have e: "s' = s\<lparr>pages := pages s'\<rparr>"
    and p: "pages s' q = (pages s q)\<lparr>p_count := p_count (pages s' q)\<rparr>"
    by (simp_all add: refs_only_def)
  show "rmaps s' = rmaps s" by (subst e) simp
  show "root_stable_tree s' = root_stable_tree s" by (subst e) simp
  show "root_unstable_tree s' = root_unstable_tree s" by (subst e) simp
  show "unstabletree_checksum_list s' = unstabletree_checksum_list s" by (subst e) simp
  show "pgtable s' = pgtable s" by (subst e) simp
  show "empty_pksm_zero_page s' = empty_pksm_zero_page s" by (subst e) simp
  show "pksm_zero_random_checksum s' = pksm_zero_random_checksum s" by (subst e) simp
  show "pksm (pages s' q) = pksm (pages s q)" by (subst p) simp
  show "PG_pksm (pages s' q) = PG_pksm (pages s q)" by (subst p) simp
  show "content (pages s' q) = content (pages s q)" by (subst p) simp
  show "mapping (pages s' q) = mapping (pages s q)" by (subst p) simp
qed

lemma refs_only_put_page: "refs_only s (put_page s p)"
  by (simp add: refs_only_def put_page_def upd_page_def)

lemma refs_only_get_page_unless_zero: "get_page_unless_zero s p = (s', b) \<Longrightarrow> refs_only s s'"
  by (auto simp: refs_only_def get_page_unless_zero_def upd_page_def split: if_splits)

lemma refs_only_get_ksm_page: "get_ksm_page s ro = (s', x) \<Longrightarrow> refs_only s s'"
  by (auto simp: get_ksm_page_def split: if_splits option.splits prod.splits bool.splits
      intro: refs_only_refl refs_only_trans refs_only_put_page
      dest: refs_only_get_page_unless_zero)

lemma refs_only_get_mergeable_page: "get_mergeable_page s ro = (s', x) \<Longrightarrow> refs_only s s'"
  by (auto simp: get_mergeable_page_def split: if_splits option.splits prod.splits bool.splits
      intro: refs_only_refl refs_only_trans refs_only_put_page
      dest: refs_only_get_page_unless_zero)

lemma walk_ok_evict:
  "has_flag (rmaps s t) DELLIST_FLAG \<or> page (rmaps s t) = None \<Longrightarrow>
   walk_ok s (Node l t r) (remove_rmap_item_from_tree s (Some t) False) RETRY"
  unfolding walk_ok_def using refs_only_refl [of s] by auto

lemma walk_ok_end: "refs_only s s1 \<Longrightarrow> d \<noteq> RETRY \<Longrightarrow> walk_ok s t s1 d"
  by (simp add: walk_ok_def)

lemma walk_ok_step:
  assumes r: "refs_only s s'" and w: "walk_ok s' t' s1 d" and sub: "set_tree t' \<subseteq> set_tree t"
  shows "walk_ok s t s1 d"
proof (cases "d = RETRY")
  case True
  with w obtain m s0 where m: "m \<in> set_tree t'"
    and f: "has_flag (rmaps s' m) DELLIST_FLAG \<or> page (rmaps s' m) = None"
    and r0: "refs_only s' s0" and e: "s1 = remove_rmap_item_from_tree s0 (Some m) False"
    unfolding walk_ok_def by auto
  from f refs_only_fields(1) [OF r]
  have "has_flag (rmaps s m) DELLIST_FLAG \<or> page (rmaps s m) = None" by simp
  moreover from m sub have "m \<in> set_tree t" by blast
  moreover note refs_only_trans [OF r r0] e
  ultimately show ?thesis unfolding walk_ok_def using True by auto
next
  case False
  with w have "refs_only s' s1" by (simp add: walk_ok_def)
  with r have "refs_only s s1" by (rule refs_only_trans)
  with False show ?thesis by (simp add: walk_ok_def)
qed

lemma stable_search_walk_ok:
  "stable_tree_search_walk s ro t = Inr (s1, d) \<Longrightarrow> walk_ok s t s1 d"
proof (induction s ro t arbitrary: s1 d rule: stable_tree_search_walk.induct)
  case (1 s ro)
  then show ?case by (auto simp: walk_ok_def refs_only_refl)
next
  case (2 s ro l t r)
  show ?case
  proof (cases "has_flag (rmaps s t) DELLIST_FLAG \<or> page (rmaps s t) = None")
    case True
    with 2(3) walk_ok_evict [OF True] show ?thesis by auto
  next
    case False
    obtain sg x where g: "get_ksm_page s (Some t) = (sg, x)" by (cases "get_ksm_page s (Some t)")
    note rg = refs_only_get_ksm_page [OF g]
    show ?thesis
    proof (cases x)
      case None
      with 2(3) False g rg show ?thesis by (auto intro: walk_ok_end)
    next
      case (Some tp)
      note rp = refs_only_trans [OF rg refs_only_put_page [of sg tp]]
      from 2(3) False g Some obtain ri where ri: "ro = Some ri"
        by (cases ro) auto
      let ?ret = "hash_cmp (checksum (rmaps sg ri)) (checksum (rmaps sg t))"
      consider (lt) "?ret < 0" | (gt) "\<not> ?ret < 0" "0 < ?ret" | (eq) "\<not> ?ret < 0" "\<not> 0 < ?ret"
        by blast
      then show ?thesis
      proof cases
        case lt
        with 2(3) False g Some ri
        have "stable_tree_search_walk (put_page sg tp) ro l = Inr (s1, d)" by simp
        from 2(1) [OF False g [symmetric] Some ri refl lt this]
        show ?thesis by (rule walk_ok_step [OF rp]) auto
      next
        case gt
        with 2(3) False g Some ri
        have "stable_tree_search_walk (put_page sg tp) ro r = Inr (s1, d)" by simp
        from 2(2) [OF False g [symmetric] Some ri refl gt this]
        show ?thesis by (rule walk_ok_step [OF rp]) auto
      next
        case eq
        with 2(3) False g Some ri rg show ?thesis by (auto intro: walk_ok_end)
      qed
    qed
  qed
qed

lemma get_ksm_page_tracked:
  assumes "get_ksm_page s ro = (s1, Some k)"
  shows "PG_pksm (pages s1 k)"
proof -
  from assms have "PG_pksm (pages s k)"
    by (auto simp: get_ksm_page_def check_valid_rmap_item_def PagePKSM_def
        split: if_splits option.splits prod.splits bool.splits)
  with refs_only_fields(9) [OF refs_only_get_ksm_page [OF assms]] show ?thesis by simp
qed

lemma stable_search_walk_found:
  "stable_tree_search_walk s ro t = Inr (s1, RETURN (Some k)) \<Longrightarrow> PG_pksm (pages s1 k)"
proof (induction s ro t arbitrary: s1 rule: stable_tree_search_walk.induct)
  case (1 s ro)
  then show ?case by simp
next
  case (2 s ro l t r)
  from 2(3) have nf: "\<not> (has_flag (rmaps s t) DELLIST_FLAG \<or> page (rmaps s t) = None)"
    by (auto split: if_splits)
  obtain sg x where g: "get_ksm_page s (Some t) = (sg, x)" by (cases "get_ksm_page s (Some t)")
  from 2(3) nf g obtain tp where x: "x = Some tp" by (cases x) auto
  from 2(3) nf g x obtain ri where ri: "ro = Some ri" by (cases ro) auto
  let ?ret = "hash_cmp (checksum (rmaps sg ri)) (checksum (rmaps sg t))"
  consider (lt) "?ret < 0" | (gt) "\<not> ?ret < 0" "0 < ?ret" | (eq) "\<not> ?ret < 0" "\<not> 0 < ?ret"
    by blast
  then show ?case
  proof cases
    case lt
    with 2(3) nf g x ri
    have "stable_tree_search_walk (put_page sg tp) ro l = Inr (s1, RETURN (Some k))" by simp
    from 2(1) [OF nf g [symmetric] x ri refl lt this] show ?thesis .
  next
    case gt
    with 2(3) nf g x ri
    have "stable_tree_search_walk (put_page sg tp) ro r = Inr (s1, RETURN (Some k))" by simp
    from 2(2) [OF nf g [symmetric] x ri refl gt this] show ?thesis .
  next
    case eq
    with 2(3) nf g x ri have "s1 = sg" "k = tp" by simp_all
    with g x get_ksm_page_tracked show ?thesis by blast
  qed
qed

lemma stable_insert_walk_ok:
  "stable_tree_insert_walk s ri ds t = (s1, d) \<Longrightarrow> walk_ok s t s1 d"
proof (induction s ri ds t arbitrary: s1 d rule: stable_tree_insert_walk.induct)
  case (1 s ri ds)
  then show ?case by (auto simp: walk_ok_def refs_only_refl)
next
  case (2 s ri ds l t r)
  show ?case
  proof (cases "has_flag (rmaps s t) DELLIST_FLAG \<or> page (rmaps s t) = None")
    case True
    with 2(3) walk_ok_evict [OF True] show ?thesis by auto
  next
    case False
    obtain sg x where g: "get_ksm_page s (Some t) = (sg, x)" by (cases "get_ksm_page s (Some t)")
    note rg = refs_only_get_ksm_page [OF g]
    show ?thesis
    proof (cases x)
      case None
      with 2(3) False g rg show ?thesis by (auto intro: walk_ok_end)
    next
      case (Some tp)
      note rp = refs_only_trans [OF rg refs_only_put_page [of sg tp]]
      let ?ret = "hash_cmp (checksum (rmaps sg ri)) (checksum (rmaps sg t))"
      consider (lt) "?ret < 0" | (gt) "\<not> ?ret < 0" "0 < ?ret" | (eq) "\<not> ?ret < 0" "\<not> 0 < ?ret"
        by blast
      then show ?thesis
      proof cases
        case lt
        with 2(3) False g Some
        have "stable_tree_insert_walk (put_page sg tp) ri (ds @ [False]) l = (s1, d)"
          by (simp add: Let_def)
        from 2(1) [OF False g [symmetric] Some refl refl lt this]
        show ?thesis by (rule walk_ok_step [OF rp]) auto
      next
        case gt
        with 2(3) False g Some
        have "stable_tree_insert_walk (put_page sg tp) ri (ds @ [True]) r = (s1, d)"
          by (simp add: Let_def)
        from 2(2) [OF False g [symmetric] Some refl refl gt this]
        show ?thesis by (rule walk_ok_step [OF rp]) auto
      next
        case eq
        with 2(3) False g Some rp show ?thesis by (auto simp: Let_def intro: walk_ok_end)
      qed
    qed
  qed
qed

lemma unstable_walk_ok:
  "unstable_tree_walk s ri p ds t = Inr (s1, d) \<Longrightarrow> walk_ok s t s1 d"
proof (induction s ri p ds t arbitrary: s1 d rule: unstable_tree_walk.induct)
  case (1 s ri p ds)
  then show ?case by (auto simp: walk_ok_def refs_only_refl)
next
  case (2 s ri p ds l t r)
  from 2(3) have nb: "\<not> Some ri \<noteq> pksm (pages s p)" by (auto split: if_splits)
  show ?case
  proof (cases "has_flag (rmaps s t) DELLIST_FLAG \<or> page (rmaps s t) = None")
    case True
    with 2(3) nb walk_ok_evict [OF True] show ?thesis by auto
  next
    case False
    obtain sg x where g: "get_mergeable_page s (Some t) = (sg, x)"
      by (cases "get_mergeable_page s (Some t)")
    note rg = refs_only_get_mergeable_page [OF g]
    show ?thesis
    proof (cases x)
      case None
      with 2(3) nb False g rg show ?thesis by (auto intro: walk_ok_end)
    next
      case (Some tp)
      note rp = refs_only_trans [OF rg refs_only_put_page [of sg tp]]
      from 2(3) nb False g Some have nb2: "\<not> Some t \<noteq> pksm (pages sg tp)"
        by (auto split: if_splits)
      show ?thesis
      proof (cases "p = tp")
        case True
        with 2(3) nb False g Some nb2 rp show ?thesis by (auto intro: walk_ok_end)
      next
        case ne: False
        let ?ret = "hash_cmp (checksum (rmaps sg ri)) (checksum (rmaps sg t))"
        consider (lt) "?ret < 0" | (gt) "\<not> ?ret < 0" "0 < ?ret" | (eq) "\<not> ?ret < 0" "\<not> 0 < ?ret"
          by blast
        then show ?thesis
        proof cases
          case lt
          with 2(3) nb False g Some nb2 ne
          have "unstable_tree_walk (put_page sg tp) ri p (ds @ [False]) l = Inr (s1, d)"
            by (simp add: Let_def)
          from 2(1) [OF nb False g [symmetric] Some nb2 ne refl lt this]
          show ?thesis by (rule walk_ok_step [OF rp]) auto
        next
          case gt
          with 2(3) nb False g Some nb2 ne
          have "unstable_tree_walk (put_page sg tp) ri p (ds @ [True]) r = Inr (s1, d)"
            by (simp add: Let_def)
          from 2(2) [OF nb False g [symmetric] Some nb2 ne refl gt this]
          show ?thesis by (rule walk_ok_step [OF rp]) auto
        next
          case eq
          with 2(3) nb False g Some nb2 ne rg show ?thesis
            by (auto simp: Let_def intro: walk_ok_end)
        qed
      qed
    qed
  qed
qed

lemma set_erase_min:
  "erase_min l a r = (m, t') \<Longrightarrow> set_tree (Node l a r) = insert m (set_tree t')"
proof -
  assume "erase_min l a r = (m, t')"
  from erase_min_inorder [OF this] have "set (inorder (Node l a r)) = set (m # inorder t')"
    by (simp only:)
  then show ?thesis by simp
qed

lemma set_tree_rb_erase_insert: "insert x (set_tree (rb_erase x t)) = insert x (set_tree t)"
proof (induction t)
  case Leaf
  show ?case by simp
next
  case (Node l a r)
  show ?case
  proof (cases "a = x")
    case True
    show ?thesis
    proof (cases r)
      case Leaf
      with True show ?thesis by auto
    next
      case (Node rl ra rr)
      obtain m r' where e: "erase_min rl ra rr = (m, r')" by (cases "erase_min rl ra rr")
      from set_erase_min [OF e] Node have "set_tree r = insert m (set_tree r')" by simp
      with True Node e show ?thesis by auto
    qed
  next
    case False
    with Node show ?thesis by auto
  qed
qed

lemma set_tree_rb_erase_subset: "set_tree (rb_erase x t) \<subseteq> insert x (set_tree t)"
  using set_tree_rb_erase_insert [of x t] by blast

lemma rb_erase_other: "q \<noteq> x \<Longrightarrow> (q \<in> set_tree (rb_erase x t)) = (q \<in> set_tree t)"
  using set_tree_rb_erase_insert [of x t] by blast

lemma rb_erase_absent: "x \<notin> set_tree t \<Longrightarrow> rb_erase x t = t"
  by (induction t) auto

text \<open>What \<^verbatim>\<open>remove_rmap_item_from_tree\<close> leaves alone.\<close>

lemma remove_frame:
  "pages (remove_rmap_item_from_tree s ro False) = pages s"
  "pgtable (remove_rmap_item_from_tree s ro False) = pgtable s"
  "empty_pksm_zero_page (remove_rmap_item_from_tree s ro False) = empty_pksm_zero_page s"
  "pksm_zero_random_checksum (remove_rmap_item_from_tree s ro False) = pksm_zero_random_checksum s"
  "checksum (rmaps (remove_rmap_item_from_tree s ro False) q) = checksum (rmaps s q)"
  "page (rmaps (remove_rmap_item_from_tree s ro False) q) = page (rmaps s q)"
  "has_flag (rmaps (remove_rmap_item_from_tree s ro False) q) DELLIST_FLAG
     = has_flag (rmaps s q) DELLIST_FLAG"
  by (auto simp: remove_rmap_item_from_tree_def Let_def upd_rmap_def flag_simps
      split: option.splits)

lemma remove_other_rmap:
  "Some q \<noteq> ro \<Longrightarrow> rmaps (remove_rmap_item_from_tree s ro fa) q = rmaps s q"
proof (cases ro)
  case None
  then show ?thesis by (simp add: remove_rmap_item_from_tree_def)
next
  case (Some r)
  assume "Some q \<noteq> ro"
  with Some have ne: "q \<noteq> r" by auto
  have fs: "rmaps (free_stable_anons as t) = rmaps t" for as t
    by (induction as arbitrary: t) (simp_all add: free_stable_anon_def put_anon_vma_def)
  from ne Some show ?thesis
    by (simp add: remove_rmap_item_from_tree_def Let_def upd_rmap_def fs)
qed

lemma remove_trees_subset:
  "set_tree (root_stable_tree (remove_rmap_item_from_tree s ro fa)) \<subseteq> set_tree (root_stable_tree s)"
  "set_tree (root_unstable_tree (remove_rmap_item_from_tree s ro fa)) \<subseteq> set_tree (root_unstable_tree s)"
proof -
  have fs: "root_stable_tree (free_stable_anons as t) = root_stable_tree t"
    "root_unstable_tree (free_stable_anons as t) = root_unstable_tree t" for as t
    by (induction as arbitrary: t) (simp_all add: free_stable_anon_def put_anon_vma_def)
  have sub: "set_tree (rb_erase x t) \<subseteq> set_tree t" for x t
    using set_tree_rb_erase_insert [of x t] rb_erase_absent [of x t] by (cases "x \<in> set_tree t") auto
  show "set_tree (root_stable_tree (remove_rmap_item_from_tree s ro fa)) \<subseteq> set_tree (root_stable_tree s)"
    using sub by (auto simp: remove_rmap_item_from_tree_def Let_def upd_rmap_def fs split: option.splits)
  show "set_tree (root_unstable_tree (remove_rmap_item_from_tree s ro fa)) \<subseteq> set_tree (root_unstable_tree s)"
    using sub by (auto simp: remove_rmap_item_from_tree_def Let_def upd_rmap_def fs split: option.splits)
qed

subsection \<open>Checksum list and unstable tree\<close>

lemma free_stable_anons_frame:
  "rmaps (free_stable_anons as t) = rmaps t"
  "root_stable_tree (free_stable_anons as t) = root_stable_tree t"
  "root_unstable_tree (free_stable_anons as t) = root_unstable_tree t"
  "unstabletree_checksum_list (free_stable_anons as t) = unstabletree_checksum_list t"
  by (induction as arbitrary: t) (simp_all add: free_stable_anon_def put_anon_vma_def)

lemma remove_free_anon_irrelevant:
  "root_unstable_tree (remove_rmap_item_from_tree s ro fa)
     = root_unstable_tree (remove_rmap_item_from_tree s ro False)"
  "root_stable_tree (remove_rmap_item_from_tree s ro fa)
     = root_stable_tree (remove_rmap_item_from_tree s ro False)"
  "unstabletree_checksum_list (remove_rmap_item_from_tree s ro fa)
     = unstabletree_checksum_list (remove_rmap_item_from_tree s ro False)"
  "address (rmaps (remove_rmap_item_from_tree s ro fa) q)
     = address (rmaps (remove_rmap_item_from_tree s ro False) q)"
  by (simp_all add: remove_rmap_item_from_tree_def Let_def upd_rmap_def free_stable_anons_frame
      split: option.splits)

lemma has_flag_address: "address a = address b \<Longrightarrow> has_flag a f = has_flag b f"
  by (simp add: has_flag_def)

text \<open>The three ways \<^verbatim>\<open>remove_rmap_item_from_tree\<close> can go, as far as the unstable tree and
  the checksum list are concerned.\<close>

lemma remove_unstable_view:
  "remove_rmap_item_from_tree s (Some r) False = s' \<Longrightarrow>
   (root_unstable_tree s' = root_unstable_tree s \<and>
    unstabletree_checksum_list s' = unstabletree_checksum_list s \<and>
    (\<forall>q. has_flag (rmaps s' q) CHECKSUM_LIST_FLAG = has_flag (rmaps s q) CHECKSUM_LIST_FLAG)) \<or>
   (has_flag (rmaps s r) UNSTABLE_FLAG \<and>
    (root_unstable_tree s' = root_unstable_tree s \<or>
     root_unstable_tree s' = rb_erase r (root_unstable_tree s)) \<and>
    (if has_flag (rmaps s r) CHECKSUM_LIST_FLAG
     then unstabletree_checksum_list s' = list_del r (unstabletree_checksum_list s)
     else unstabletree_checksum_list s' = unstabletree_checksum_list s) \<and>
    \<not> has_flag (rmaps s' r) CHECKSUM_LIST_FLAG \<and>
    (\<forall>q. q \<noteq> r \<longrightarrow> has_flag (rmaps s' q) CHECKSUM_LIST_FLAG = has_flag (rmaps s q) CHECKSUM_LIST_FLAG))"
  by (auto simp: remove_rmap_item_from_tree_def Let_def upd_rmap_def flag_simps split: if_splits)

lemma checksum_list_inv_remove:
  assumes "checksum_list_inv s"
  shows "checksum_list_inv (remove_rmap_item_from_tree s ro fa)"
proof (cases ro)
  case None
  with assms show ?thesis by (simp add: remove_rmap_item_from_tree_def)
next
  case (Some r)
  define s' where "s' = remove_rmap_item_from_tree s (Some r) False"
  have eq: "checksum_list_inv (remove_rmap_item_from_tree s ro fa) = checksum_list_inv s'"
    unfolding checksum_list_inv_def s'_def Some
    using remove_free_anon_irrelevant [of s "Some r" fa]
    by (simp add: has_flag_def)
  from assms have inv: "\<And>q. q \<in> set (unstabletree_checksum_list s) \<Longrightarrow>
      q \<in> set_tree (root_unstable_tree s) \<and> has_flag (rmaps s q) CHECKSUM_LIST_FLAG"
    by (simp add: checksum_list_inv_def list_all_iff del: set_inorder)
  from remove_unstable_view [OF s'_def [symmetric]]
  have "checksum_list_inv s'"
  proof
    assume "root_unstable_tree s' = root_unstable_tree s \<and>
      unstabletree_checksum_list s' = unstabletree_checksum_list s \<and>
      (\<forall>q. has_flag (rmaps s' q) CHECKSUM_LIST_FLAG = has_flag (rmaps s q) CHECKSUM_LIST_FLAG)"
    with assms show ?thesis by (simp add: checksum_list_inv_def)
  next
    assume b: "has_flag (rmaps s r) UNSTABLE_FLAG \<and>
      (root_unstable_tree s' = root_unstable_tree s \<or>
       root_unstable_tree s' = rb_erase r (root_unstable_tree s)) \<and>
      (if has_flag (rmaps s r) CHECKSUM_LIST_FLAG
       then unstabletree_checksum_list s' = list_del r (unstabletree_checksum_list s)
       else unstabletree_checksum_list s' = unstabletree_checksum_list s) \<and>
      \<not> has_flag (rmaps s' r) CHECKSUM_LIST_FLAG \<and>
      (\<forall>q. q \<noteq> r \<longrightarrow> has_flag (rmaps s' q) CHECKSUM_LIST_FLAG = has_flag (rmaps s q) CHECKSUM_LIST_FLAG)"
    have "q \<in> set_tree (root_unstable_tree s') \<and> has_flag (rmaps s' q) CHECKSUM_LIST_FLAG"
      if q: "q \<in> set (unstabletree_checksum_list s')" for q
    proof -
      from b q inv have nr: "q \<noteq> r" and ql: "q \<in> set (unstabletree_checksum_list s)"
        by (auto simp: list_del_def split: if_splits simp del: set_inorder)
      from b nr have "(q \<in> set_tree (root_unstable_tree s')) = (q \<in> set_tree (root_unstable_tree s))"
        using rb_erase_other [of q r "root_unstable_tree s"] by auto
      with inv [OF ql] b nr show ?thesis by simp
    qed
    then show ?thesis by (simp add: checksum_list_inv_def list_all_iff del: set_inorder)
  qed
  with eq show ?thesis by simp
qed

lemma remove_from_unstable_clears_list:
  assumes inv: "checksum_list_inv s"
    and ch: "root_unstable_tree (remove_rmap_item_from_tree s (Some r) fa) \<noteq> root_unstable_tree s"
  shows "r \<notin> set (unstabletree_checksum_list (remove_rmap_item_from_tree s (Some r) fa)) \<and>
         \<not> has_flag (rmaps (remove_rmap_item_from_tree s (Some r) fa) r) CHECKSUM_LIST_FLAG"
proof -
  define s' where "s' = remove_rmap_item_from_tree s (Some r) False"
  from ch have ch': "root_unstable_tree s' \<noteq> root_unstable_tree s"
    by (simp add: s'_def remove_free_anon_irrelevant [of s "Some r" fa])
  from inv have i: "r \<in> set (unstabletree_checksum_list s) \<Longrightarrow> has_flag (rmaps s r) CHECKSUM_LIST_FLAG"
    by (simp add: checksum_list_inv_def list_all_iff del: set_inorder)
  from remove_unstable_view [OF s'_def [symmetric]] ch' i
  have "r \<notin> set (unstabletree_checksum_list s') \<and> \<not> has_flag (rmaps s' r) CHECKSUM_LIST_FLAG"
    by (auto simp: list_del_def split: if_splits)
  then show ?thesis
    unfolding s'_def using remove_free_anon_irrelevant [of s "Some r" fa]
    by (simp add: has_flag_def)
qed

lemma walk_ok_unstable_tree:
  assumes "walk_ok s t s1 d"
  shows "set_tree (root_unstable_tree s1) \<subseteq> set_tree (root_unstable_tree s)"
    and "set_tree (root_stable_tree s1) \<subseteq> set_tree (root_stable_tree s)"
proof -
  have "set_tree (root_unstable_tree s1) \<subseteq> set_tree (root_unstable_tree s) \<and>
        set_tree (root_stable_tree s1) \<subseteq> set_tree (root_stable_tree s)"
  proof (cases "d = RETRY")
    case True
    with assms obtain m s0 where r0: "refs_only s s0"
      and e: "s1 = remove_rmap_item_from_tree s0 (Some m) False"
      unfolding walk_ok_def by auto
    from remove_trees_subset [of s0 "Some m" False] e refs_only_fields(2,3) [OF r0]
    show ?thesis by simp
  next
    case False
    with assms have "refs_only s s1" by (simp add: walk_ok_def)
    from refs_only_fields(2,3) [OF this] show ?thesis by simp
  qed
  then show "set_tree (root_unstable_tree s1) \<subseteq> set_tree (root_unstable_tree s)"
    and "set_tree (root_stable_tree s1) \<subseteq> set_tree (root_stable_tree s)" by blast+
qed

lemma unstable_insert_lists:
  assumes "unstable_tree_retry ri p s = Some y"
  shows "\<forall>s' res. y = Inr (s', res) \<longrightarrow> ri \<notin> set_tree (root_unstable_tree s) \<longrightarrow>
           ri \<in> set_tree (root_unstable_tree s') \<longrightarrow>
           unstabletree_checksum_list s' \<noteq> [] \<and> last (unstabletree_checksum_list s') = ri \<and>
           has_flag (rmaps s' ri) CHECKSUM_LIST_FLAG \<and> has_flag (rmaps s' ri) UNSTABLE_FLAG"
proof (rule unstable_tree_retry.raw_induct
    [where P = "\<lambda>ri p s y. \<forall>s' res. y = Inr (s', res) \<longrightarrow>
           ri \<notin> set_tree (root_unstable_tree s) \<longrightarrow>
           ri \<in> set_tree (root_unstable_tree s') \<longrightarrow>
           unstabletree_checksum_list s' \<noteq> [] \<and> last (unstabletree_checksum_list s') = ri \<and>
           has_flag (rmaps s' ri) CHECKSUM_LIST_FLAG \<and> has_flag (rmaps s' ri) UNSTABLE_FLAG",
     OF _ assms])
  fix rec :: "nat \<Rightarrow> nat \<Rightarrow> state \<Rightarrow> (fault + state \<times> (nat \<times> nat) option) option"
  fix ri p s y
  assume IH: "\<And>ri p s y. rec ri p s = Some y \<Longrightarrow>
     \<forall>s' res. y = Inr (s', res) \<longrightarrow> ri \<notin> set_tree (root_unstable_tree s) \<longrightarrow>
           ri \<in> set_tree (root_unstable_tree s') \<longrightarrow>
           unstabletree_checksum_list s' \<noteq> [] \<and> last (unstabletree_checksum_list s') = ri \<and>
           has_flag (rmaps s' ri) CHECKSUM_LIST_FLAG \<and> has_flag (rmaps s' ri) UNSTABLE_FLAG"
  assume body: "(case unstable_tree_walk s ri p [] (root_unstable_tree s) of
      Inl f \<Rightarrow> Some (Inl f)
    | Inr (s1, d) \<Rightarrow>
        (case d of
           RETRY \<Rightarrow> rec ri p s1
         | RETURN x \<Rightarrow> Some (Inr (s1, x))
         | SLOT ds \<Rightarrow>
             if Some ri \<noteq> pksm (pages s1 p) then Some (Inl BUG)
             else if has_flag (rmaps s1 ri) UNSTABLE_FLAG then Some (Inl BUG)
             else if has_flag (rmaps s1 ri) STABLE_FLAG then Some (Inl BUG)
             else
               (let s2 = upd_rmap ri (set_flag UNSTABLE_FLAG) s1;
                    s3 = (upd_rmap ri (\<lambda>it. it\<lparr>rb_linked := True\<rparr>) s2)
                           \<lparr>root_unstable_tree := rb_link_node ri ds (root_unstable_tree s2),
                            ksm_pages_unshared := ksm_pages_unshared s2 + 1\<rparr>;
                    s4 = s3\<lparr>unstabletree_checksum_list :=
                               list_add_tail ri (unstabletree_checksum_list s3)\<rparr>;
                    s5 = upd_rmap ri (set_flag CHECKSUM_LIST_FLAG) s4
                in Some (Inr (s5, None))))) = Some y"
  show "\<forall>s' res. y = Inr (s', res) \<longrightarrow> ri \<notin> set_tree (root_unstable_tree s) \<longrightarrow>
           ri \<in> set_tree (root_unstable_tree s') \<longrightarrow>
           unstabletree_checksum_list s' \<noteq> [] \<and> last (unstabletree_checksum_list s') = ri \<and>
           has_flag (rmaps s' ri) CHECKSUM_LIST_FLAG \<and> has_flag (rmaps s' ri) UNSTABLE_FLAG"
  proof (cases "unstable_tree_walk s ri p [] (root_unstable_tree s)")
    case (Inl f)
    with body show ?thesis by auto
  next
    case (Inr sd)
    obtain s1 d where sd: "sd = (s1, d)" by (cases sd)
    note w = unstable_walk_ok [OF Inr [unfolded sd]]
    note sub = walk_ok_unstable_tree(1) [OF w]
    show ?thesis
    proof (cases d)
      case RETRY
      with body Inr sd have "rec ri p s1 = Some y" by simp
      from IH [OF this] sub show ?thesis by (auto simp del: set_inorder)
    next
      case (RETURN x)
      with w have "refs_only s s1" by (simp add: walk_ok_def)
      from refs_only_fields(3) [OF this] body Inr sd RETURN show ?thesis by auto
    next
      case (SLOT ds)
      with body Inr sd show ?thesis
        by (auto simp: Let_def upd_rmap_def list_add_tail_def flag_simps split: if_splits)
    qed
  qed
qed

subsection \<open>Retries\<close>

text \<open>Induction along the retries of a descent that returns.\<close>

lemma stable_search_retry_induct:
  assumes ret: "stable_tree_search_retry ro s = Some y"
    and retry: "\<And>s s1. stable_tree_search_walk s ro (root_stable_tree s) = Inr (s1, RETRY) \<Longrightarrow>
                  Q s1 \<Longrightarrow> Q s"
    and final: "\<And>s. stable_tree_search_retry ro s = Some y \<Longrightarrow>
                  (\<forall>s1. stable_tree_search_walk s ro (root_stable_tree s) \<noteq> Inr (s1, RETRY)) \<Longrightarrow> Q s"
  shows "Q s"
proof -
  have "ro' = ro \<longrightarrow> y' = y \<longrightarrow> Q s'" if "stable_tree_search_retry ro' s' = Some y'" for ro' s' y'
    using that
  proof (rule stable_tree_search_retry.raw_induct
      [where P = "\<lambda>ro' s' y'. ro' = ro \<longrightarrow> y' = y \<longrightarrow> Q s'", rotated])
    fix rec :: "nat option \<Rightarrow> state \<Rightarrow> (fault + state \<times> nat option) option"
    fix r0 s0 y0
    assume IH: "\<And>r1 s1 y1. rec r1 s1 = Some y1 \<Longrightarrow> r1 = ro \<longrightarrow> y1 = y \<longrightarrow> Q s1"
    assume body: "(case stable_tree_search_walk s0 r0 (root_stable_tree s0) of
        Inl f \<Rightarrow> Some (Inl f)
      | Inr (s1, d) \<Rightarrow>
          (case d of
             RETRY \<Rightarrow> rec r0 s1
           | RETURN x \<Rightarrow> Some (Inr (s1, x))
           | SLOT ds \<Rightarrow> Some (Inr (s1, None)))) = Some y0"
    show "r0 = ro \<longrightarrow> y0 = y \<longrightarrow> Q s0"
    proof (intro impI)
      assume e: "r0 = ro" "y0 = y"
      show "Q s0"
      proof (cases "\<exists>s1. stable_tree_search_walk s0 ro (root_stable_tree s0) = Inr (s1, RETRY)")
        case True
        then obtain s1 where w: "stable_tree_search_walk s0 ro (root_stable_tree s0) = Inr (s1, RETRY)"
          by blast
        with body e have "rec ro s1 = Some y" by simp
        from IH [OF this] have "Q s1" by simp
        with w show ?thesis by (rule retry)
      next
        case False
        have "stable_tree_search_retry ro s0 = Some y"
        proof (cases "stable_tree_search_walk s0 ro (root_stable_tree s0)")
          case (Inl f)
          with body [unfolded e] show ?thesis by (subst stable_tree_search_retry.simps) simp
        next
          case (Inr sd)
          obtain s1 d where sd: "sd = (s1, d)" by (cases sd)
          with False Inr have "d \<noteq> RETRY" by auto
          with body [unfolded e] Inr sd show ?thesis
            by (subst stable_tree_search_retry.simps) (cases d; simp)
        qed
        with False show ?thesis by (intro final) auto
      qed
    qed
  qed
  with ret show ?thesis by blast
qed

lemma stable_insert_retry_induct:
  assumes ret: "stable_tree_insert ri kp s = Some y"
    and retry: "\<And>s s1. stable_tree_insert_walk s ri [] (root_stable_tree s) = (s1, RETRY) \<Longrightarrow>
                  Q s1 \<Longrightarrow> Q s"
    and final: "\<And>s. stable_tree_insert ri kp s = Some y \<Longrightarrow>
                  (\<forall>s1. stable_tree_insert_walk s ri [] (root_stable_tree s) \<noteq> (s1, RETRY)) \<Longrightarrow> Q s"
  shows "Q s"
proof -
  have "ri' = ri \<longrightarrow> kp' = kp \<longrightarrow> y' = y \<longrightarrow> Q s'"
    if "stable_tree_insert ri' kp' s' = Some y'" for ri' kp' s' y'
    using that
  proof (rule stable_tree_insert.raw_induct
      [where P = "\<lambda>ri' kp' s' y'. ri' = ri \<longrightarrow> kp' = kp \<longrightarrow> y' = y \<longrightarrow> Q s'", rotated])
    fix rec :: "nat \<Rightarrow> nat \<Rightarrow> state \<Rightarrow> (fault + state \<times> int) option"
    fix r0 k0 s0 y0
    assume IH: "\<And>r1 k1 s1 y1. rec r1 k1 s1 = Some y1 \<Longrightarrow>
                  r1 = ri \<longrightarrow> k1 = kp \<longrightarrow> y1 = y \<longrightarrow> Q s1"
    assume body: "(case stable_tree_insert_walk s0 r0 [] (root_stable_tree s0) of
        (s1, d) \<Rightarrow>
          (case d of
             RETRY \<Rightarrow> rec r0 k0 s1
           | RETURN x \<Rightarrow> Some (Inr (s1, x))
           | SLOT ds \<Rightarrow>
               if has_flag (rmaps s1 r0) UNSTABLE_FLAG then Some (Inl BUG)
               else if has_flag (rmaps s1 r0) STABLE_FLAG then Some (Inl BUG)
               else
                 (let s2 = (upd_rmap r0 (\<lambda>it. it\<lparr>rb_linked := True\<rparr>) s1)
                             \<lparr>root_stable_tree := rb_link_node r0 ds (root_stable_tree s1)\<rparr>;
                      s3 = set_page_stable_ksm s2 k0 (Some r0);
                      s4 = upd_rmap r0 (set_flag STABLE_FLAG) s3
                  in Some (Inr (s4, 0))))) = Some y0"
    show "r0 = ri \<longrightarrow> k0 = kp \<longrightarrow> y0 = y \<longrightarrow> Q s0"
    proof (intro impI)
      assume e: "r0 = ri" "k0 = kp" "y0 = y"
      show "Q s0"
      proof (cases "\<exists>s1. stable_tree_insert_walk s0 ri [] (root_stable_tree s0) = (s1, RETRY)")
        case True
        then obtain s1 where w: "stable_tree_insert_walk s0 ri [] (root_stable_tree s0) = (s1, RETRY)"
          by blast
        with body e have "rec ri kp s1 = Some y" by simp
        from IH [OF this] have "Q s1" by simp
        with w show ?thesis by (rule retry)
      next
        case False
        have "stable_tree_insert ri kp s0 = Some y"
        proof -
          obtain s1 d where sd: "stable_tree_insert_walk s0 ri [] (root_stable_tree s0) = (s1, d)"
            by (cases "stable_tree_insert_walk s0 ri [] (root_stable_tree s0)")
          with False have "d \<noteq> RETRY" by auto
          with body [unfolded e] sd show ?thesis
            by (subst stable_tree_insert.simps) (cases d; simp)
        qed
        with False show ?thesis by (intro final) auto
      qed
    qed
  qed
  with ret show ?thesis by blast
qed

lemma unstable_retry_induct:
  assumes ret: "unstable_tree_retry ri p s = Some y"
    and retry: "\<And>s s1. unstable_tree_walk s ri p [] (root_unstable_tree s) = Inr (s1, RETRY) \<Longrightarrow>
                  Q s1 \<Longrightarrow> Q s"
    and final: "\<And>s. unstable_tree_retry ri p s = Some y \<Longrightarrow>
                  (\<forall>s1. unstable_tree_walk s ri p [] (root_unstable_tree s) \<noteq> Inr (s1, RETRY)) \<Longrightarrow> Q s"
  shows "Q s"
proof -
  have "ri' = ri \<longrightarrow> p' = p \<longrightarrow> y' = y \<longrightarrow> Q s'"
    if "unstable_tree_retry ri' p' s' = Some y'" for ri' p' s' y'
    using that
  proof (rule unstable_tree_retry.raw_induct
      [where P = "\<lambda>ri' p' s' y'. ri' = ri \<longrightarrow> p' = p \<longrightarrow> y' = y \<longrightarrow> Q s'", rotated])
    fix rec :: "nat \<Rightarrow> nat \<Rightarrow> state \<Rightarrow> (fault + state \<times> (nat \<times> nat) option) option"
    fix r0 p0 s0 y0
    assume IH: "\<And>r1 p1 s1 y1. rec r1 p1 s1 = Some y1 \<Longrightarrow>
                  r1 = ri \<longrightarrow> p1 = p \<longrightarrow> y1 = y \<longrightarrow> Q s1"
    assume body: "(case unstable_tree_walk s0 r0 p0 [] (root_unstable_tree s0) of
        Inl f \<Rightarrow> Some (Inl f)
      | Inr (s1, d) \<Rightarrow>
          (case d of
             RETRY \<Rightarrow> rec r0 p0 s1
           | RETURN x \<Rightarrow> Some (Inr (s1, x))
           | SLOT ds \<Rightarrow>
               if Some r0 \<noteq> pksm (pages s1 p0) then Some (Inl BUG)
               else if has_flag (rmaps s1 r0) UNSTABLE_FLAG then Some (Inl BUG)
               else if has_flag (rmaps s1 r0) STABLE_FLAG then Some (Inl BUG)
               else
                 (let s2 = upd_rmap r0 (set_flag UNSTABLE_FLAG) s1;
                      s3 = (upd_rmap r0 (\<lambda>it. it\<lparr>rb_linked := True\<rparr>) s2)
                             \<lparr>root_unstable_tree := rb_link_node r0 ds (root_unstable_tree s2),
                              ksm_pages_unshared := ksm_pages_unshared s2 + 1\<rparr>;
                      s4 = s3\<lparr>unstabletree_checksum_list :=
                                 list_add_tail r0 (unstabletree_checksum_list s3)\<rparr>;
                      s5 = upd_rmap r0 (set_flag CHECKSUM_LIST_FLAG) s4
                  in Some (Inr (s5, None))))) = Some y0"
    show "r0 = ri \<longrightarrow> p0 = p \<longrightarrow> y0 = y \<longrightarrow> Q s0"
    proof (intro impI)
      assume e: "r0 = ri" "p0 = p" "y0 = y"
      show "Q s0"
      proof (cases "\<exists>s1. unstable_tree_walk s0 ri p [] (root_unstable_tree s0) = Inr (s1, RETRY)")
        case True
        then obtain s1 where w: "unstable_tree_walk s0 ri p [] (root_unstable_tree s0) = Inr (s1, RETRY)"
          by blast
        with body e have "rec ri p s1 = Some y" by simp
        from IH [OF this] have "Q s1" by simp
        with w show ?thesis by (rule retry)
      next
        case False
        have "unstable_tree_retry ri p s0 = Some y"
        proof (cases "unstable_tree_walk s0 ri p [] (root_unstable_tree s0)")
          case (Inl f)
          with body [unfolded e] show ?thesis by (subst unstable_tree_retry.simps) simp
        next
          case (Inr sd)
          obtain s1 d where sd: "sd = (s1, d)" by (cases sd)
          with False Inr have "d \<noteq> RETRY" by auto
          with body [unfolded e] Inr sd show ?thesis
            by (subst unstable_tree_retry.simps) (cases d; simp)
        qed
        with False show ?thesis by (intro final) auto
      qed
    qed
  qed
  with ret show ?thesis by blast
qed

lemma remove_trees_keep_others:
  "q \<noteq> m \<Longrightarrow> q \<in> set_tree (root_stable_tree s) \<Longrightarrow>
     q \<in> set_tree (root_stable_tree (remove_rmap_item_from_tree s (Some m) False))"
  "q \<noteq> m \<Longrightarrow> q \<in> set_tree (root_unstable_tree s) \<Longrightarrow>
     q \<in> set_tree (root_unstable_tree (remove_rmap_item_from_tree s (Some m) False))"
  using rb_erase_other [of q m]
  by (auto simp: remove_rmap_item_from_tree_def Let_def upd_rmap_def simp del: set_inorder)

lemma doomed_remove:
  "doomed (remove_rmap_item_from_tree s ro False) q = doomed s q"
  by (simp add: doomed_def remove_frame)

lemma doomed_refs_only: "refs_only s s' \<Longrightarrow> doomed s' q = doomed s q"
  by (simp add: doomed_def refs_only_fields(1))

text \<open>After a pass that ends in a retry, a node missing from either tree is the doomed node
  the pass evicted; doom is not changed by a pass.\<close>

lemma walk_ok_retry_evicted:
  assumes w: "walk_ok s t s1 RETRY"
  shows "(\<forall>q. doomed s1 q = doomed s q) \<and>
         (\<forall>q \<in> set_tree (root_stable_tree s) - set_tree (root_stable_tree s1). doomed s q) \<and>
         (\<forall>q \<in> set_tree (root_unstable_tree s) - set_tree (root_unstable_tree s1). doomed s q)"
proof -
  from w obtain m s0 where d: "doomed s m" and r0: "refs_only s s0"
    and e: "s1 = remove_rmap_item_from_tree s0 (Some m) False"
    unfolding walk_ok_def doomed_def by auto
  have a: "\<forall>q. doomed s1 q = doomed s q"
    by (simp add: e doomed_remove doomed_refs_only [OF r0])
  have b: "q = m" if "q \<in> set_tree (root_stable_tree s) - set_tree (root_stable_tree s1)" for q
    using that remove_trees_keep_others(1) [of q m s0] refs_only_fields(2) [OF r0] e
    by (auto simp del: set_inorder)
  have c: "q = m" if "q \<in> set_tree (root_unstable_tree s) - set_tree (root_unstable_tree s1)" for q
    using that remove_trees_keep_others(2) [of q m s0] refs_only_fields(3) [OF r0] e
    by (auto simp del: set_inorder)
  from a b c d show ?thesis by blast
qed

lemma set_tree_rb_link_node: "set_tree t \<subseteq> set_tree (rb_link_node x ds t)"
  by (induction x ds t rule: rb_link_node.induct) auto

lemma rb_link_node_mem: "q \<in> set_tree t \<Longrightarrow> q \<in> set_tree (rb_link_node x ds t)"
  using set_tree_rb_link_node [of t x ds] by blast

lemma stable_search_only_evicts_doomed:
  assumes "stable_tree_search_retry ro s = Some (Inr (s', res))"
  shows "\<forall>q \<in> set_tree (root_stable_tree s) - set_tree (root_stable_tree s'). doomed s q"
  using assms
proof (rule stable_search_retry_induct)
  fix s s1
  assume w: "stable_tree_search_walk s ro (root_stable_tree s) = Inr (s1, RETRY)"
    and q: "\<forall>q \<in> set_tree (root_stable_tree s1) - set_tree (root_stable_tree s'). doomed s1 q"
  from walk_ok_retry_evicted [OF stable_search_walk_ok [OF w]] q
  show "\<forall>q \<in> set_tree (root_stable_tree s) - set_tree (root_stable_tree s'). doomed s q"
    by (auto simp del: set_inorder)
next
  fix s
  assume r: "stable_tree_search_retry ro s = Some (Inr (s', res))"
    and n: "\<forall>s1. stable_tree_search_walk s ro (root_stable_tree s) \<noteq> Inr (s1, RETRY)"
  have "refs_only s s'"
  proof (cases "stable_tree_search_walk s ro (root_stable_tree s)")
    case (Inl f)
    with r show ?thesis by (subst (asm) stable_tree_search_retry.simps) simp
  next
    case (Inr sd)
    obtain s1 d where sd: "sd = (s1, d)" by (cases sd)
    with n Inr have nr: "d \<noteq> RETRY" by auto
    from stable_search_walk_ok [OF Inr [unfolded sd]] nr have "refs_only s s1"
      by (simp add: walk_ok_def)
    moreover from r Inr sd nr have "s' = s1"
      by (subst (asm) stable_tree_search_retry.simps) (cases d; simp)
    ultimately show ?thesis by simp
  qed
  from refs_only_fields(2) [OF this]
  show "\<forall>q \<in> set_tree (root_stable_tree s) - set_tree (root_stable_tree s'). doomed s q"
    by simp
qed

lemma stable_insert_only_evicts_doomed:
  assumes "stable_tree_insert ri kp s = Some (Inr (s', res))"
  shows "\<forall>q \<in> set_tree (root_stable_tree s) - set_tree (root_stable_tree s'). doomed s q"
  using assms
proof (rule stable_insert_retry_induct)
  fix s s1
  assume w: "stable_tree_insert_walk s ri [] (root_stable_tree s) = (s1, RETRY)"
    and q: "\<forall>q \<in> set_tree (root_stable_tree s1) - set_tree (root_stable_tree s'). doomed s1 q"
  from walk_ok_retry_evicted [OF stable_insert_walk_ok [OF w]] q
  show "\<forall>q \<in> set_tree (root_stable_tree s) - set_tree (root_stable_tree s'). doomed s q"
    by (auto simp del: set_inorder)
next
  fix s
  assume r: "stable_tree_insert ri kp s = Some (Inr (s', res))"
    and n: "\<forall>s1. stable_tree_insert_walk s ri [] (root_stable_tree s) \<noteq> (s1, RETRY)"
  obtain s1 d where sd: "stable_tree_insert_walk s ri [] (root_stable_tree s) = (s1, d)"
    by (cases "stable_tree_insert_walk s ri [] (root_stable_tree s)")
  with n have nr: "d \<noteq> RETRY" by auto
  from stable_insert_walk_ok [OF sd] nr have ro: "refs_only s s1"
    by (simp add: walk_ok_def)
  have "set_tree (root_stable_tree s1) \<subseteq> set_tree (root_stable_tree s')"
    using r sd nr
    by (subst (asm) stable_tree_insert.simps)
       (cases d; auto simp: Let_def upd_rmap_def set_page_stable_ksm_def upd_page_def
          split: if_splits simp del: set_inorder intro: rb_link_node_mem)
  with refs_only_fields(2) [OF ro]
  show "\<forall>q \<in> set_tree (root_stable_tree s) - set_tree (root_stable_tree s'). doomed s q"
    by (auto simp del: set_inorder)
qed

lemma unstable_only_evicts_doomed:
  assumes "unstable_tree_retry ri p s = Some (Inr (s', res))"
  shows "\<forall>q \<in> set_tree (root_unstable_tree s) - set_tree (root_unstable_tree s'). doomed s q"
  using assms
proof (rule unstable_retry_induct)
  fix s s1
  assume w: "unstable_tree_walk s ri p [] (root_unstable_tree s) = Inr (s1, RETRY)"
    and q: "\<forall>q \<in> set_tree (root_unstable_tree s1) - set_tree (root_unstable_tree s'). doomed s1 q"
  from walk_ok_retry_evicted [OF unstable_walk_ok [OF w]] q
  show "\<forall>q \<in> set_tree (root_unstable_tree s) - set_tree (root_unstable_tree s'). doomed s q"
    by (auto simp del: set_inorder)
next
  fix s
  assume r: "unstable_tree_retry ri p s = Some (Inr (s', res))"
    and n: "\<forall>s1. unstable_tree_walk s ri p [] (root_unstable_tree s) \<noteq> Inr (s1, RETRY)"
  have "set_tree (root_unstable_tree s) \<subseteq> set_tree (root_unstable_tree s')"
  proof (cases "unstable_tree_walk s ri p [] (root_unstable_tree s)")
    case (Inl f)
    with r show ?thesis by (subst (asm) unstable_tree_retry.simps) simp
  next
    case (Inr sd)
    obtain s1 d where sd: "sd = (s1, d)" by (cases sd)
    with n Inr have nr: "d \<noteq> RETRY" by auto
    from unstable_walk_ok [OF Inr [unfolded sd]] nr have ro: "refs_only s s1"
      by (simp add: walk_ok_def)
    have "set_tree (root_unstable_tree s1) \<subseteq> set_tree (root_unstable_tree s')"
      using r Inr sd nr
      by (subst (asm) unstable_tree_retry.simps)
         (cases d; auto simp: Let_def upd_rmap_def split: if_splits simp del: set_inorder
            intro: rb_link_node_mem)
    with refs_only_fields(3) [OF ro] show ?thesis by simp
  qed
  then show "\<forall>q \<in> set_tree (root_unstable_tree s) - set_tree (root_unstable_tree s'). doomed s q"
    by (auto simp del: set_inorder)
qed

subsection \<open>Checksum list invariant\<close>

lemma checksum_list_inv_refs_only:
  assumes "refs_only s s'" and "checksum_list_inv s"
  shows "checksum_list_inv s'"
  using assms(2) unfolding checksum_list_inv_def refs_only_fields [OF assms(1)] .

lemma unstable_walk_slot:
  "unstable_tree_walk s ri p ds t = Inr (s1, SLOT ds') \<Longrightarrow>
     \<exists>es. ds' = ds @ es \<and> x \<in> set_tree (rb_link_node x es t)"
proof (induction s ri p ds t rule: unstable_tree_walk.induct)
  case (1 s ri p ds)
  then show ?case by simp
next
  case (2 s ri p ds l t r)
  show ?case
  proof (cases "get_mergeable_page s (Some t)")
    case (Pair sg o1)
    show ?thesis
    proof (cases o1)
      case None
      with 2(3) Pair show ?thesis by (simp split: if_splits)
    next
      case (Some tp)
      let ?s1 = "put_page sg tp"
      let ?ret = "hash_cmp (checksum (rmaps sg ri)) (checksum (rmaps sg t))"
      from 2(3) Pair Some have c: "Some ri = pksm (pages s p)"
        "\<not> (has_flag (rmaps s t) DELLIST_FLAG \<or> page (rmaps s t) = None)"
        "\<not> Some t \<noteq> pksm (pages sg tp)" "p \<noteq> tp"
        by (auto split: if_splits)
      from 2(3) Pair Some c have w: "(if ?ret < 0 then unstable_tree_walk ?s1 ri p (ds @ [False]) l
            else if 0 < ?ret then unstable_tree_walk ?s1 ri p (ds @ [True]) r
            else Inr (sg, RETURN (Some (t, tp)))) = Inr (s1, SLOT ds')"
        by (simp add: Let_def)
      show ?thesis
      proof (cases "?ret < 0")
        case True
        with w have "unstable_tree_walk ?s1 ri p (ds @ [False]) l = Inr (s1, SLOT ds')" by simp
        from 2(1) [OF _ c(2) Pair [symmetric] Some c(3) c(4) refl True this] c(1)
        obtain es where "ds' = (ds @ [False]) @ es" "x \<in> set_tree (rb_link_node x es l)" by auto
        then have "ds' = ds @ (False # es) \<and> x \<in> set_tree (rb_link_node x (False # es) (Node l t r))"
          by simp
        then show ?thesis by blast
      next
        case False
        show ?thesis
        proof (cases "0 < ?ret")
          case True
          with w False have "unstable_tree_walk ?s1 ri p (ds @ [True]) r = Inr (s1, SLOT ds')" by simp
          from 2(2) [OF _ c(2) Pair [symmetric] Some c(3) c(4) refl False True this] c(1)
          obtain es where "ds' = (ds @ [True]) @ es" "x \<in> set_tree (rb_link_node x es r)" by auto
          then have "ds' = ds @ (True # es) \<and> x \<in> set_tree (rb_link_node x (True # es) (Node l t r))"
            by simp
          then show ?thesis by blast
        next
          case nz: False
          with w False show ?thesis by simp
        qed
      qed
    qed
  qed
qed

lemma checksum_list_inv_link:
  assumes "checksum_list_inv s1" and "ri \<in> set_tree (rb_link_node ri ds (root_unstable_tree s1))"
  shows "checksum_list_inv
    (upd_rmap ri (set_flag CHECKSUM_LIST_FLAG)
      (((upd_rmap ri (\<lambda>it. it\<lparr>rb_linked := True\<rparr>) (upd_rmap ri (set_flag UNSTABLE_FLAG) s1))
          \<lparr>root_unstable_tree := rb_link_node ri ds (root_unstable_tree (upd_rmap ri (set_flag UNSTABLE_FLAG) s1)),
           ksm_pages_unshared := ksm_pages_unshared (upd_rmap ri (set_flag UNSTABLE_FLAG) s1) + 1\<rparr>)
        \<lparr>unstabletree_checksum_list :=
           list_add_tail ri (unstabletree_checksum_list
             ((upd_rmap ri (\<lambda>it. it\<lparr>rb_linked := True\<rparr>) (upd_rmap ri (set_flag UNSTABLE_FLAG) s1))
          \<lparr>root_unstable_tree := rb_link_node ri ds (root_unstable_tree (upd_rmap ri (set_flag UNSTABLE_FLAG) s1)),
           ksm_pages_unshared := ksm_pages_unshared (upd_rmap ri (set_flag UNSTABLE_FLAG) s1) + 1\<rparr>))\<rparr>))"
  using assms
  apply (simp add: checksum_list_inv_def upd_rmap_def list_add_tail_def list_all_iff)
  apply (auto simp: flag_simps intro: rb_link_node_mem)
  done

lemma unstable_insert_inv:
  assumes ret: "unstable_tree_retry ri p s = Some y"
  shows "checksum_list_inv s \<longrightarrow> (\<forall>s' res. y = Inr (s', res) \<longrightarrow> checksum_list_inv s')"
proof (rule unstable_retry_induct [OF ret])
  fix s s1
  assume w: "unstable_tree_walk s ri p [] (root_unstable_tree s) = Inr (s1, RETRY)"
    and IH: "checksum_list_inv s1 \<longrightarrow> (\<forall>s' res. y = Inr (s', res) \<longrightarrow> checksum_list_inv s')"
  from unstable_walk_ok [OF w] obtain m s0 where r0: "refs_only s s0"
    and e: "s1 = remove_rmap_item_from_tree s0 (Some m) False"
    unfolding walk_ok_def by auto
  show "checksum_list_inv s \<longrightarrow> (\<forall>s' res. y = Inr (s', res) \<longrightarrow> checksum_list_inv s')"
  proof
    assume "checksum_list_inv s"
    from checksum_list_inv_remove [OF checksum_list_inv_refs_only [OF r0 this]] e
    have "checksum_list_inv s1" by simp
    with IH show "\<forall>s' res. y = Inr (s', res) \<longrightarrow> checksum_list_inv s'" by simp
  qed
next
  fix s
  assume body: "unstable_tree_retry ri p s = Some y"
    and nr: "\<forall>s1. unstable_tree_walk s ri p [] (root_unstable_tree s) \<noteq> Inr (s1, RETRY)"
  show "checksum_list_inv s \<longrightarrow> (\<forall>s' res. y = Inr (s', res) \<longrightarrow> checksum_list_inv s')"
  proof (intro impI allI)
    fix s' res
    assume inv: "checksum_list_inv s" and y: "y = Inr (s', res)"
    show "checksum_list_inv s'"
    proof (cases "unstable_tree_walk s ri p [] (root_unstable_tree s)")
      case (Inl f)
      with body y show ?thesis by (subst (asm) unstable_tree_retry.simps) simp
    next
      case (Inr b)
      obtain s1 d where b: "b = (s1, d)" by (cases b)
      with Inr have w: "unstable_tree_walk s ri p [] (root_unstable_tree s) = Inr (s1, d)" by simp
      with nr have d: "d \<noteq> RETRY" by auto
      with unstable_walk_ok [OF w] have ro: "refs_only s s1" by (simp add: walk_ok_def)
      from checksum_list_inv_refs_only [OF ro inv] have i1: "checksum_list_inv s1" .
      show ?thesis
      proof (cases d)
        case RETRY
        with d show ?thesis by simp
      next
        case (RETURN x)
        with body y w i1 show ?thesis by (subst (asm) unstable_tree_retry.simps) simp
      next
        case (SLOT ds)
        from unstable_walk_slot [OF w [unfolded SLOT], of ri]
        have m: "ri \<in> set_tree (rb_link_node ri ds (root_unstable_tree s1))"
          by (simp add: refs_only_fields(3) [OF ro])
        from body y w SLOT checksum_list_inv_link [OF i1 m]
        show ?thesis
          by (subst (asm) unstable_tree_retry.simps) (auto simp: Let_def split: if_splits)
      qed
    qed
  qed
qed

text \<open>The checksum list after \<^verbatim>\<open>remove_rmap_item_from_tree\<close>, for every call.\<close>

lemma remove_checksum_list:
  "unstabletree_checksum_list (remove_rmap_item_from_tree s (Some r) fa)
     = (if \<not> has_flag (rmaps s r) STABLE_FLAG \<and> has_flag (rmaps s r) UNSTABLE_FLAG \<and>
           has_flag (rmaps s r) CHECKSUM_LIST_FLAG
        then removeAll r (unstabletree_checksum_list s)
        else unstabletree_checksum_list s)"
  unfolding remove_free_anon_irrelevant(3) [of s "Some r" fa]
  by (simp add: remove_rmap_item_from_tree_def Let_def upd_rmap_def list_del_def flag_simps)

lemma remove_checksum_flag:
  "has_flag (rmaps (remove_rmap_item_from_tree s (Some r) fa) r) CHECKSUM_LIST_FLAG
     = (has_flag (rmaps s r) CHECKSUM_LIST_FLAG \<and>
        (has_flag (rmaps s r) STABLE_FLAG \<or> \<not> has_flag (rmaps s r) UNSTABLE_FLAG))"
proof -
  have "has_flag (rmaps (remove_rmap_item_from_tree s (Some r) fa) r) CHECKSUM_LIST_FLAG
      = has_flag (rmaps (remove_rmap_item_from_tree s (Some r) False) r) CHECKSUM_LIST_FLAG"
    by (rule has_flag_address) (rule remove_free_anon_irrelevant(4))
  also have "\<dots> = (has_flag (rmaps s r) CHECKSUM_LIST_FLAG \<and>
        (has_flag (rmaps s r) STABLE_FLAG \<or> \<not> has_flag (rmaps s r) UNSTABLE_FLAG))"
    by (auto simp: remove_rmap_item_from_tree_def Let_def upd_rmap_def flag_simps)
  finally show ?thesis .
qed

lemma remove_tree_changed_flags:
  assumes "root_unstable_tree (remove_rmap_item_from_tree s (Some r) fa) \<noteq> root_unstable_tree s"
  shows "\<not> has_flag (rmaps s r) STABLE_FLAG" "has_flag (rmaps s r) UNSTABLE_FLAG"
  using assms unfolding remove_free_anon_irrelevant(1) [of s "Some r" fa]
  by (auto simp: remove_rmap_item_from_tree_def Let_def upd_rmap_def split: if_splits)

lemma remove_from_unstable_list:
  assumes inv: "checksum_list_inv s"
    and ch: "root_unstable_tree (remove_rmap_item_from_tree s (Some r) fa) \<noteq> root_unstable_tree s"
  shows "unstabletree_checksum_list (remove_rmap_item_from_tree s (Some r) fa)
           = removeAll r (unstabletree_checksum_list s)"
proof (cases "has_flag (rmaps s r) CHECKSUM_LIST_FLAG")
  case True
  with remove_tree_changed_flags [OF ch] show ?thesis by (simp add: remove_checksum_list)
next
  case False
  with inv have "r \<notin> set (unstabletree_checksum_list s)"
    by (auto simp: checksum_list_inv_def list_all_iff simp del: set_inorder)
  with False show ?thesis by (simp add: remove_checksum_list)
qed

text \<open>The checksum list across an inserting descent: the entries evicted on the way are
  dropped, the others stay in their order, and the new item is the last entry.\<close>

lemma filter_filter_not_in:
  "filter (\<lambda>q. q \<notin> A) (filter (\<lambda>q. q \<notin> B) xs) = filter (\<lambda>q. q \<notin> A \<union> B) xs"
  by (induction xs) auto

lemma removeAll_filter_not_in: "removeAll m xs = filter (\<lambda>q. q \<notin> {m}) xs"
  by (induction xs) auto

lemma walk_retry_list:
  assumes w: "walk_ok s (root_unstable_tree s) s1 RETRY"
  shows "\<exists>E. E \<subseteq> {q \<in> set_tree (root_unstable_tree s). doomed s q} \<and>
              unstabletree_checksum_list s1 = filter (\<lambda>q. q \<notin> E) (unstabletree_checksum_list s)"
proof -
  from w obtain m s0 where m: "m \<in> set_tree (root_unstable_tree s)" and d: "doomed s m"
    and r0: "refs_only s s0" and e: "s1 = remove_rmap_item_from_tree s0 (Some m) False"
    unfolding walk_ok_def doomed_def by auto
  have l0: "unstabletree_checksum_list s0 = unstabletree_checksum_list s"
    by (rule refs_only_fields(4) [OF r0])
  show ?thesis
  proof (cases "unstabletree_checksum_list s1 = unstabletree_checksum_list s0")
    case True
    have "unstabletree_checksum_list s1 = filter (\<lambda>q. q \<notin> {}) (unstabletree_checksum_list s)"
      by (simp add: True l0)
    then show ?thesis by blast
  next
    case False
    with e have "unstabletree_checksum_list s1 = removeAll m (unstabletree_checksum_list s0)"
      by (simp add: remove_checksum_list split: if_splits)
    then have "unstabletree_checksum_list s1
        = filter (\<lambda>q. q \<notin> {m}) (unstabletree_checksum_list s)"
      by (simp add: l0 removeAll_filter_not_in)
    moreover from m d have "{m} \<subseteq> {q \<in> set_tree (root_unstable_tree s). doomed s q}" by simp
    ultimately show ?thesis by blast
  qed
qed

lemma unstable_insert_list_frame:
  assumes "unstable_tree_retry ri p s = Some y"
  shows "\<forall>s' res. y = Inr (s', res) \<longrightarrow> ri \<notin> set_tree (root_unstable_tree s) \<longrightarrow>
           ri \<in> set_tree (root_unstable_tree s') \<longrightarrow>
           (\<exists>E. E \<subseteq> {q \<in> set_tree (root_unstable_tree s). doomed s q} \<and>
                unstabletree_checksum_list s'
                  = filter (\<lambda>q. q \<notin> E) (unstabletree_checksum_list s) @ [ri])"
proof (rule unstable_retry_induct [OF assms])
  fix s s1
  assume w: "unstable_tree_walk s ri p [] (root_unstable_tree s) = Inr (s1, RETRY)"
    and IH: "\<forall>s' res. y = Inr (s', res) \<longrightarrow> ri \<notin> set_tree (root_unstable_tree s1) \<longrightarrow>
           ri \<in> set_tree (root_unstable_tree s') \<longrightarrow>
           (\<exists>E. E \<subseteq> {q \<in> set_tree (root_unstable_tree s1). doomed s1 q} \<and>
                unstabletree_checksum_list s'
                  = filter (\<lambda>q. q \<notin> E) (unstabletree_checksum_list s1) @ [ri])"
  note ok = unstable_walk_ok [OF w]
  from walk_retry_list [OF ok] obtain E1 where
    e1: "E1 \<subseteq> {q \<in> set_tree (root_unstable_tree s). doomed s q}"
    and l1: "unstabletree_checksum_list s1 = filter (\<lambda>q. q \<notin> E1) (unstabletree_checksum_list s)"
    by blast
  from walk_ok_unstable_tree(1) [OF ok]
  have sub: "set_tree (root_unstable_tree s1) \<subseteq> set_tree (root_unstable_tree s)" .
  from walk_ok_retry_evicted [OF ok] have dm: "\<And>q. doomed s1 q = doomed s q" by simp
  show "\<forall>s' res. y = Inr (s', res) \<longrightarrow> ri \<notin> set_tree (root_unstable_tree s) \<longrightarrow>
           ri \<in> set_tree (root_unstable_tree s') \<longrightarrow>
           (\<exists>E. E \<subseteq> {q \<in> set_tree (root_unstable_tree s). doomed s q} \<and>
                unstabletree_checksum_list s'
                  = filter (\<lambda>q. q \<notin> E) (unstabletree_checksum_list s) @ [ri])"
  proof (intro allI impI)
    fix s' res
    assume y: "y = Inr (s', res)" and n: "ri \<notin> set_tree (root_unstable_tree s)"
      and i: "ri \<in> set_tree (root_unstable_tree s')"
    from n sub have "ri \<notin> set_tree (root_unstable_tree s1)" by blast
    with IH y i obtain E2 where
      e2: "E2 \<subseteq> {q \<in> set_tree (root_unstable_tree s1). doomed s1 q}"
      and l2: "unstabletree_checksum_list s'
                  = filter (\<lambda>q. q \<notin> E2) (unstabletree_checksum_list s1) @ [ri]"
      by blast
    from e1 e2 sub dm have "E2 \<union> E1 \<subseteq> {q \<in> set_tree (root_unstable_tree s). doomed s q}"
      by auto
    moreover have "unstabletree_checksum_list s'
        = filter (\<lambda>q. q \<notin> E2 \<union> E1) (unstabletree_checksum_list s) @ [ri]"
      unfolding l2 l1 filter_filter_not_in by (rule refl)
    ultimately show "\<exists>E. E \<subseteq> {q \<in> set_tree (root_unstable_tree s). doomed s q} \<and>
                unstabletree_checksum_list s'
                  = filter (\<lambda>q. q \<notin> E) (unstabletree_checksum_list s) @ [ri]"
      by blast
  qed
next
  fix s
  assume body: "unstable_tree_retry ri p s = Some y"
    and nr: "\<forall>s1. unstable_tree_walk s ri p [] (root_unstable_tree s) \<noteq> Inr (s1, RETRY)"
  show "\<forall>s' res. y = Inr (s', res) \<longrightarrow> ri \<notin> set_tree (root_unstable_tree s) \<longrightarrow>
           ri \<in> set_tree (root_unstable_tree s') \<longrightarrow>
           (\<exists>E. E \<subseteq> {q \<in> set_tree (root_unstable_tree s). doomed s q} \<and>
                unstabletree_checksum_list s'
                  = filter (\<lambda>q. q \<notin> E) (unstabletree_checksum_list s) @ [ri])"
  proof (intro allI impI)
    fix s' res
    assume y: "y = Inr (s', res)" and n: "ri \<notin> set_tree (root_unstable_tree s)"
      and i: "ri \<in> set_tree (root_unstable_tree s')"
    have "unstabletree_checksum_list s' = unstabletree_checksum_list s @ [ri]"
    proof (cases "unstable_tree_walk s ri p [] (root_unstable_tree s)")
      case (Inl f)
      with body y show ?thesis by (subst (asm) unstable_tree_retry.simps) simp
    next
      case (Inr b)
      obtain s1 d where b: "b = (s1, d)" by (cases b)
      with Inr have w: "unstable_tree_walk s ri p [] (root_unstable_tree s) = Inr (s1, d)" by simp
      with nr have d: "d \<noteq> RETRY" by auto
      with unstable_walk_ok [OF w] have ro: "refs_only s s1" by (simp add: walk_ok_def)
      note f = refs_only_fields(3,4) [OF ro]
      show ?thesis
      proof (cases d)
        case RETRY
        with d show ?thesis by simp
      next
        case (RETURN x)
        with body y w have "s' = s1" by (subst (asm) unstable_tree_retry.simps) simp
        with f n i show ?thesis by simp
      next
        case (SLOT ds)
        from body y w SLOT f show ?thesis
          by (subst (asm) unstable_tree_retry.simps)
            (auto simp: Let_def upd_rmap_def list_add_tail_def split: if_splits)
      qed
    qed
    then have "unstabletree_checksum_list s'
        = filter (\<lambda>q. q \<notin> {}) (unstabletree_checksum_list s) @ [ri]" by simp
    then show "\<exists>E. E \<subseteq> {q \<in> set_tree (root_unstable_tree s). doomed s q} \<and>
                unstabletree_checksum_list s'
                  = filter (\<lambda>q. q \<notin> E) (unstabletree_checksum_list s) @ [ri]"
      by blast
  qed
qed

lemma unstable_tree_wf_refs_only:
  assumes "refs_only s s'" and "unstable_tree_wf s"
  shows "unstable_tree_wf s'"
  using assms(2) unfolding unstable_tree_wf_def refs_only_fields [OF assms(1)] .

lemma unstable_tree_wf_remove:
  assumes wf: "unstable_tree_wf s" and m: "m \<in> set_tree (root_unstable_tree s)"
  shows "unstable_tree_wf (remove_rmap_item_from_tree s (Some m) False)"
    and "set_tree (root_unstable_tree (remove_rmap_item_from_tree s (Some m) False))
           = set_tree (root_unstable_tree s) - {m}"
proof -
  let ?t = "root_unstable_tree s"
  let ?s1 = "remove_rmap_item_from_tree s (Some m) False"
  from wf have d: "distinct (inorder ?t)" by (simp add: unstable_tree_wf_def)
  from wf m have f: "has_flag (rmaps s m) UNSTABLE_FLAG" "\<not> has_flag (rmaps s m) STABLE_FLAG"
    "rb_linked (rmaps s m)"
    by (auto simp: unstable_tree_wf_def list_all_iff)
  from f have t1: "root_unstable_tree ?s1 = rb_erase m ?t"
    by (simp add: remove_rmap_item_from_tree_def Let_def upd_rmap_def)
  have o: "rmaps ?s1 q = rmaps s q" if "q \<noteq> m" for q
    using that by (simp add: remove_other_rmap)
  show "set_tree (root_unstable_tree ?s1) = set_tree ?t - {m}"
    unfolding t1 by (rule set_tree_rb_erase [OF d])
  from wf have a: "\<forall>q \<in> set (inorder ?t). has_flag (rmaps s q) UNSTABLE_FLAG \<and>
      \<not> has_flag (rmaps s q) STABLE_FLAG \<and> rb_linked (rmaps s q)"
    by (simp add: unstable_tree_wf_def list_all_iff)
  have "\<forall>q \<in> set (removeAll m (inorder ?t)). has_flag (rmaps ?s1 q) UNSTABLE_FLAG \<and>
      \<not> has_flag (rmaps ?s1 q) STABLE_FLAG \<and> rb_linked (rmaps ?s1 q)"
  proof
    fix q assume "q \<in> set (removeAll m (inorder ?t))"
    then have "q \<noteq> m" "q \<in> set (inorder ?t)" by auto
    with a o [of q] show "has_flag (rmaps ?s1 q) UNSTABLE_FLAG \<and>
      \<not> has_flag (rmaps ?s1 q) STABLE_FLAG \<and> rb_linked (rmaps ?s1 q)"
      by (simp add: has_flag_def)
  qed
  with distinct_rb_erase [OF d, of m] show "unstable_tree_wf ?s1"
    unfolding unstable_tree_wf_def t1 inorder_rb_erase [OF d] list_all_iff by simp
qed

lemma set_tree_rb_link_node_upper: "set_tree (rb_link_node x ds t) \<subseteq> insert x (set_tree t)"
  by (induction x ds t rule: rb_link_node.induct) auto

lemma removeAll_filter_mem:
  "m \<notin> A \<Longrightarrow> filter (\<lambda>q. q \<in> A) (removeAll m xs) = filter (\<lambda>q. q \<in> A) xs"
  by (induction xs) auto

lemma unstable_insert_list_exact:
  assumes "unstable_tree_retry ri p s = Some y"
  shows "unstable_tree_wf s \<and> checksum_list_inv s \<longrightarrow>
         (\<forall>s' res. y = Inr (s', res) \<longrightarrow> ri \<notin> set_tree (root_unstable_tree s) \<longrightarrow>
           ri \<in> set_tree (root_unstable_tree s') \<longrightarrow>
           set_tree (root_unstable_tree s') \<subseteq> insert ri (set_tree (root_unstable_tree s)) \<and>
           unstabletree_checksum_list s'
             = filter (\<lambda>q. q \<in> set_tree (root_unstable_tree s')) (unstabletree_checksum_list s) @ [ri])"
proof (rule unstable_retry_induct [OF assms])
  fix s s1
  assume w: "unstable_tree_walk s ri p [] (root_unstable_tree s) = Inr (s1, RETRY)"
    and IH: "unstable_tree_wf s1 \<and> checksum_list_inv s1 \<longrightarrow>
         (\<forall>s' res. y = Inr (s', res) \<longrightarrow> ri \<notin> set_tree (root_unstable_tree s1) \<longrightarrow>
           ri \<in> set_tree (root_unstable_tree s') \<longrightarrow>
           set_tree (root_unstable_tree s') \<subseteq> insert ri (set_tree (root_unstable_tree s1)) \<and>
           unstabletree_checksum_list s'
             = filter (\<lambda>q. q \<in> set_tree (root_unstable_tree s')) (unstabletree_checksum_list s1) @ [ri])"
  show "unstable_tree_wf s \<and> checksum_list_inv s \<longrightarrow>
         (\<forall>s' res. y = Inr (s', res) \<longrightarrow> ri \<notin> set_tree (root_unstable_tree s) \<longrightarrow>
           ri \<in> set_tree (root_unstable_tree s') \<longrightarrow>
           set_tree (root_unstable_tree s') \<subseteq> insert ri (set_tree (root_unstable_tree s)) \<and>
           unstabletree_checksum_list s'
             = filter (\<lambda>q. q \<in> set_tree (root_unstable_tree s')) (unstabletree_checksum_list s) @ [ri])"
  proof (intro impI allI)
    fix s' res
    assume h: "unstable_tree_wf s \<and> checksum_list_inv s" and y: "y = Inr (s', res)"
      and n: "ri \<notin> set_tree (root_unstable_tree s)"
      and i: "ri \<in> set_tree (root_unstable_tree s')"
    from unstable_walk_ok [OF w] obtain m s0 where m: "m \<in> set_tree (root_unstable_tree s)"
      and r0: "refs_only s s0" and e: "s1 = remove_rmap_item_from_tree s0 (Some m) False"
      unfolding walk_ok_def by auto
    note f0 = refs_only_fields(3,4) [OF r0]
    from h have wf0: "unstable_tree_wf s0" and inv0: "checksum_list_inv s0"
      by (simp_all add: unstable_tree_wf_refs_only [OF r0] checksum_list_inv_refs_only [OF r0])
    from m f0 have m0: "m \<in> set_tree (root_unstable_tree s0)" by simp
    from unstable_tree_wf_remove(1) [OF wf0 m0] e have wf1: "unstable_tree_wf s1" by simp
    have t1: "set_tree (root_unstable_tree s1) = set_tree (root_unstable_tree s) - {m}"
      unfolding e f0(1) [symmetric] by (rule unstable_tree_wf_remove(2) [OF wf0 m0])
    from checksum_list_inv_remove [OF inv0] e have inv1: "checksum_list_inv s1" by simp
    have "root_unstable_tree s1 \<noteq> root_unstable_tree s0"
    proof
      assume a: "root_unstable_tree s1 = root_unstable_tree s0"
      from t1 have "m \<notin> set_tree (root_unstable_tree s1)" by blast
      with a m0 show False by simp
    qed
    from remove_from_unstable_list [OF inv0 this [unfolded e]] e f0
    have l1: "unstabletree_checksum_list s1 = removeAll m (unstabletree_checksum_list s)" by simp
    from n t1 have n1: "ri \<notin> set_tree (root_unstable_tree s1)" by blast
    from IH wf1 inv1 y n1 i
    have sub: "set_tree (root_unstable_tree s') \<subseteq> insert ri (set_tree (root_unstable_tree s1))"
      and l: "unstabletree_checksum_list s'
             = filter (\<lambda>q. q \<in> set_tree (root_unstable_tree s')) (unstabletree_checksum_list s1) @ [ri]"
      by blast+
    from m n have "m \<noteq> ri" by auto
    with sub t1 have nm: "m \<notin> set_tree (root_unstable_tree s')" by blast
    from sub t1 have "set_tree (root_unstable_tree s') \<subseteq> insert ri (set_tree (root_unstable_tree s))"
      by blast
    moreover have "unstabletree_checksum_list s'
             = filter (\<lambda>q. q \<in> set_tree (root_unstable_tree s')) (unstabletree_checksum_list s) @ [ri]"
      unfolding l l1 removeAll_filter_mem [OF nm] by (rule refl)
    ultimately show "set_tree (root_unstable_tree s') \<subseteq> insert ri (set_tree (root_unstable_tree s)) \<and>
           unstabletree_checksum_list s'
             = filter (\<lambda>q. q \<in> set_tree (root_unstable_tree s')) (unstabletree_checksum_list s) @ [ri]"
      by simp
  qed
next
  fix s
  assume body: "unstable_tree_retry ri p s = Some y"
    and nr: "\<forall>s1. unstable_tree_walk s ri p [] (root_unstable_tree s) \<noteq> Inr (s1, RETRY)"
  show "unstable_tree_wf s \<and> checksum_list_inv s \<longrightarrow>
         (\<forall>s' res. y = Inr (s', res) \<longrightarrow> ri \<notin> set_tree (root_unstable_tree s) \<longrightarrow>
           ri \<in> set_tree (root_unstable_tree s') \<longrightarrow>
           set_tree (root_unstable_tree s') \<subseteq> insert ri (set_tree (root_unstable_tree s)) \<and>
           unstabletree_checksum_list s'
             = filter (\<lambda>q. q \<in> set_tree (root_unstable_tree s')) (unstabletree_checksum_list s) @ [ri])"
  proof (intro impI allI)
    fix s' res
    assume h: "unstable_tree_wf s \<and> checksum_list_inv s" and y: "y = Inr (s', res)"
      and n: "ri \<notin> set_tree (root_unstable_tree s)"
      and i: "ri \<in> set_tree (root_unstable_tree s')"
    from h have inv: "\<And>q. q \<in> set (unstabletree_checksum_list s) \<Longrightarrow>
        q \<in> set_tree (root_unstable_tree s)"
      by (simp add: checksum_list_inv_def list_all_iff del: set_inorder)
    have "(\<exists>ds. root_unstable_tree s' = rb_link_node ri ds (root_unstable_tree s)) \<and>
          unstabletree_checksum_list s' = unstabletree_checksum_list s @ [ri]"
    proof (cases "unstable_tree_walk s ri p [] (root_unstable_tree s)")
      case (Inl f)
      with body y show ?thesis by (subst (asm) unstable_tree_retry.simps) simp
    next
      case (Inr b)
      obtain s1 d where b: "b = (s1, d)" by (cases b)
      with Inr have w: "unstable_tree_walk s ri p [] (root_unstable_tree s) = Inr (s1, d)" by simp
      with nr have d: "d \<noteq> RETRY" by auto
      with unstable_walk_ok [OF w] have ro: "refs_only s s1" by (simp add: walk_ok_def)
      note f = refs_only_fields(3,4) [OF ro]
      show ?thesis
      proof (cases d)
        case RETRY
        with d show ?thesis by simp
      next
        case (RETURN x)
        with body y w have "s' = s1" by (subst (asm) unstable_tree_retry.simps) simp
        with f n i show ?thesis by simp
      next
        case (SLOT ds)
        from body y w SLOT
        have "root_unstable_tree s' = rb_link_node ri ds (root_unstable_tree s1) \<and>
              unstabletree_checksum_list s' = unstabletree_checksum_list s1 @ [ri]"
          by (subst (asm) unstable_tree_retry.simps)
            (auto simp: Let_def upd_rmap_def list_add_tail_def split: if_splits)
        with f show ?thesis by auto
      qed
    qed
    then obtain ds where t: "root_unstable_tree s' = rb_link_node ri ds (root_unstable_tree s)"
      and l: "unstabletree_checksum_list s' = unstabletree_checksum_list s @ [ri]" by blast
    have "filter (\<lambda>q. q \<in> set_tree (root_unstable_tree s')) (unstabletree_checksum_list s)
        = unstabletree_checksum_list s"
      unfolding t filter_id_conv using inv by (blast intro: rb_link_node_mem)
    with l t set_tree_rb_link_node_upper [of ri ds "root_unstable_tree s"]
    show "set_tree (root_unstable_tree s') \<subseteq> insert ri (set_tree (root_unstable_tree s)) \<and>
           unstabletree_checksum_list s'
             = filter (\<lambda>q. q \<in> set_tree (root_unstable_tree s')) (unstabletree_checksum_list s) @ [ri]"
      by simp
  qed
qed

lemmas st_pair_defs = st_pair_def idle_def null_rmap_def null_page_def

lemma st_pair_facts:
  "checksum_list_inv st_pair" "unstable_tree_wf st_pair"
  "unstabletree_checksum_list st_pair = [3, 1]"
  "root_unstable_tree st_pair = Node Leaf 1 (Node Leaf 3 Leaf)"
  "list_all (\<lambda>q. \<not> doomed st_pair q) (inorder (root_unstable_tree st_pair))"
  "root_unstable_tree (remove_rmap_item_from_tree st_pair (Some 1) False) = Node Leaf 3 Leaf"
  by (simp_all add: checksum_list_inv_def unstable_tree_wf_def doomed_def st_pair_defs
      remove_rmap_item_from_tree_def Let_def upd_rmap_def flag_simps)

lemma st_pair_doomed_facts:
  "checksum_list_inv st_pair_doomed" "unstable_tree_wf st_pair_doomed"
  "unstabletree_checksum_list st_pair_doomed = [3, 1]"
  "root_unstable_tree st_pair_doomed = Node Leaf 1 (Node Leaf 3 Leaf)"
  "doomed st_pair_doomed 3"
  by (simp_all add: checksum_list_inv_def unstable_tree_wf_def doomed_def st_pair_doomed_def
      st_pair_defs flag_simps)

lemmas unstable_eval = get_mergeable_page_def check_valid_rmap_item_def PagePKSM_def PageAnon_def
  get_page_unless_zero_def put_page_def upd_page_def hash_cmp_def upd_rmap_def
  remove_rmap_item_from_tree_def list_add_tail_def list_del_def Let_def flag_simps

lemma st_pair_insert:
  "\<exists>s'. unstable_tree_search_insert st_pair 2 2 = Some (Inr (s', None)) \<and>
        root_unstable_tree s' = Node Leaf 1 (Node Leaf 3 (Node Leaf 2 Leaf))"
  apply (simp add: unstable_tree_search_insert_def)
  apply (subst unstable_tree_retry.simps)
  apply (simp add: st_pair_defs unstable_eval)
  done

lemma st_pair_doomed_insert:
  "\<exists>s'. unstable_tree_search_insert st_pair_doomed 2 2 = Some (Inr (s', None)) \<and>
        root_unstable_tree s' = Node Leaf 1 (Node Leaf 2 Leaf)"
  apply (simp add: unstable_tree_search_insert_def)
  apply (subst unstable_tree_retry.simps)
  apply (simp add: st_pair_doomed_def st_pair_defs unstable_eval)
  apply (subst unstable_tree_retry.simps)
  apply (simp add: st_pair_doomed_def st_pair_defs unstable_eval)
  done

text \<open>C9. The checksum list follows the unstable tree. Call the checksum list
  well formed when each of its entries is a node of the unstable tree and carries
  \<^verbatim>\<open>CHECKSUM_LIST_FLAG\<close> (\<^const>\<open>checksum_list_inv\<close>). The unstable tree is
  written in two places only: \<^verbatim>\<open>remove_rmap_item_from_tree\<close> erases from it and
  \<^verbatim>\<open>unstable_tree_search_insert\<close> links into it. Both keep the checksum list well
  formed, so no rmap stays on the list after it has left the tree.

  Removal. After any call of \<^verbatim>\<open>remove_rmap_item_from_tree\<close> on an rmap \<open>r\<close> the
  checksum list is the list before without \<open>r\<close> when \<open>r\<close> is flagged
  \<^verbatim>\<open>UNSTABLE_FLAG\<close> (and not \<^verbatim>\<open>STABLE_FLAG\<close>) and \<^verbatim>\<open>CHECKSUM_LIST_FLAG\<close>, and the
  list before otherwise; every other rmap is as before. When the call changes the
  unstable tree and the list was well formed, the list afterwards is the list before
  without \<open>r\<close>, all other entries in their order, and the \<^verbatim>\<open>CHECKSUM_LIST_FLAG\<close> of
  \<open>r\<close> is clear.

  Insertion. When \<^verbatim>\<open>unstable_tree_search_insert\<close> links an rmap into the tree, the
  checksum list afterwards is the list before, less entries that were nodes flagged
  \<^verbatim>\<open>DELLIST_FLAG\<close> or without a page (the descent evicts such nodes), the others in
  their order, followed by the new rmap as the last entry; with no such node in the tree
  it is the list before followed by the new rmap. When the unstable tree is well formed
  (no node twice, every node flagged \<^verbatim>\<open>UNSTABLE_FLAG\<close>, not \<^verbatim>\<open>STABLE_FLAG\<close>, and
  linked) and so is the list, the entries kept are exactly those still in the tree. The
  new rmap carries \<^verbatim>\<open>CHECKSUM_LIST_FLAG\<close> and \<^verbatim>\<open>UNSTABLE_FLAG\<close>.\<close>

theorem C9_checksum_list:
  "(checksum_list_inv s \<longrightarrow> checksum_list_inv (remove_rmap_item_from_tree s ro fa)) \<and>
   unstabletree_checksum_list (remove_rmap_item_from_tree s (Some r) fa)
     = (if \<not> has_flag (rmaps s r) STABLE_FLAG \<and> has_flag (rmaps s r) UNSTABLE_FLAG \<and>
           has_flag (rmaps s r) CHECKSUM_LIST_FLAG
        then removeAll r (unstabletree_checksum_list s)
        else unstabletree_checksum_list s) \<and>
   (\<forall>q. q \<noteq> r \<longrightarrow> rmaps (remove_rmap_item_from_tree s (Some r) fa) q = rmaps s q) \<and>
   (checksum_list_inv s \<and>
    root_unstable_tree (remove_rmap_item_from_tree s (Some r) fa) \<noteq> root_unstable_tree s \<longrightarrow>
      unstabletree_checksum_list (remove_rmap_item_from_tree s (Some r) fa)
        = removeAll r (unstabletree_checksum_list s) \<and>
      r \<notin> set (unstabletree_checksum_list (remove_rmap_item_from_tree s (Some r) fa)) \<and>
      \<not> has_flag (rmaps (remove_rmap_item_from_tree s (Some r) fa) r) CHECKSUM_LIST_FLAG) \<and>
   (checksum_list_inv t \<and> unstable_tree_search_insert t ri p = Some (Inr (t', res)) \<longrightarrow>
      checksum_list_inv t') \<and>
   (unstable_tree_search_insert t ri p = Some (Inr (t', res)) \<and>
    ri \<notin> set_tree (root_unstable_tree t) \<and> ri \<in> set_tree (root_unstable_tree t') \<longrightarrow>
      (\<exists>E. E \<subseteq> {q \<in> set_tree (root_unstable_tree t). doomed t q} \<and>
           unstabletree_checksum_list t'
             = filter (\<lambda>q. q \<notin> E) (unstabletree_checksum_list t) @ [ri]) \<and>
      ((\<forall>q \<in> set_tree (root_unstable_tree t). \<not> doomed t q) \<longrightarrow>
         unstabletree_checksum_list t' = unstabletree_checksum_list t @ [ri]) \<and>
      (unstable_tree_wf t \<and> checksum_list_inv t \<longrightarrow>
         unstabletree_checksum_list t'
           = filter (\<lambda>q. q \<in> set_tree (root_unstable_tree t')) (unstabletree_checksum_list t) @ [ri]) \<and>
      has_flag (rmaps t' ri) CHECKSUM_LIST_FLAG \<and> has_flag (rmaps t' ri) UNSTABLE_FLAG)"
proof (intro conjI impI allI)
  assume "checksum_list_inv s"
  then show "checksum_list_inv (remove_rmap_item_from_tree s ro fa)"
    by (rule checksum_list_inv_remove)
next
  show "unstabletree_checksum_list (remove_rmap_item_from_tree s (Some r) fa)
     = (if \<not> has_flag (rmaps s r) STABLE_FLAG \<and> has_flag (rmaps s r) UNSTABLE_FLAG \<and>
           has_flag (rmaps s r) CHECKSUM_LIST_FLAG
        then removeAll r (unstabletree_checksum_list s)
        else unstabletree_checksum_list s)"
    by (rule remove_checksum_list)
next
  fix q assume "q \<noteq> r"
  then show "rmaps (remove_rmap_item_from_tree s (Some r) fa) q = rmaps s q"
    by (simp add: remove_other_rmap)
next
  assume a: "checksum_list_inv s \<and>
    root_unstable_tree (remove_rmap_item_from_tree s (Some r) fa) \<noteq> root_unstable_tree s"
  then have inv: "checksum_list_inv s"
    and ch: "root_unstable_tree (remove_rmap_item_from_tree s (Some r) fa) \<noteq> root_unstable_tree s"
    by simp_all
  show "unstabletree_checksum_list (remove_rmap_item_from_tree s (Some r) fa)
        = removeAll r (unstabletree_checksum_list s)"
    by (rule remove_from_unstable_list [OF inv ch])
  from remove_from_unstable_clears_list [OF inv ch]
  show "r \<notin> set (unstabletree_checksum_list (remove_rmap_item_from_tree s (Some r) fa))"
    and "\<not> has_flag (rmaps (remove_rmap_item_from_tree s (Some r) fa) r) CHECKSUM_LIST_FLAG"
    by simp_all
next
  assume a: "checksum_list_inv t \<and> unstable_tree_search_insert t ri p = Some (Inr (t', res))"
  then have "unstable_tree_retry ri p t = Some (Inr (t', res))"
    by (auto simp: unstable_tree_search_insert_def split: if_splits)
  from unstable_insert_inv [OF this] a show "checksum_list_inv t'" by blast
next
  assume a: "unstable_tree_search_insert t ri p = Some (Inr (t', res)) \<and>
    ri \<notin> set_tree (root_unstable_tree t) \<and> ri \<in> set_tree (root_unstable_tree t')"
  then have u: "unstable_tree_retry ri p t = Some (Inr (t', res))"
    by (auto simp: unstable_tree_search_insert_def split: if_splits)
  from a have n: "ri \<notin> set_tree (root_unstable_tree t)"
    and i: "ri \<in> set_tree (root_unstable_tree t')" by simp_all
  from unstable_insert_list_frame [OF u] n i
  show fr: "\<exists>E. E \<subseteq> {q \<in> set_tree (root_unstable_tree t). doomed t q} \<and>
           unstabletree_checksum_list t'
             = filter (\<lambda>q. q \<notin> E) (unstabletree_checksum_list t) @ [ri]"
    by blast
  from unstable_insert_lists [OF u] n i
  show "has_flag (rmaps t' ri) CHECKSUM_LIST_FLAG" "has_flag (rmaps t' ri) UNSTABLE_FLAG"
    by blast+
  {
    assume nd: "\<forall>q \<in> set_tree (root_unstable_tree t). \<not> doomed t q"
    from fr obtain E where e: "E \<subseteq> {q \<in> set_tree (root_unstable_tree t). doomed t q}"
      and l: "unstabletree_checksum_list t'
             = filter (\<lambda>q. q \<notin> E) (unstabletree_checksum_list t) @ [ri]" by blast
    from e nd have "E = {}" by blast
    with l show "unstabletree_checksum_list t' = unstabletree_checksum_list t @ [ri]" by simp
  }
  {
    assume "unstable_tree_wf t \<and> checksum_list_inv t"
    with unstable_insert_list_exact [OF u] n i
    show "unstabletree_checksum_list t'
           = filter (\<lambda>q. q \<in> set_tree (root_unstable_tree t')) (unstabletree_checksum_list t) @ [ri]"
      by blast
  }
qed

theorem C9_checksum_list_witness:
  "checksum_list_inv st_pair \<and> unstable_tree_wf st_pair \<and>
   unstabletree_checksum_list st_pair = [3, 1] \<and>
   list_all (\<lambda>q. \<not> doomed st_pair q) (inorder (root_unstable_tree st_pair)) \<and>
   root_unstable_tree (remove_rmap_item_from_tree st_pair (Some 1) False)
     \<noteq> root_unstable_tree st_pair \<and>
   checksum_list_inv (remove_rmap_item_from_tree st_pair (Some 1) False) \<and>
   unstabletree_checksum_list (remove_rmap_item_from_tree st_pair (Some 1) False) = [3] \<and>
   rmaps (remove_rmap_item_from_tree st_pair (Some 1) False) 3 = rmaps st_pair 3 \<and>
   \<not> has_flag (rmaps (remove_rmap_item_from_tree st_pair (Some 1) False) 1) CHECKSUM_LIST_FLAG \<and>
   2 \<notin> set_tree (root_unstable_tree st_pair) \<and>
   (\<exists>s'. unstable_tree_search_insert st_pair 2 2 = Some (Inr (s', None)) \<and>
         2 \<in> set_tree (root_unstable_tree s') \<and> checksum_list_inv s' \<and>
         unstabletree_checksum_list s' = [3, 1, 2] \<and>
         has_flag (rmaps s' 2) CHECKSUM_LIST_FLAG) \<and>
   checksum_list_inv st_pair_doomed \<and> unstable_tree_wf st_pair_doomed \<and>
   doomed st_pair_doomed 3 \<and> unstabletree_checksum_list st_pair_doomed = [3, 1] \<and>
   (\<exists>s'. unstable_tree_search_insert st_pair_doomed 2 2 = Some (Inr (s', None)) \<and>
         root_unstable_tree s' = Node Leaf 1 (Node Leaf 2 Leaf) \<and>
         unstabletree_checksum_list s' = [1, 2])"
proof -
  let ?r = "remove_rmap_item_from_tree st_pair (Some 1) False"
  have ch: "root_unstable_tree ?r \<noteq> root_unstable_tree st_pair"
    unfolding st_pair_facts(4,6) by simp
  have n: "2 \<notin> set_tree (root_unstable_tree st_pair)"
    "2 \<notin> set_tree (root_unstable_tree st_pair_doomed)"
    unfolding st_pair_facts(4) st_pair_doomed_facts(4) by simp_all
  have nd: "\<forall>q \<in> set_tree (root_unstable_tree st_pair). \<not> doomed st_pair q"
    using st_pair_facts(5) by (simp add: list_all_iff)
  obtain s1 where i1: "unstable_tree_search_insert st_pair 2 2 = Some (Inr (s1, None))"
    and t1: "root_unstable_tree s1 = Node Leaf 1 (Node Leaf 3 (Node Leaf 2 Leaf))"
    using st_pair_insert by blast
  obtain s2 where i2: "unstable_tree_search_insert st_pair_doomed 2 2 = Some (Inr (s2, None))"
    and t2: "root_unstable_tree s2 = Node Leaf 1 (Node Leaf 2 Leaf)"
    using st_pair_doomed_insert by blast
  from t1 have m1: "2 \<in> set_tree (root_unstable_tree s1)" by simp
  from t2 have m2: "2 \<in> set_tree (root_unstable_tree s2)" by simp
  note a = C9_checksum_list [where s = st_pair and ro = "Some 1" and fa = False and r = 1
      and t = st_pair and ri = 2 and p = 2 and t' = s1 and res = None]
  note b = C9_checksum_list [where s = st_pair and ro = "Some 1" and fa = False and r = 1
      and t = st_pair_doomed and ri = 2 and p = 2 and t' = s2 and res = None]
  from a st_pair_facts(1) ch
  have r: "checksum_list_inv ?r"
    "unstabletree_checksum_list ?r = removeAll 1 (unstabletree_checksum_list st_pair)"
    "\<not> has_flag (rmaps ?r 1) CHECKSUM_LIST_FLAG"
    by blast+
  from r(2) have r2: "unstabletree_checksum_list ?r = [3]"
    unfolding st_pair_facts(3) by simp
  from a have r3: "rmaps ?r 3 = rmaps st_pair 3" by simp
  from a st_pair_facts(1) i1 n(1) m1 nd
  have k: "checksum_list_inv s1"
    "unstabletree_checksum_list s1 = unstabletree_checksum_list st_pair @ [2]"
    "has_flag (rmaps s1 2) CHECKSUM_LIST_FLAG"
    by blast+
  from k(2) have k2: "unstabletree_checksum_list s1 = [3, 1, 2]"
    unfolding st_pair_facts(3) by simp
  from b st_pair_doomed_facts(1,2) i2 n(2) m2
  have "unstabletree_checksum_list s2
      = filter (\<lambda>q. q \<in> set_tree (root_unstable_tree s2)) (unstabletree_checksum_list st_pair_doomed) @ [2]"
    by blast
  then have d2: "unstabletree_checksum_list s2 = [1, 2]"
    unfolding st_pair_doomed_facts(3) t2 by simp
  from st_pair_facts(1,2,3,5) ch r(1) r2 r3 r(3) n(1) i1 m1 k(1) k2 k(3)
    st_pair_doomed_facts(1,2,5,3) i2 t2 d2
  show ?thesis by blast
qed

subsection \<open>Eviction in the stable-tree descents\<close>

lemma stable_tree_wf_refs_only:
  assumes "refs_only s s'" and "stable_tree_wf s"
  shows "stable_tree_wf s'"
  using assms(2) unfolding stable_tree_wf_def refs_only_fields [OF assms(1)] .

lemma stable_tree_wf_remove:
  assumes wf: "stable_tree_wf s" and m: "m \<in> set_tree (root_stable_tree s)"
  shows "stable_tree_wf (remove_rmap_item_from_tree s (Some m) False)"
    and "m \<notin> set_tree (root_stable_tree (remove_rmap_item_from_tree s (Some m) False))"
    and "size (root_stable_tree (remove_rmap_item_from_tree s (Some m) False))
           < size (root_stable_tree s)"
proof -
  let ?t = "root_stable_tree s"
  from wf have d: "distinct (inorder ?t)" by (simp add: stable_tree_wf_def)
  from wf m have f: "has_flag (rmaps s m) STABLE_FLAG" "rb_linked (rmaps s m)"
    by (auto simp: stable_tree_wf_def list_all_iff)
  let ?s1 = "remove_rmap_item_from_tree s (Some m) False"
  from f have t1: "root_stable_tree ?s1 = rb_erase m ?t"
    by (simp add: remove_rmap_item_from_tree_def Let_def upd_rmap_def)
  have o: "rmaps ?s1 q = rmaps s q" if "q \<noteq> m" for q
    using that by (simp add: remove_other_rmap)
  show "m \<notin> set_tree (root_stable_tree ?s1)"
    unfolding t1 set_tree_rb_erase [OF d] by simp
  from m have "length (removeAll m (inorder ?t)) < length (inorder ?t)"
    by (metis length_removeAll_less set_inorder)
  then show "size (root_stable_tree ?s1) < size ?t"
    unfolding t1 length_inorder [symmetric] inorder_rb_erase [OF d] .
  from wf have a: "\<forall>q \<in> set (inorder ?t). has_flag (rmaps s q) STABLE_FLAG \<and> rb_linked (rmaps s q)"
    by (simp add: stable_tree_wf_def list_all_iff)
  have "\<forall>q \<in> set (removeAll m (inorder ?t)).
          has_flag (rmaps ?s1 q) STABLE_FLAG \<and> rb_linked (rmaps ?s1 q)"
  proof
    fix q assume "q \<in> set (removeAll m (inorder ?t))"
    then have "q \<noteq> m" "q \<in> set (inorder ?t)" by auto
    with a o [of q] show "has_flag (rmaps ?s1 q) STABLE_FLAG \<and> rb_linked (rmaps ?s1 q)"
      by (simp add: has_flag_def)
  qed
  with distinct_rb_erase [OF d, of m] show "stable_tree_wf ?s1"
    unfolding stable_tree_wf_def t1 inorder_rb_erase [OF d] list_all_iff by simp
qed

lemma walk_retry_shrinks:
  assumes w: "walk_ok s (root_stable_tree s) s1 RETRY" and wf: "stable_tree_wf s"
  shows "stable_tree_wf s1 \<and> size (root_stable_tree s1) < size (root_stable_tree s)"
proof -
  from w obtain m s0 where m: "m \<in> set_tree (root_stable_tree s)"
    and r0: "refs_only s s0" and e: "s1 = remove_rmap_item_from_tree s0 (Some m) False"
    unfolding walk_ok_def by auto
  from stable_tree_wf_refs_only [OF r0 wf] have wf0: "stable_tree_wf s0" .
  from m refs_only_fields(2) [OF r0] have m0: "m \<in> set_tree (root_stable_tree s0)" by simp
  from stable_tree_wf_remove(1,3) [OF wf0 m0] e refs_only_fields(2) [OF r0]
  show ?thesis by simp
qed

lemma stable_search_returns:
  "stable_tree_wf s \<Longrightarrow> \<exists>y. stable_tree_search_retry ro s = Some y"
proof (induction "size (root_stable_tree s)" arbitrary: s rule: less_induct)
  case less
  show ?case
  proof (cases "stable_tree_search_walk s ro (root_stable_tree s)")
    case (Inl f)
    then show ?thesis by (subst stable_tree_search_retry.simps) simp
  next
    case (Inr b)
    obtain s1 d where b: "b = (s1, d)" by (cases b)
    with Inr have w: "stable_tree_search_walk s ro (root_stable_tree s) = Inr (s1, d)" by simp
    show ?thesis
    proof (cases d)
      case RETRY
      from walk_retry_shrinks [OF stable_search_walk_ok [OF w [unfolded RETRY]] less.prems]
      have "stable_tree_wf s1" "size (root_stable_tree s1) < size (root_stable_tree s)" by simp_all
      from less.hyps [OF this(2) this(1)] obtain y where "stable_tree_search_retry ro s1 = Some y" ..
      with w RETRY show ?thesis by (subst stable_tree_search_retry.simps) simp
    next
      case (RETURN x)
      with w show ?thesis by (subst stable_tree_search_retry.simps) simp
    next
      case (SLOT ds)
      with w show ?thesis by (subst stable_tree_search_retry.simps) simp
    qed
  qed
qed

lemma stable_insert_returns:
  "stable_tree_wf s \<Longrightarrow> \<exists>y. stable_tree_insert ri kp s = Some y"
proof (induction "size (root_stable_tree s)" arbitrary: s rule: less_induct)
  case less
  obtain s1 d where w: "stable_tree_insert_walk s ri [] (root_stable_tree s) = (s1, d)"
    by (cases "stable_tree_insert_walk s ri [] (root_stable_tree s)")
  show ?case
  proof (cases d)
    case RETRY
    from walk_retry_shrinks [OF stable_insert_walk_ok [OF w [unfolded RETRY]] less.prems]
    have "stable_tree_wf s1" "size (root_stable_tree s1) < size (root_stable_tree s)" by simp_all
    from less.hyps [OF this(2) this(1)] obtain y where "stable_tree_insert ri kp s1 = Some y" ..
    with w RETRY show ?thesis by (subst stable_tree_insert.simps) simp
  next
    case (RETURN x)
    with w show ?thesis by (subst stable_tree_insert.simps) simp
  next
    case (SLOT ds)
    with w show ?thesis by (subst stable_tree_insert.simps) (simp add: Let_def)
  qed
qed

lemmas st_stale_defs = st_stale_def idle_def null_rmap_def null_page_def

lemma st_stale_acquire:
  "root_stable_tree st_stale = Node Leaf 1 Leaf"
  "\<not> doomed st_stale 1"
  "get_ksm_page st_stale (Some 1) = (st_stale, None)"
  by (simp_all add: st_stale_defs doomed_def get_ksm_page_def check_valid_rmap_item_def
      PagePKSM_def PageKsm_def get_page_unless_zero_def flag_simps)

lemma st_stale_walks:
  "stable_tree_search_walk st_stale (Some 2) (root_stable_tree st_stale)
     = Inr (st_stale, RETURN None)"
  "stable_tree_insert_walk st_stale 2 [] (root_stable_tree st_stale)
     = (st_stale, RETURN PKSM_FAULT_DROP)"
  unfolding st_stale_acquire(1) using st_stale_acquire(2,3) by (simp_all add: doomed_def)

lemma st_stale_descents:
  "stable_tree_search_retry (Some 2) st_stale = Some (Inr (st_stale, None))"
  "stable_tree_insert 2 2 st_stale = Some (Inr (st_stale, PKSM_FAULT_DROP))"
proof -
  show "stable_tree_search_retry (Some 2) st_stale = Some (Inr (st_stale, None))"
    using st_stale_walks(1) by (subst stable_tree_search_retry.simps) simp
  show "stable_tree_insert 2 2 st_stale = Some (Inr (st_stale, PKSM_FAULT_DROP))"
    using st_stale_walks(2) by (subst stable_tree_insert.simps) simp
qed

lemma st_doomed_tree:
  "root_stable_tree st_doomed = Node Leaf 1 Leaf"
  "doomed st_doomed 1"
  "stable_tree_wf st_doomed"
  "root_stable_tree (remove_rmap_item_from_tree st_doomed (Some 1) False) = Leaf"
  by (simp_all add: st_doomed_def st_stale_defs doomed_def stable_tree_wf_def
      remove_rmap_item_from_tree_def upd_rmap_def Let_def flag_simps)

text \<open>C1, as the code has it. In \<^verbatim>\<open>stable_tree_search\<close> and \<^verbatim>\<open>stable_tree_insert\<close> a
  visited node that is flagged \<^verbatim>\<open>DELLIST_FLAG\<close> or has no page is handed to
  \<^verbatim>\<open>remove_rmap_item_from_tree\<close> and the pass ends at \<^verbatim>\<open>goto retry\<close>, which starts the
  descent again at the root of the tree as it is then. A visited node that is neither,
  but whose page \<^verbatim>\<open>get_ksm_page\<close> cannot acquire, ends the descent at once: the search
  returns no page, the insertion returns \<^verbatim>\<open>PKSM_FAULT_DROP\<close>, and the tree and the
  rmaps are as before, the node still in the tree. A descent that returns has evicted
  only nodes that were flagged \<^verbatim>\<open>DELLIST_FLAG\<close> or had no page. When the stable tree
  is well formed (no node twice, every node flagged \<^verbatim>\<open>STABLE_FLAG\<close> and linked), an
  eviction takes the node out of the tree and leaves the tree well formed, and both
  descents return.\<close>

theorem C1_descent_eviction:
  "(doomed s t \<longrightarrow>
      stable_tree_search_walk s ro (Node l t r)
        = Inr (remove_rmap_item_from_tree s (Some t) False, RETRY) \<and>
      stable_tree_insert_walk s ri ds (Node l t r)
        = (remove_rmap_item_from_tree s (Some t) False, RETRY)) \<and>
   (\<not> doomed s t \<and> get_ksm_page s (Some t) = (sg, None) \<longrightarrow>
      stable_tree_search_walk s ro (Node l t r) = Inr (sg, RETURN None) \<and>
      stable_tree_insert_walk s ri ds (Node l t r) = (sg, RETURN PKSM_FAULT_DROP) \<and>
      root_stable_tree sg = root_stable_tree s \<and> rmaps sg = rmaps s) \<and>
   (stable_tree_search_walk s ro (root_stable_tree s) = Inr (s1, d) \<longrightarrow>
      (d = RETRY \<longrightarrow> stable_tree_search_retry ro s = stable_tree_search_retry ro s1) \<and>
      (\<forall>x. d = RETURN x \<longrightarrow> stable_tree_search_retry ro s = Some (Inr (s1, x)))) \<and>
   (stable_tree_insert_walk s ri [] (root_stable_tree s) = (s2, e) \<longrightarrow>
      (e = RETRY \<longrightarrow> stable_tree_insert ri kp s = stable_tree_insert ri kp s2) \<and>
      (\<forall>x. e = RETURN x \<longrightarrow> stable_tree_insert ri kp s = Some (Inr (s2, x)))) \<and>
   (stable_tree_search_retry ro s = Some (Inr (s', res)) \<longrightarrow>
      (\<forall>q \<in> set_tree (root_stable_tree s) - set_tree (root_stable_tree s'). doomed s q)) \<and>
   (stable_tree_insert ri kp s = Some (Inr (s'', res')) \<longrightarrow>
      (\<forall>q \<in> set_tree (root_stable_tree s) - set_tree (root_stable_tree s''). doomed s q)) \<and>
   (stable_tree_wf s \<longrightarrow>
      (\<exists>y. stable_tree_search_retry ro s = Some y) \<and>
      (\<exists>y. stable_tree_insert ri kp s = Some y)) \<and>
   (stable_tree_wf s \<and> t \<in> set_tree (root_stable_tree s) \<longrightarrow>
      stable_tree_wf (remove_rmap_item_from_tree s (Some t) False) \<and>
      t \<notin> set_tree (root_stable_tree (remove_rmap_item_from_tree s (Some t) False)))"
proof (intro conjI impI allI)
  assume "doomed s t"
  then show "stable_tree_search_walk s ro (Node l t r)
        = Inr (remove_rmap_item_from_tree s (Some t) False, RETRY)"
    and "stable_tree_insert_walk s ri ds (Node l t r)
        = (remove_rmap_item_from_tree s (Some t) False, RETRY)"
    by (simp_all add: doomed_def)
next
  assume a: "\<not> doomed s t \<and> get_ksm_page s (Some t) = (sg, None)"
  then show "stable_tree_search_walk s ro (Node l t r) = Inr (sg, RETURN None)"
    and "stable_tree_insert_walk s ri ds (Node l t r) = (sg, RETURN PKSM_FAULT_DROP)"
    by (simp_all add: doomed_def)
  from a have "refs_only s sg" by (blast intro: refs_only_get_ksm_page)
  from refs_only_fields(1,2) [OF this]
  show "root_stable_tree sg = root_stable_tree s" and "rmaps sg = rmaps s" by simp_all
next
  assume "stable_tree_search_walk s ro (root_stable_tree s) = Inr (s1, d)" and "d = RETRY"
  then show "stable_tree_search_retry ro s = stable_tree_search_retry ro s1"
    by (subst stable_tree_search_retry.simps) simp
next
  fix x
  assume "stable_tree_search_walk s ro (root_stable_tree s) = Inr (s1, d)" and "d = RETURN x"
  then show "stable_tree_search_retry ro s = Some (Inr (s1, x))"
    by (subst stable_tree_search_retry.simps) simp
next
  assume "stable_tree_insert_walk s ri [] (root_stable_tree s) = (s2, e)" and "e = RETRY"
  then show "stable_tree_insert ri kp s = stable_tree_insert ri kp s2"
    by (subst stable_tree_insert.simps) simp
next
  fix x
  assume "stable_tree_insert_walk s ri [] (root_stable_tree s) = (s2, e)" and "e = RETURN x"
  then show "stable_tree_insert ri kp s = Some (Inr (s2, x))"
    by (subst stable_tree_insert.simps) simp
next
  assume "stable_tree_search_retry ro s = Some (Inr (s', res))"
  then show "\<forall>q \<in> set_tree (root_stable_tree s) - set_tree (root_stable_tree s'). doomed s q"
    by (rule stable_search_only_evicts_doomed)
next
  assume "stable_tree_insert ri kp s = Some (Inr (s'', res'))"
  then show "\<forall>q \<in> set_tree (root_stable_tree s) - set_tree (root_stable_tree s''). doomed s q"
    by (rule stable_insert_only_evicts_doomed)
next
  assume "stable_tree_wf s"
  then show "\<exists>y. stable_tree_search_retry ro s = Some y"
    and "\<exists>y. stable_tree_insert ri kp s = Some y"
    by (rule stable_search_returns, rule stable_insert_returns)
next
  assume a: "stable_tree_wf s \<and> t \<in> set_tree (root_stable_tree s)"
  then show "stable_tree_wf (remove_rmap_item_from_tree s (Some t) False)"
    and "t \<notin> set_tree (root_stable_tree (remove_rmap_item_from_tree s (Some t) False))"
    by (simp_all add: stable_tree_wf_remove)
qed

theorem C1_descent_eviction_witness:
  "doomed st_doomed 1 \<and> stable_tree_wf st_doomed \<and>
   root_stable_tree st_doomed = Node Leaf 1 Leaf \<and>
   stable_tree_search_walk st_doomed (Some 2) (root_stable_tree st_doomed)
     = Inr (remove_rmap_item_from_tree st_doomed (Some 1) False, RETRY) \<and>
   stable_tree_insert_walk st_doomed 2 [] (root_stable_tree st_doomed)
     = (remove_rmap_item_from_tree st_doomed (Some 1) False, RETRY) \<and>
   stable_tree_search_retry (Some 2) st_doomed
     = stable_tree_search_retry (Some 2) (remove_rmap_item_from_tree st_doomed (Some 1) False) \<and>
   stable_tree_insert 2 2 st_doomed
     = stable_tree_insert 2 2 (remove_rmap_item_from_tree st_doomed (Some 1) False) \<and>
   stable_tree_search_retry (Some 2) st_doomed
     = Some (Inr (remove_rmap_item_from_tree st_doomed (Some 1) False, None)) \<and>
   (\<exists>y. stable_tree_insert 2 2 st_doomed = Some y) \<and>
   1 \<notin> set_tree (root_stable_tree (remove_rmap_item_from_tree st_doomed (Some 1) False)) \<and>
   stable_tree_wf (remove_rmap_item_from_tree st_doomed (Some 1) False) \<and>
   \<not> doomed st_stale 1 \<and> get_ksm_page st_stale (Some 1) = (st_stale, None) \<and>
   stable_tree_search_walk st_stale (Some 2) (root_stable_tree st_stale)
     = Inr (st_stale, RETURN None) \<and>
   stable_tree_insert_walk st_stale 2 [] (root_stable_tree st_stale)
     = (st_stale, RETURN PKSM_FAULT_DROP) \<and>
   stable_tree_search_retry (Some 2) st_stale = Some (Inr (st_stale, None)) \<and>
   stable_tree_insert 2 2 st_stale = Some (Inr (st_stale, PKSM_FAULT_DROP))"
proof -
  let ?e = "remove_rmap_item_from_tree st_doomed (Some 1) False"
  note d = C1_descent_eviction [of st_doomed 1 "Some 2" Leaf Leaf 2 "[]" st_doomed
      ?e RETRY ?e RETRY 2 ?e None ?e 0]
  note a = C1_descent_eviction [of st_stale 1 "Some 2" Leaf Leaf 2 "[]" st_stale
      st_stale "RETURN None" st_stale "RETURN PKSM_FAULT_DROP" 2 st_stale None
      st_stale PKSM_FAULT_DROP]
  have t: "1 \<in> set_tree (root_stable_tree st_doomed)" by (simp add: st_doomed_tree)
  from d st_doomed_tree(2,3) t
  have w: "stable_tree_search_walk st_doomed (Some 2) (Node Leaf 1 Leaf) = Inr (?e, RETRY)"
    "stable_tree_insert_walk st_doomed 2 [] (Node Leaf 1 Leaf) = (?e, RETRY)"
    "\<exists>y. stable_tree_insert 2 2 st_doomed = Some y"
    "stable_tree_wf ?e" "1 \<notin> set_tree (root_stable_tree ?e)"
    by blast+
  from w(1,2) have w': "stable_tree_search_walk st_doomed (Some 2) (root_stable_tree st_doomed)
      = Inr (?e, RETRY)"
    "stable_tree_insert_walk st_doomed 2 [] (root_stable_tree st_doomed) = (?e, RETRY)"
    by (simp_all add: st_doomed_tree(1))
  from d w' have r: "stable_tree_search_retry (Some 2) st_doomed = stable_tree_search_retry (Some 2) ?e"
    "stable_tree_insert 2 2 st_doomed = stable_tree_insert 2 2 ?e"
    by blast+
  have "stable_tree_search_retry (Some 2) ?e = Some (Inr (?e, None))"
    using st_doomed_tree(4) by (subst stable_tree_search_retry.simps) simp
  with r(1) have f: "stable_tree_search_retry (Some 2) st_doomed = Some (Inr (?e, None))" by simp
  from a st_stale_acquire(2,3)
  have v: "stable_tree_search_walk st_stale (Some 2) (Node Leaf 1 Leaf) = Inr (st_stale, RETURN None)"
    "stable_tree_insert_walk st_stale 2 [] (Node Leaf 1 Leaf) = (st_stale, RETURN PKSM_FAULT_DROP)"
    by blast+
  then have v': "stable_tree_search_walk st_stale (Some 2) (root_stable_tree st_stale)
      = Inr (st_stale, RETURN None)"
    "stable_tree_insert_walk st_stale 2 [] (root_stable_tree st_stale)
      = (st_stale, RETURN PKSM_FAULT_DROP)"
    by (simp_all add: st_stale_acquire(1))
  from a v' have u: "stable_tree_search_retry (Some 2) st_stale = Some (Inr (st_stale, None))"
    "stable_tree_insert 2 2 st_stale = Some (Inr (st_stale, PKSM_FAULT_DROP))"
    by blast+
  from st_doomed_tree(1,2,3) w' r f w(3,4,5) st_stale_acquire(2,3) v' u
  show ?thesis by simp
qed

text \<open>The claim as worded fails where acquiring the page fails. In \<^const>\<open>st_stale\<close> the
  only stable node is item 1; it is not flagged and has its page, whose reference count
  is 0, so \<^verbatim>\<open>get_ksm_page\<close> returns no page. The search then returns no page and the
  insertion returns \<^verbatim>\<open>PKSM_FAULT_DROP\<close>, both from the unchanged state: item 1 is
  still the root of the stable tree.\<close>

theorem C1_acquire_failure_counterexample:
  "root_stable_tree st_stale = Node Leaf 1 Leaf \<and>
   get_ksm_page st_stale (Some 1) = (st_stale, None) \<and>
   \<not> PageKsm st_stale 2 \<and> pksm (pages st_stale 2) = Some 2 \<and>
   stable_tree_search st_stale 2 = Some (Inr (st_stale, None)) \<and>
   stable_tree_insert 2 2 st_stale = Some (Inr (st_stale, PKSM_FAULT_DROP)) \<and>
   PKSM_FAULT_DROP \<noteq> 0"
proof -
  have p: "\<not> PageKsm st_stale 2" "pksm (pages st_stale 2) = Some 2"
    by (simp_all add: st_stale_defs PageKsm_def)
  then have "stable_tree_search st_stale 2 = Some (Inr (st_stale, None))"
    by (simp add: stable_tree_search_def st_stale_descents(1))
  with p st_stale_acquire(1,3) st_stale_descents(2) show ?thesis
    by (simp add: PKSM_FAULT_DROP_def)
qed

subsection \<open>Frames of a candidate step\<close>

lemma ident_refl: "ident s s"
  by (simp add: ident_def)

lemma ident_trans: "ident s s1 \<Longrightarrow> ident s1 s2 \<Longrightarrow> ident s s2"
  by (simp add: ident_def)

lemma kept_refl: "kept s s"
  by (simp add: kept_def ident_refl)

lemma kept_trans: "kept s s1 \<Longrightarrow> kept s1 s2 \<Longrightarrow> kept s s2"
  unfolding kept_def by (blast intro: ident_trans)

lemma kept_ident: "kept s s' \<Longrightarrow> ident s s'"
  by (simp add: kept_def)

lemma ident_fields:
  assumes "ident s s'"
  shows "empty_pksm_zero_page s' = empty_pksm_zero_page s"
    "pksm_zero_random_checksum s' = pksm_zero_random_checksum s"
    "PG_pksm (pages s' q) = PG_pksm (pages s q)" "pksm (pages s' q) = pksm (pages s q)"
    "content (pages s' q) = content (pages s q)" "checksum (rmaps s' r) = checksum (rmaps s r)"
  using assms by (simp_all add: ident_def)

lemma ident_untracked: "ident s s' \<Longrightarrow> zero_frame_untracked s' = zero_frame_untracked s"
  by (simp add: ident_def zero_frame_untracked_def)

lemma ident_full_zero: "ident s s' \<Longrightarrow> is_page_full_zero s' p = is_page_full_zero s p"
  by (simp add: ident_def is_page_full_zero_def)

text \<open>A step that leaves the page table and the zero frame alone.\<close>

lemma keptI:
  assumes "pgtable s' = pgtable s" "empty_pksm_zero_page s' = empty_pksm_zero_page s"
    "pksm_zero_random_checksum s' = pksm_zero_random_checksum s"
    "\<And>q. PG_pksm (pages s' q) = PG_pksm (pages s q)"
    "\<And>q. pksm (pages s' q) = pksm (pages s q)"
    "\<And>q. content (pages s' q) = content (pages s q)"
    "\<And>r. checksum (rmaps s' r) = checksum (rmaps s r)"
  shows "kept s s'"
  using assms by (auto simp: kept_def ident_def zero_mapped_def split: option.splits)

lemma kept_refs_only: "refs_only s s' \<Longrightarrow> kept s s'"
  by (rule keptI) (simp_all add: refs_only_fields)

lemma kept_remove: "kept s (remove_rmap_item_from_tree s ro False)"
  by (rule keptI) (simp_all add: remove_frame)

lemma kept_walk_ok:
  assumes "walk_ok s t s1 d"
  shows "kept s s1"
proof (cases "d = RETRY")
  case True
  with assms obtain m s0 where "refs_only s s0" "s1 = remove_rmap_item_from_tree s0 (Some m) False"
    unfolding walk_ok_def by auto
  then show ?thesis using kept_trans [OF kept_refs_only kept_remove] by blast
next
  case False
  with assms show ?thesis by (simp add: walk_ok_def kept_refs_only)
qed

lemma kept_upd_page:
  assumes "\<And>pg. PG_pksm (f pg) = PG_pksm pg \<and> pksm (f pg) = pksm pg \<and> content (f pg) = content pg"
  shows "kept s (upd_page q f s)"
  by (rule keptI) (simp_all add: upd_page_def assms)

lemma kept_upd_rmap:
  assumes "\<And>it. checksum (f it) = checksum it"
  shows "kept s (upd_rmap r f s)"
  by (rule keptI) (simp_all add: upd_rmap_def assms)

lemma kept_host:
  "kept s (lock_page s p)" "kept s (unlock_page s p)" "kept s (put_page s p)"
  "kept s (get_page s p)" "kept s (set_page_dirty s p)" "kept s (page_add_anon_rmap s p)"
  "kept s (page_remove_rmap s p)" "kept s (try_to_free_swap s p)"
  "kept s (munlock_vma_page s p)" "kept s (mlock_vma_page s p)"
  "kept s (set_page_stable_ksm s p ro)"
  by (simp_all add: lock_page_def unlock_page_def put_page_def get_page_def set_page_dirty_def
      page_add_anon_rmap_def page_remove_rmap_def try_to_free_swap_def munlock_vma_page_def
      mlock_vma_page_def set_page_stable_ksm_def kept_upd_page kept_refl)

lemma kept_trylock: "trylock_page s p = (s', b) \<Longrightarrow> kept s s'"
  by (auto simp: trylock_page_def kept_upd_page kept_refl split: if_splits)

lemma ident_set_pte: "ident s (set_pte_at s v a e)"
  by (simp add: ident_def set_pte_at_def)

lemma kept_set_pte_other:
  "pte_pfn e \<noteq> empty_pksm_zero_page s \<Longrightarrow> kept s (set_pte_at s v a e)"
  by (auto simp: kept_def ident_def set_pte_at_def zero_mapped_def split: option.splits if_splits)

lemma kept_set_pte_same:
  "pgtable s v a = Some e0 \<Longrightarrow> pte_pfn e = pte_pfn e0 \<Longrightarrow> kept s (set_pte_at s v a e)"
  by (auto simp: kept_def ident_def set_pte_at_def zero_mapped_def split: option.splits if_splits)

lemma kept_counter: "kept s (s\<lparr>ksm_pages_zero_sharing := x\<rparr>)"
  by (rule keptI) simp_all

lemma kept_add_sharing_step: "kept s (add_sharing_step r s)"
  by (rule keptI) (simp_all add: add_sharing_step_def upd_rmap_def)

lemma kept_add_sharing_funpow: "kept s ((add_sharing_step r ^^ n) s)"
proof (induction n)
  case 0
  show ?case by (simp add: kept_refl)
next
  case (Suc n)
  from kept_trans [OF Suc kept_add_sharing_step] show ?case by simp
qed

lemma kept_add_sharing_counter:
  "pksm_add_sharing_page_counter s k n = Inr s' \<Longrightarrow> kept s s'"
  by (auto simp: pksm_add_sharing_page_counter_def kept_refl kept_add_sharing_funpow
      split: if_splits option.splits)

lemma kept_write_protect:
  assumes "write_protect_page s v p = (s1, err, o1)"
  shows "kept s s1"
proof (cases "page_vaddr s p v")
  case None
  with assms show ?thesis by (simp add: write_protect_page_def kept_refl)
next
  case (Some addr)
  show ?thesis
  proof (cases "page_check_address s p v addr")
    case None
    with assms Some show ?thesis by (simp add: write_protect_page_def kept_refl)
  next
    case (Some e)
    then have pe: "pgtable s v addr = Some e"
      by (auto simp: page_check_address_def split: option.splits if_splits)
    let ?sd = "if pte_dirty e then set_page_dirty s p else s"
    let ?entry = "e\<lparr>pte_write := False, pte_dirty := False\<rparr>"
    have k1: "kept s ?sd" by (simp add: kept_host kept_refl)
    have "pgtable ?sd v addr = Some e"
      using pe by (simp add: set_page_dirty_def upd_page_def)
    from kept_set_pte_same [OF this, of ?entry] have k2: "kept ?sd (set_pte_at ?sd v addr ?entry)"
      by simp
    from assms \<open>page_vaddr s p v = Some addr\<close> Some
    have "s1 = s \<or> s1 = set_pte_at ?sd v addr ?entry"
      by (auto simp: write_protect_page_def Let_def split: if_splits)
    with kept_trans [OF k1 k2] show ?thesis by (auto simp: kept_refl)
  qed
qed

text \<open>\<^verbatim>\<open>replace_page\<close> points the mapping at \<open>k\<close> and at nothing else.\<close>

lemma replace_page_frame:
  assumes "replace_page s v p k o1 = Inr (s', err)"
  shows "ident s s'" and "k \<noteq> empty_pksm_zero_page s \<Longrightarrow> kept s s'"
proof -
  have "ident s s' \<and> (k \<noteq> empty_pksm_zero_page s \<longrightarrow> kept s s')"
  proof (cases "page_vaddr s p v")
    case None
    with assms show ?thesis by (simp add: replace_page_def kept_refl ident_refl)
  next
    case (Some addr)
    show ?thesis
    proof (cases "pgtable s v addr")
      case None
      with assms Some show ?thesis by (simp add: replace_page_def kept_refl ident_refl)
    next
      case (Some e)
      show ?thesis
      proof (cases "Some e \<noteq> o1")
        case True
        with assms Some \<open>page_vaddr s p v = Some addr\<close> show ?thesis
          by (simp add: replace_page_def kept_refl ident_refl)
      next
        case False
        define entry where "entry = \<lparr>pte_pfn = k, pte_write = vm_prot_write (vmas s v),
                               pte_dirty = False, pte_special = False\<rparr>"
        define s1 where "s1 = (if is_zero_pfn s k
            then s\<lparr>ksm_pages_zero_sharing := ksm_pages_zero_sharing s + 1\<rparr>
            else page_add_anon_rmap (get_page s k) k)"
        define entry1 where "entry1 = (if is_zero_pfn s k then entry\<lparr>pte_special := True\<rparr> else entry)"
        define s2 where "s2 = set_pte_at s1 v addr entry1"
        define s3 where "s3 = page_remove_rmap s2 p"
        define s4 where "s4 = (if \<not> 0 < page_mapcount s3 p then try_to_free_swap s3 p else s3)"
        define s5 where "s5 = put_page s4 p"
        from assms Some \<open>page_vaddr s p v = Some addr\<close> False
        have r: "pksm_add_sharing_page_counter s5 k 1 = Inr s'"
          unfolding replace_page_def s5_def s4_def s3_def s2_def s1_def entry1_def entry_def
          by (auto simp: Let_def split: if_splits sum.splits)
        have k01: "kept s s1"
          unfolding s1_def using kept_trans [OF kept_host(4) kept_host(6)] kept_counter by simp
        have pf: "pte_pfn entry1 = k" by (simp add: entry1_def entry_def)
        have i12: "ident s1 s2" unfolding s2_def by (rule ident_set_pte)
        have k25: "kept s2 s5"
          unfolding s5_def s4_def s3_def
          using kept_trans [OF kept_trans [OF kept_host(7) kept_host(8)] kept_host(3)]
            kept_trans [OF kept_host(7) kept_host(3)]
          by simp
        from kept_trans [OF k25 kept_add_sharing_counter [OF r]] have k2': "kept s2 s'" .
        from ident_trans [OF ident_trans [OF kept_ident [OF k01] i12] kept_ident [OF k2']]
        have i: "ident s s'" .
        have "kept s s'" if kz: "k \<noteq> empty_pksm_zero_page s"
        proof -
          from kz ident_fields(1) [OF kept_ident [OF k01]] pf
          have "pte_pfn entry1 \<noteq> empty_pksm_zero_page s1" by simp
          from kept_set_pte_other [OF this] have "kept s1 s2" unfolding s2_def .
          from kept_trans [OF kept_trans [OF k01 this] k2'] show ?thesis .
        qed
        with i show ?thesis by simp
      qed
    qed
  qed
  then show "ident s s'" and "k \<noteq> empty_pksm_zero_page s \<Longrightarrow> kept s s'" by simp_all
qed

lemma kept_writepect:
  assumes r: "pksm_writepect_pte kpage p s v = Inr (s', err)"
    and nz: "kpage \<noteq> Some (empty_pksm_zero_page s)"
  shows "kept s s'"
proof -
  obtain s1 e1 o1 where w: "write_protect_page s v p = (s1, e1, o1)"
    by (cases "write_protect_page s v p") auto
  from kept_write_protect [OF w] have k1: "kept s s1" .
  from ident_fields(1) [OF kept_ident [OF k1]] nz
  have nz1: "kpage \<noteq> Some (empty_pksm_zero_page s1)" by simp
  define mid where "mid = (if e1 = 0 then
                   (case kpage of
                      None \<Rightarrow> Inr (set_page_stable_ksm s1 p None, 0)
                    | Some k \<Rightarrow>
                        if pages_identical s1 p k then replace_page s1 v p k o1
                        else Inr (s1, e1))
                 else Inr (s1, e1))"
  have post: "(case mid of
             Inl f \<Rightarrow> Inl f
           | Inr (s2, err2) \<Rightarrow>
               (case kpage of
                  Some k \<Rightarrow>
                    if vm_locked (vmas s2 v) \<and> err2 = 0 then
                      (let s3 = munlock_vma_page s2 p in
                       if \<not> PG_mlocked (pages s3 k)
                       then Inr (mlock_vma_page (lock_page (unlock_page s3 p) k) k, err2)
                       else Inr (s3, err2))
                    else Inr (s2, err2)
                | None \<Rightarrow> Inr (s2, err2))) = Inr (s', err)"
    using r unfolding pksm_writepect_pte_def w mid_def by (simp only: prod.case)
  then obtain s2 e2 where m: "mid = Inr (s2, e2)"
    by (cases mid) auto
  have k2: "kept s1 s2"
  proof (cases kpage)
    case None
    with m show ?thesis by (auto simp: mid_def kept_host kept_refl split: if_splits)
  next
    case (Some k)
    with nz1 have "k \<noteq> empty_pksm_zero_page s1" by simp
    with m Some show ?thesis
      by (auto simp: mid_def kept_refl replace_page_frame(2) split: if_splits)
  qed
  have k3: "kept s2 s'"
  proof (cases kpage)
    case None
    with post m show ?thesis by (simp add: kept_refl)
  next
    case (Some k)
    let ?s3 = "munlock_vma_page s2 p"
    have a: "kept s2 ?s3" by (rule kept_host)
    have b: "kept s2 (mlock_vma_page (lock_page (unlock_page ?s3 p) k) k)"
      by (rule kept_trans [OF kept_trans [OF kept_trans [OF a kept_host(2)] kept_host(1)] kept_host(10)])
    from post m Some have "s' = s2 \<or> s' = ?s3 \<or> s' = mlock_vma_page (lock_page (unlock_page ?s3 p) k) k"
      by (auto simp: Let_def split: if_splits)
    with a b show ?thesis by (auto simp: kept_refl)
  qed
  from kept_trans [OF kept_trans [OF k1 k2] k3] show ?thesis .
qed

lemma merge_zero_page_frame:
  assumes r: "pksm_merge_zero_page z p s v = Inr (s', err)"
  shows "ident s s'" and "\<not> is_page_full_zero s p \<Longrightarrow> kept s s'"
proof -
  obtain s1 e1 o1 where w: "write_protect_page s v p = (s1, e1, o1)"
    by (cases "write_protect_page s v p") auto
  from kept_write_protect [OF w] have k1: "kept s s1" .
  from r w have c: "s' = s1 \<or> (is_page_full_zero s1 p \<and> replace_page s1 v p z o1 = Inr (s', err))"
    by (auto simp: pksm_merge_zero_page_def split: if_splits)
  from c show "ident s s'"
    using kept_ident [OF k1] ident_trans [OF kept_ident [OF k1] replace_page_frame(1)] by blast
  assume "\<not> is_page_full_zero s p"
  with ident_full_zero [OF kept_ident [OF k1], of p] c have "s' = s1" by simp
  with k1 show "kept s s'" by simp
qed

text \<open>A walk over the mappings keeps what each of its steps keeps.\<close>

lemma rmap_walk_loop_rel:
  assumes step: "\<And>s v s1 r. C s \<Longrightarrow> f s v = Inr (s1, r) \<Longrightarrow> R s s1 \<and> C s1"
    and refl: "\<And>s. R s s" and trans: "\<And>a b c. R a b \<Longrightarrow> R b c \<Longrightarrow> R a c"
  shows "C s \<Longrightarrow> rmap_walk_loop f p vs ret s = Inr (s', r') \<Longrightarrow> R s s' \<and> C s'"
proof (induction vs arbitrary: s ret)
  case Nil
  then show ?case by (simp add: refl)
next
  case (Cons v vs)
  show ?case
  proof (cases "vma_can_enter s v \<and> page_vaddr s p v \<noteq> None")
    case False
    with Cons.prems show ?thesis by (auto simp: refl split: option.splits)
  next
    case True
    then obtain addr where a: "vma_can_enter s v" "page_vaddr s p v = Some addr" by auto
    show ?thesis
    proof (cases "f s v")
      case (Inl x)
      with Cons.prems a show ?thesis by simp
    next
      case (Inr b)
      obtain s1 r1 where b: "b = (s1, r1)" by (cases b)
      from step [OF Cons.prems(1) Inr [unfolded b]] have s: "R s s1" "C s1" by simp_all
      show ?thesis
      proof (cases "r1 \<noteq> PKSM_FAULT_SUCCESS")
        case True
        with Cons.prems a Inr b s show ?thesis by simp
      next
        case False
        with Cons.prems a Inr b have "rmap_walk_loop f p vs r1 s1 = Inr (s', r')" by simp
        from Cons.IH [OF s(2) this] s(1) show ?thesis by (blast intro: trans)
      qed
    qed
  qed
qed

lemma pksm_rmap_walk_rel:
  assumes step: "\<And>s v s1 r. C s \<Longrightarrow> f s v = Inr (s1, r) \<Longrightarrow> R s s1 \<and> C s1"
    and refl: "\<And>s. R s s" and trans: "\<And>a b c. R a b \<Longrightarrow> R b c \<Longrightarrow> R a c"
    and c: "C s" and r: "pksm_rmap_walk s p f = Inr (s', r')"
  shows "R s s' \<and> C s'"
proof (cases "PageAnon s p \<and> page_lock_anon_vma s p \<noteq> None")
  case False
  with r c show ?thesis by (auto simp: pksm_rmap_walk_def refl split: if_splits option.splits)
next
  case True
  then obtain a where "PageAnon s p" "page_lock_anon_vma s p = Some a" by auto
  with r have "rmap_walk_loop f p (anon_vma_head s a) PKSM_FAULT_DROP s = Inr (s', r')"
    by (simp add: pksm_rmap_walk_def)
  from rmap_walk_loop_rel [where C = C and R = R, OF step refl trans c this]
  show ?thesis by simp
qed

lemma kept_merge_one_anon_page:
  assumes r: "try_to_merge_one_anon_page s p kpage = Inr (s', err)"
    and nz: "kpage \<noteq> Some (empty_pksm_zero_page s)"
  shows "kept s s'"
proof (cases "Some p = kpage \<or> \<not> PageAnon s p")
  case True
  with r show ?thesis by (auto simp: try_to_merge_one_anon_page_def kept_refl split: if_splits)
next
  case False
  obtain s1 b where t: "trylock_page s p = (s1, b)" by (cases "trylock_page s p")
  from kept_trylock [OF t] have k1: "kept s s1" .
  show ?thesis
  proof (cases b)
    case False
    with r t \<open>\<not> (Some p = kpage \<or> \<not> PageAnon s p)\<close> k1 show ?thesis
      by (auto simp: try_to_merge_one_anon_page_def)
  next
    case True
    with r t \<open>\<not> (Some p = kpage \<or> \<not> PageAnon s p)\<close>
    obtain s2 where w: "pksm_rmap_walk s1 p (pksm_writepect_pte kpage p) = Inr (s2, err)"
      and e: "s' = unlock_page s2 p"
      by (auto simp: try_to_merge_one_anon_page_def split: sum.splits)
    let ?C = "\<lambda>t. kpage \<noteq> Some (empty_pksm_zero_page t)"
    have step: "kept t t1 \<and> ?C t1"
      if "?C t" "pksm_writepect_pte kpage p t v = Inr (t1, r1)" for t v t1 r1
    proof -
      from kept_writepect [OF that(2) that(1)] have "kept t t1" .
      with that(1) ident_fields(1) [OF kept_ident [OF this]] show ?thesis by simp
    qed
    from nz ident_fields(1) [OF kept_ident [OF k1]] have c1: "?C s1" by simp
    from pksm_rmap_walk_rel [where C = ?C and R = kept, OF step kept_refl kept_trans c1 w]
    have "kept s1 s2" by simp
    from kept_trans [OF kept_trans [OF k1 this] kept_host(2)] e show ?thesis by simp
  qed
qed

text \<open>The zero fast path: only an all-zero page gets a mapping to the zero frame.\<close>

lemma merge_zero_page_walk:
  assumes w: "pksm_rmap_walk s p (pksm_merge_zero_page z p) = Inr (s', err)"
  shows "ident s s'" and "\<not> is_page_full_zero s p \<Longrightarrow> kept s s'"
proof -
  have step1: "ident t t1 \<and> True"
    if "True" "pksm_merge_zero_page z p t v = Inr (t1, r1)" for t v t1 r1
    using merge_zero_page_frame(1) [OF that(2)] by simp
  from pksm_rmap_walk_rel [where C = "\<lambda>_. True" and R = ident, OF step1 ident_refl ident_trans _ w]
  show "ident s s'" by simp
  assume nz: "\<not> is_page_full_zero s p"
  let ?C = "\<lambda>t. \<not> is_page_full_zero t p"
  have step2: "kept t t1 \<and> ?C t1"
    if "?C t" "pksm_merge_zero_page z p t v = Inr (t1, r1)" for t v t1 r1
  proof -
    from merge_zero_page_frame(2) [OF that(2) that(1)] have "kept t t1" .
    with that(1) ident_full_zero [OF kept_ident [OF this], of p] show ?thesis by simp
  qed
  from pksm_rmap_walk_rel [where C = ?C and R = kept, OF step2 kept_refl kept_trans nz w]
  show "kept s s'" by simp
qed

lemma try_to_merge_zero_page_frame:
  assumes r: "try_to_merge_zero_page s p = Inr (s', err)"
  shows "ident s s'" and "\<not> is_page_full_zero s p \<Longrightarrow> kept s s'"
proof -
  have "ident s s' \<and> (\<not> is_page_full_zero s p \<longrightarrow> kept s s')"
  proof (cases "PageAnon s p")
    case False
    with r show ?thesis by (simp add: try_to_merge_zero_page_def kept_refl ident_refl)
  next
    case True
    obtain s1 b where t: "trylock_page s p = (s1, b)" by (cases "trylock_page s p")
    from kept_trylock [OF t] have k1: "kept s s1" .
    show ?thesis
    proof (cases b)
      case False
      with r t True k1 show ?thesis
        by (auto simp: try_to_merge_zero_page_def kept_ident)
    next
      case b: True
      with r t True obtain s2 where
        w: "pksm_rmap_walk s1 p (pksm_merge_zero_page (empty_pksm_zero_page s) p) = Inr (s2, err)"
        and e: "s' = unlock_page s2 p"
        by (auto simp: try_to_merge_zero_page_def Let_def split: sum.splits)
      from ident_trans [OF ident_trans [OF kept_ident [OF k1] merge_zero_page_walk(1) [OF w]]
          kept_ident [OF kept_host(2)]] e
      have i: "ident s s'" by simp
      have "kept s s'" if "\<not> is_page_full_zero s p"
      proof -
        from that ident_full_zero [OF kept_ident [OF k1], of p]
        have "\<not> is_page_full_zero s1 p" by simp
        from kept_trans [OF kept_trans [OF k1 merge_zero_page_walk(2) [OF w this]] kept_host(2)] e
        show ?thesis by simp
      qed
      with i show ?thesis by simp
    qed
  qed
  then show "ident s s'" and "\<not> is_page_full_zero s p \<Longrightarrow> kept s s'" by simp_all
qed

lemma cmp_and_merge_zero_page_frame:
  assumes r: "cmp_and_merge_zero_page s p = Inr (s', z)"
  shows "ident s s'"
    and "\<not> (is_page_full_zero s p \<and>
            (\<exists>ri. pksm (pages s p) = Some ri \<and> checksum (rmaps s ri) = pksm_zero_random_checksum s))
         \<Longrightarrow> kept s s'"
proof -
  have "ident s s' \<and> (\<not> (is_page_full_zero s p \<and>
            (\<exists>ri. pksm (pages s p) = Some ri \<and> checksum (rmaps s ri) = pksm_zero_random_checksum s))
         \<longrightarrow> kept s s')"
  proof (cases "find_zero_page_hash s p")
    case (Inl f)
    with r show ?thesis by (simp add: cmp_and_merge_zero_page_def)
  next
    case (Inr b)
    show ?thesis
    proof (cases b)
      case False
      with r Inr show ?thesis by (simp add: cmp_and_merge_zero_page_def kept_refl ident_refl)
    next
      case True
      with Inr have h: "\<exists>ri. pksm (pages s p) = Some ri \<and>
          checksum (rmaps s ri) = pksm_zero_random_checksum s"
        by (auto simp: find_zero_page_hash_def split: option.splits)
      from r Inr True obtain e where t: "try_to_merge_zero_page s p = Inr (s', e)"
        by (auto simp: cmp_and_merge_zero_page_def split: sum.splits if_splits)
      from try_to_merge_zero_page_frame [OF t] h show ?thesis by blast
    qed
  qed
  then show "ident s s'"
    and "\<not> (is_page_full_zero s p \<and>
            (\<exists>ri. pksm (pages s p) = Some ri \<and> checksum (rmaps s ri) = pksm_zero_random_checksum s))
         \<Longrightarrow> kept s s'" by simp_all
qed

lemma kept_stable_tree_append:
  assumes "stable_tree_append s h p = Inr s'"
  shows "kept s s'"
proof (rule keptI)
  note d = stable_tree_append_def Let_def alloc_stable_anon_def get_anon_vma_def upd_rmap_def
  show "pgtable s' = pgtable s" using assms
    by (auto simp: d split: if_splits option.splits prod.splits)
  show "empty_pksm_zero_page s' = empty_pksm_zero_page s" using assms
    by (auto simp: d split: if_splits option.splits prod.splits)
  show "pksm_zero_random_checksum s' = pksm_zero_random_checksum s" using assms
    by (auto simp: d split: if_splits option.splits prod.splits)
  have "pages s' = pages s" using assms
    by (auto simp: d split: if_splits option.splits prod.splits)
  then show "\<And>q. PG_pksm (pages s' q) = PG_pksm (pages s q)"
    "\<And>q. pksm (pages s' q) = pksm (pages s q)"
    "\<And>q. content (pages s' q) = content (pages s q)" by simp_all
  show "\<And>r. checksum (rmaps s' r) = checksum (rmaps s r)" using assms
    by (auto simp: d split: if_splits option.splits prod.splits)
qed

lemma kept_stable_search:
  assumes ret: "stable_tree_search_retry ro s = Some y"
  shows "\<forall>s' res. y = Inr (s', res) \<longrightarrow>
           kept s s' \<and> (\<forall>k. res = Some k \<longrightarrow> PG_pksm (pages s' k))"
proof (rule stable_search_retry_induct [OF ret])
  fix s s1
  assume w: "stable_tree_search_walk s ro (root_stable_tree s) = Inr (s1, RETRY)"
    and IH: "\<forall>s' res. y = Inr (s', res) \<longrightarrow>
           kept s1 s' \<and> (\<forall>k. res = Some k \<longrightarrow> PG_pksm (pages s' k))"
  from kept_walk_ok [OF stable_search_walk_ok [OF w]] IH
  show "\<forall>s' res. y = Inr (s', res) \<longrightarrow>
           kept s s' \<and> (\<forall>k. res = Some k \<longrightarrow> PG_pksm (pages s' k))"
    by (blast intro: kept_trans)
next
  fix s
  assume body: "stable_tree_search_retry ro s = Some y"
    and nr: "\<forall>s1. stable_tree_search_walk s ro (root_stable_tree s) \<noteq> Inr (s1, RETRY)"
  show "\<forall>s' res. y = Inr (s', res) \<longrightarrow>
           kept s s' \<and> (\<forall>k. res = Some k \<longrightarrow> PG_pksm (pages s' k))"
  proof (intro allI impI)
    fix s' res
    assume y: "y = Inr (s', res)"
    show "kept s s' \<and> (\<forall>k. res = Some k \<longrightarrow> PG_pksm (pages s' k))"
    proof (cases "stable_tree_search_walk s ro (root_stable_tree s)")
      case (Inl f)
      with body y show ?thesis by (subst (asm) stable_tree_search_retry.simps) simp
    next
      case (Inr b)
      obtain s1 d where b: "b = (s1, d)" by (cases b)
      with Inr have w: "stable_tree_search_walk s ro (root_stable_tree s) = Inr (s1, d)" by simp
      from kept_walk_ok [OF stable_search_walk_ok [OF w]] have k: "kept s s1" .
      show ?thesis
      proof (cases d)
        case RETRY
        with nr w show ?thesis by simp
      next
        case (RETURN x)
        with body y w have e: "s' = s1" "res = x"
          by (subst (asm) stable_tree_search_retry.simps, simp)+
        from stable_search_walk_found [of s ro "root_stable_tree s" s1] w RETURN e k
        show ?thesis by auto
      next
        case (SLOT ds)
        with body y w have "s' = s1" "res = None"
          by (subst (asm) stable_tree_search_retry.simps, simp)+
        with k show ?thesis by simp
      qed
    qed
  qed
qed

lemma kept_link_stable:
  "kept s1 (upd_rmap ri (set_flag STABLE_FLAG)
      (set_page_stable_ksm
        ((upd_rmap ri (\<lambda>it. it\<lparr>rb_linked := True\<rparr>) s1)
           \<lparr>root_stable_tree := rb_link_node ri ds (root_stable_tree s1)\<rparr>) kp (Some ri)))"
  by (rule keptI)
    (simp_all add: upd_rmap_def set_page_stable_ksm_def upd_page_def set_flag_def)

lemma kept_stable_insert:
  assumes ret: "stable_tree_insert ri kp s = Some y"
  shows "\<forall>s' res. y = Inr (s', res) \<longrightarrow> kept s s'"
proof (rule stable_insert_retry_induct [OF ret])
  fix s s1
  assume w: "stable_tree_insert_walk s ri [] (root_stable_tree s) = (s1, RETRY)"
    and IH: "\<forall>s' res. y = Inr (s', res) \<longrightarrow> kept s1 s'"
  from kept_walk_ok [OF stable_insert_walk_ok [OF w]] IH
  show "\<forall>s' res. y = Inr (s', res) \<longrightarrow> kept s s'"
    by (blast intro: kept_trans)
next
  fix s
  assume body: "stable_tree_insert ri kp s = Some y"
    and nr: "\<forall>s1. stable_tree_insert_walk s ri [] (root_stable_tree s) \<noteq> (s1, RETRY)"
  show "\<forall>s' res. y = Inr (s', res) \<longrightarrow> kept s s'"
  proof (intro allI impI)
    fix s' res
    assume y: "y = Inr (s', res)"
    obtain s1 d where w: "stable_tree_insert_walk s ri [] (root_stable_tree s) = (s1, d)"
      by (cases "stable_tree_insert_walk s ri [] (root_stable_tree s)")
    from kept_walk_ok [OF stable_insert_walk_ok [OF w]] have k: "kept s s1" .
    show "kept s s'"
    proof (cases d)
      case RETRY
      with nr w show ?thesis by simp
    next
      case (RETURN x)
      with body y w have "s' = s1"
        by (subst (asm) stable_tree_insert.simps) simp
      with k show ?thesis by simp
    next
      case (SLOT ds)
      with body y w have "s' = upd_rmap ri (set_flag STABLE_FLAG)
        (set_page_stable_ksm
          ((upd_rmap ri (\<lambda>it. it\<lparr>rb_linked := True\<rparr>) s1)
             \<lparr>root_stable_tree := rb_link_node ri ds (root_stable_tree s1)\<rparr>) kp (Some ri))"
        by (subst (asm) stable_tree_insert.simps) (simp add: Let_def split: if_splits)
      with kept_trans [OF k kept_link_stable] show ?thesis by simp
    qed
  qed
qed

lemma kept_link_unstable:
  "kept s1
    (upd_rmap ri (set_flag CHECKSUM_LIST_FLAG)
      (((upd_rmap ri (\<lambda>it. it\<lparr>rb_linked := True\<rparr>) (upd_rmap ri (set_flag UNSTABLE_FLAG) s1))
          \<lparr>root_unstable_tree := rb_link_node ri ds (root_unstable_tree (upd_rmap ri (set_flag UNSTABLE_FLAG) s1)),
           ksm_pages_unshared := ksm_pages_unshared (upd_rmap ri (set_flag UNSTABLE_FLAG) s1) + 1\<rparr>)
        \<lparr>unstabletree_checksum_list :=
           list_add_tail ri (unstabletree_checksum_list
             ((upd_rmap ri (\<lambda>it. it\<lparr>rb_linked := True\<rparr>) (upd_rmap ri (set_flag UNSTABLE_FLAG) s1))
          \<lparr>root_unstable_tree := rb_link_node ri ds (root_unstable_tree (upd_rmap ri (set_flag UNSTABLE_FLAG) s1)),
           ksm_pages_unshared := ksm_pages_unshared (upd_rmap ri (set_flag UNSTABLE_FLAG) s1) + 1\<rparr>))\<rparr>))"
  by (rule keptI) (simp_all add: upd_rmap_def set_flag_def)

lemma kept_unstable:
  assumes ret: "unstable_tree_retry ri p s = Some y"
  shows "\<forall>s' res. y = Inr (s', res) \<longrightarrow> kept s s'"
proof (rule unstable_retry_induct [OF ret])
  fix s s1
  assume w: "unstable_tree_walk s ri p [] (root_unstable_tree s) = Inr (s1, RETRY)"
    and IH: "\<forall>s' res. y = Inr (s', res) \<longrightarrow> kept s1 s'"
  from kept_walk_ok [OF unstable_walk_ok [OF w]] IH
  show "\<forall>s' res. y = Inr (s', res) \<longrightarrow> kept s s'"
    by (blast intro: kept_trans)
next
  fix s
  assume body: "unstable_tree_retry ri p s = Some y"
    and nr: "\<forall>s1. unstable_tree_walk s ri p [] (root_unstable_tree s) \<noteq> Inr (s1, RETRY)"
  show "\<forall>s' res. y = Inr (s', res) \<longrightarrow> kept s s'"
  proof (intro allI impI)
    fix s' res
    assume y: "y = Inr (s', res)"
    show "kept s s'"
    proof (cases "unstable_tree_walk s ri p [] (root_unstable_tree s)")
      case (Inl f)
      with body y show ?thesis by (subst (asm) unstable_tree_retry.simps) simp
    next
      case (Inr b)
      obtain s1 d where b: "b = (s1, d)" by (cases b)
      with Inr have w: "unstable_tree_walk s ri p [] (root_unstable_tree s) = Inr (s1, d)" by simp
      from kept_walk_ok [OF unstable_walk_ok [OF w]] have k: "kept s s1" .
      show ?thesis
      proof (cases d)
        case RETRY
        with nr w show ?thesis by simp
      next
        case (RETURN x)
        with body y w have "s' = s1"
          by (subst (asm) unstable_tree_retry.simps) simp
        with k show ?thesis by simp
      next
        case (SLOT ds)
        from body y w SLOT kept_trans [OF k kept_link_unstable [of s1 ri ds]]
        show ?thesis
          by (subst (asm) unstable_tree_retry.simps) (auto simp: Let_def split: if_splits)
      qed
    qed
  qed
qed

lemma untracked_not_zero:
  assumes "zero_frame_untracked s"
  shows "PG_pksm (pages s k) \<Longrightarrow> k \<noteq> empty_pksm_zero_page s"
    and "pksm (pages s k) = Some r \<Longrightarrow> k \<noteq> empty_pksm_zero_page s"
  using assms by (auto simp: zero_frame_untracked_def)

lemma kept_merge_with_pksm_page:
  assumes "try_to_merge_with_pksm_page s r p kpage = Inr (s', err)"
    and "kpage \<noteq> Some (empty_pksm_zero_page s)"
  shows "kept s s'"
  using assms kept_merge_one_anon_page [of s p kpage s' err]
  by (auto simp: try_to_merge_with_pksm_page_def split: if_splits)

lemma kept_merge_with_stable:
  assumes r: "merge_with_stable s p ri k = Inr (s', err)"
    and nz: "k \<noteq> empty_pksm_zero_page s"
  shows "kept s s'"
proof -
  from r obtain s1 e1 where m: "try_to_merge_with_pksm_page s ri p (Some k) = Inr (s1, e1)"
    by (auto simp: merge_with_stable_def split: if_splits sum.splits)
  from nz have "Some k \<noteq> Some (empty_pksm_zero_page s)" by simp
  from kept_merge_with_pksm_page [OF m this] have k1: "kept s s1" .
  show ?thesis
  proof (cases "e1 = 0")
    case False
    with r m have "s' = put_page s1 k"
      by (auto simp: merge_with_stable_def split: if_splits)
    with kept_trans [OF k1 kept_host(3)] show ?thesis by simp
  next
    case True
    let ?s2 = "lock_page s1 k"
    from r m True obtain s3 where a: "stable_tree_append ?s2 (page_stable_rmap_item ?s2 k) p = Inr s3"
      and e: "s' = put_page (unlock_page s3 k) k"
      by (auto simp: merge_with_stable_def Let_def split: if_splits sum.splits)
    from kept_trans [OF kept_trans [OF kept_trans [OF kept_trans [OF k1 kept_host(1)]
          kept_stable_tree_append [OF a]] kept_host(2)] kept_host(3)] e
    show ?thesis by simp
  qed
qed

lemma kept_merge_two_pages:
  assumes r: "try_to_merge_two_pages s ri p tr tp = Inr (s', err)"
    and z: "zero_frame_untracked s"
  shows "kept s s'"
proof -
  from r have pk: "pksm (pages s p) = Some ri"
    by (auto simp: try_to_merge_two_pages_def split: if_splits)
  from untracked_not_zero(2) [OF z this] have nz: "p \<noteq> empty_pksm_zero_page s" .
  from r obtain s1 e1 where m: "try_to_merge_with_pksm_page s ri p None = Inr (s1, e1)"
    by (auto simp: try_to_merge_two_pages_def split: if_splits sum.splits)
  from kept_merge_with_pksm_page [OF m] have k1: "kept s s1" by simp
  show ?thesis
  proof (cases "e1 = 0")
    case False
    with r m k1 show ?thesis
      by (auto simp: try_to_merge_two_pages_def split: if_splits)
  next
    case True
    with r m have m2: "try_to_merge_with_pksm_page s1 tr tp (Some p) = Inr (s', err)"
      by (auto simp: try_to_merge_two_pages_def split: if_splits)
    from nz ident_fields(1) [OF kept_ident [OF k1]]
    have "Some p \<noteq> Some (empty_pksm_zero_page s1)" by simp
    from kept_trans [OF k1 kept_merge_with_pksm_page [OF m2 this]] show ?thesis .
  qed
qed

lemma kept_merge_with_unstable:
  assumes r: "merge_with_unstable s p ri tr tp = Some (Inr (s', err))"
    and z: "zero_frame_untracked s"
  shows "kept s s'"
proof -
  from r obtain s1 e1 where m: "try_to_merge_two_pages s ri p tr tp = Inr (s1, e1)"
    by (auto simp: merge_with_unstable_def split: sum.splits)
  from kept_merge_two_pages [OF m z] have k1: "kept s s1" .
  show ?thesis
  proof (cases "e1 = 0")
    case False
    with r m have "s' = put_page s1 tp"
      by (auto simp: merge_with_unstable_def)
    with kept_trans [OF k1 kept_host(3)] show ?thesis by simp
  next
    case True
    define s3 where "s3 = lock_page (remove_rmap_item_from_tree s1 (Some tr) False) p"
    have k3: "kept s s3"
      unfolding s3_def by (rule kept_trans [OF kept_trans [OF k1 kept_remove] kept_host(1)])
    from r m True obtain s4 e4 where i: "stable_tree_insert ri p s3 = Some (Inr (s4, e4))"
      unfolding merge_with_unstable_def s3_def
      by (auto simp: Let_def split: if_splits option.splits sum.splits)
    from kept_stable_insert [OF i] have k4: "kept s3 s4" by simp
    from r m True i have post: "(if e4 = 0 then
                         (case stable_tree_append s4 (Some ri) p of
                            Inl f \<Rightarrow> Some (Inl f)
                          | Inr s5 \<Rightarrow>
                              (case stable_tree_append (lock_page s5 tp) (Some ri) tp of
                                 Inl f \<Rightarrow> Some (Inl f)
                               | Inr s6 \<Rightarrow>
                                   Some (Inr (put_page (unlock_page (unlock_page s6 tp) p) tp, 0))))
                       else Some (Inr (put_page (unlock_page s4 p) tp, e4))) = Some (Inr (s', err))"
      unfolding merge_with_unstable_def s3_def [symmetric]
      by (auto simp: Let_def s3_def split: if_splits)
    have "kept s4 s'"
    proof (cases "e4 = 0")
      case False
      with post have "s' = put_page (unlock_page s4 p) tp" by simp
      with kept_trans [OF kept_host(2) kept_host(3)] show ?thesis by simp
    next
      case True
      with post obtain s5 s6 where a5: "stable_tree_append s4 (Some ri) p = Inr s5"
        and a6: "stable_tree_append (lock_page s5 tp) (Some ri) tp = Inr s6"
        and e: "s' = put_page (unlock_page (unlock_page s6 tp) p) tp"
        by (auto split: sum.splits)
      from kept_trans [OF kept_trans [OF kept_trans [OF kept_trans [OF kept_trans
            [OF kept_stable_tree_append [OF a5] kept_host(1)] kept_stable_tree_append [OF a6]]
            kept_host(2)] kept_host(2)] kept_host(3)] e
      show ?thesis by simp
    qed
    from kept_trans [OF kept_trans [OF k3 k4] this] show ?thesis .
  qed
qed

lemma kept_cmp_and_merge_trees:
  assumes r: "cmp_and_merge_trees s p ri = Some (Inr (s', err))"
    and z: "zero_frame_untracked s"
  shows "kept s s'"
proof -
  from r obtain s1 x where ss: "stable_tree_search s p = Some (Inr (s1, x))"
    by (auto simp: cmp_and_merge_trees_def split: option.splits sum.splits)
  have k1: "kept s s1 \<and> (\<forall>k. x = Some k \<longrightarrow> PG_pksm (pages s1 k))"
  proof (cases "PageKsm s p")
    case True
    with ss show ?thesis by (simp add: stable_tree_search_def kept_refl)
  next
    case False
    with ss have "stable_tree_search_retry (pksm (pages s p)) s = Some (Inr (s1, x))"
      by (simp add: stable_tree_search_def)
    from kept_stable_search [OF this] show ?thesis by simp
  qed
  from z ident_untracked [OF kept_ident [of s s1]] k1 have z1: "zero_frame_untracked s1" by simp
  show ?thesis
  proof (cases x)
    case (Some k)
    with r ss have m: "merge_with_stable s1 p ri k = Inr (s', err)"
      by (simp add: cmp_and_merge_trees_def)
    from k1 Some untracked_not_zero(1) [OF z1] have "k \<noteq> empty_pksm_zero_page s1" by simp
    from kept_merge_with_stable [OF m this] k1 show ?thesis by (blast intro: kept_trans)
  next
    case None
    with r ss obtain s2 y where u: "unstable_tree_search_insert s1 ri p = Some (Inr (s2, y))"
      by (auto simp: cmp_and_merge_trees_def split: option.splits sum.splits)
    then have "unstable_tree_retry ri p s1 = Some (Inr (s2, y))"
      by (auto simp: unstable_tree_search_insert_def split: if_splits)
    from kept_unstable [OF this] have k2: "kept s1 s2" by simp
    from z1 ident_untracked [OF kept_ident [OF k2]] have z2: "zero_frame_untracked s2" by simp
    show ?thesis
    proof (cases y)
      case None
      with r ss \<open>x = None\<close> u have "s' = s2" by (simp add: cmp_and_merge_trees_def)
      with k1 k2 show ?thesis by (blast intro: kept_trans)
    next
      case (Some tt)
      obtain tr tp where "tt = (tr, tp)" by (cases tt)
      with r ss \<open>x = None\<close> u Some
      have "merge_with_unstable s2 p ri tr tp = Some (Inr (s', err))"
        by (simp add: cmp_and_merge_trees_def)
      from kept_merge_with_unstable [OF this z2] k1 k2 show ?thesis by (blast intro: kept_trans)
    qed
  qed
qed

subsection \<open>Zero fast path\<close>

lemma same_trees_refl: "same_trees s s"
  by (simp add: same_trees_def)

lemma same_trees_trans: "same_trees a b \<Longrightarrow> same_trees b c \<Longrightarrow> same_trees a c"
  by (simp add: same_trees_def)

lemma same_trees_upd_page: "same_trees s (upd_page q f s)"
  by (simp add: same_trees_def upd_page_def)

lemma same_trees_add_sharing_step: "same_trees s (add_sharing_step r s)"
  by (simp add: same_trees_def add_sharing_step_def upd_rmap_def)

lemma same_trees_add_sharing_funpow: "same_trees s ((add_sharing_step r ^^ n) s)"
proof (induction n)
  case 0
  show ?case by (simp add: same_trees_refl)
next
  case (Suc n)
  from same_trees_trans [OF Suc same_trees_add_sharing_step] show ?case by simp
qed

lemma same_trees_write_protect:
  "write_protect_page s v p = (s1, err, o1) \<Longrightarrow> same_trees s s1"
  by (auto simp: write_protect_page_def same_trees_def Let_def set_pte_at_def set_page_dirty_def
      upd_page_def split: option.splits if_splits)

lemma same_trees_replace_page:
  assumes "replace_page s v p k o1 = Inr (s', err)"
  shows "same_trees s s'"
proof (cases "page_vaddr s p v")
  case None
  with assms show ?thesis by (simp add: replace_page_def same_trees_refl)
next
  case (Some addr)
  show ?thesis
  proof (cases "pgtable s v addr")
    case None
    with assms Some show ?thesis by (simp add: replace_page_def same_trees_refl)
  next
    case (Some e)
    show ?thesis
    proof (cases "Some e \<noteq> o1")
      case True
      with assms Some \<open>page_vaddr s p v = Some addr\<close> show ?thesis
        by (simp add: replace_page_def same_trees_refl)
    next
      case False
      from assms Some \<open>page_vaddr s p v = Some addr\<close> False
      obtain s5 where r: "pksm_add_sharing_page_counter s5 k 1 = Inr s'"
        and t: "same_trees s s5"
        unfolding replace_page_def
        by (auto simp: Let_def same_trees_def set_pte_at_def page_remove_rmap_def
            try_to_free_swap_def put_page_def upd_page_def page_add_anon_rmap_def get_page_def
            split: if_splits sum.splits)
      from r have "same_trees s5 s'"
        by (auto simp: pksm_add_sharing_page_counter_def same_trees_refl
            same_trees_add_sharing_step same_trees_add_sharing_funpow
            split: if_splits option.splits)
      from same_trees_trans [OF t this] show ?thesis .
    qed
  qed
qed

lemma same_trees_merge_zero_page:
  assumes r: "pksm_merge_zero_page z p s v = Inr (s', err)"
  shows "same_trees s s'"
proof -
  obtain s1 e1 o1 where w: "write_protect_page s v p = (s1, e1, o1)"
    by (cases "write_protect_page s v p") auto
  from r w have "s' = s1 \<or> replace_page s1 v p z o1 = Inr (s', err)"
    by (auto simp: pksm_merge_zero_page_def split: if_splits)
  with same_trees_write_protect [OF w] show ?thesis
    by (auto intro: same_trees_trans same_trees_replace_page)
qed

lemma same_trees_try_to_merge_zero_page:
  assumes r: "try_to_merge_zero_page s p = Inr (s', err)"
  shows "same_trees s s'"
proof (cases "PageAnon s p")
  case False
  with r show ?thesis by (simp add: try_to_merge_zero_page_def same_trees_refl)
next
  case True
  obtain s1 b where t: "trylock_page s p = (s1, b)" by (cases "trylock_page s p")
  then have k1: "same_trees s s1"
    by (auto simp: trylock_page_def same_trees_upd_page same_trees_refl split: if_splits)
  show ?thesis
  proof (cases b)
    case False
    with r t True k1 show ?thesis by (auto simp: try_to_merge_zero_page_def)
  next
    case b: True
    with r t True obtain s2 where
      w: "pksm_rmap_walk s1 p (pksm_merge_zero_page (empty_pksm_zero_page s) p) = Inr (s2, err)"
      and e: "s' = unlock_page s2 p"
      by (auto simp: try_to_merge_zero_page_def Let_def split: sum.splits)
    have step: "same_trees t t1 \<and> True"
      if "True" "pksm_merge_zero_page (empty_pksm_zero_page s) p t v = Inr (t1, r1)" for t v t1 r1
      using same_trees_merge_zero_page [OF that(2)] by simp
    from pksm_rmap_walk_rel [where C = "\<lambda>_. True" and R = same_trees,
        OF step same_trees_refl same_trees_trans _ w]
    have "same_trees s1 s2" by simp
    from same_trees_trans [OF same_trees_trans [OF k1 this]] e show ?thesis
      by (simp add: unlock_page_def same_trees_upd_page)
  qed
qed

lemma same_trees_cmp_and_merge_zero_page:
  "cmp_and_merge_zero_page s p = Inr (s', z) \<Longrightarrow> same_trees s s'"
  by (auto simp: cmp_and_merge_zero_page_def same_trees_refl same_trees_try_to_merge_zero_page
      split: sum.splits bool.splits if_splits)

text \<open>The start of \<^verbatim>\<open>cmp_and_merge_page\<close>, up to the zero fast path.\<close>

lemma candidate_entry_frame:
  assumes e: "(if ic then store_checksum (remove_rmap_item_from_tree s (Some ri) False) p ri
               else Inr (remove_rmap_item_from_tree s (Some ri) False)) = Inr s2"
  shows "pgtable s2 = pgtable s" "empty_pksm_zero_page s2 = empty_pksm_zero_page s"
    "pages s2 = pages s"
    "root_stable_tree s2 = root_stable_tree (remove_rmap_item_from_tree s (Some ri) False)"
    "root_unstable_tree s2 = root_unstable_tree (remove_rmap_item_from_tree s (Some ri) False)"
proof -
  let ?s1 = "remove_rmap_item_from_tree s (Some ri) False"
  from e have "s2 = ?s1 \<or> (\<exists>c. s2 = upd_rmap ri (\<lambda>it. it\<lparr>checksum := c\<rparr>) ?s1)"
    by (auto simp: store_checksum_def split: if_splits option.splits)
  then have "pgtable s2 = pgtable ?s1 \<and> empty_pksm_zero_page s2 = empty_pksm_zero_page ?s1 \<and>
    pages s2 = pages ?s1 \<and> root_stable_tree s2 = root_stable_tree ?s1 \<and>
    root_unstable_tree s2 = root_unstable_tree ?s1"
    by (auto simp: upd_rmap_def)
  then show "pgtable s2 = pgtable s" "empty_pksm_zero_page s2 = empty_pksm_zero_page s"
    "pages s2 = pages s"
    "root_stable_tree s2 = root_stable_tree (remove_rmap_item_from_tree s (Some ri) False)"
    "root_unstable_tree s2 = root_unstable_tree (remove_rmap_item_from_tree s (Some ri) False)"
    by (simp_all add: remove_frame)
qed

lemma remove_keeps_stable_tree:
  "\<not> in_stable_tree (rmaps s ri) \<Longrightarrow>
     root_stable_tree (remove_rmap_item_from_tree s (Some ri) False) = root_stable_tree s"
  by (simp add: remove_rmap_item_from_tree_def in_stable_tree_def Let_def upd_rmap_def)

lemma zero_redirect_in_zero_path:
  assumes r: "cmp_and_merge_zero_page s p = Inr (s', z)"
    and new: "zero_mapped s' v a" "\<not> zero_mapped s v a"
  shows "is_page_full_zero s p \<and>
         (\<exists>ri. pksm (pages s p) = Some ri \<and> checksum (rmaps s ri) = pksm_zero_random_checksum s)"
proof (rule ccontr)
  assume "\<not> ?thesis"
  from cmp_and_merge_zero_page_frame(2) [OF r this] new show False
    by (simp add: kept_def)
qed

lemma zero_redirect_in_step:
  assumes z: "zero_frame_untracked s"
    and r: "cmp_and_merge_page s p ro ic = Some (Inr (s', res))"
    and new: "zero_mapped s' v a" "\<not> zero_mapped s v a"
  shows "is_page_full_zero s p \<and>
         (\<exists>r. pksm (pages s' p) = Some r \<and> checksum (rmaps s' r) = pksm_zero_random_checksum s')"
proof (cases "check_valid_rmap_item s ro \<and> (\<exists>ri. ro = Some ri \<and> \<not> (PageKsm s p \<or> in_stable_tree (rmaps s ri)))")
  case False
  with r have "s' = s"
    by (auto simp: cmp_and_merge_page_def split: if_splits option.splits)
  with new show ?thesis by simp
next
  case True
  then obtain ri where ro: "ro = Some ri" and v: "check_valid_rmap_item s (Some ri)"
    "\<not> (PageKsm s p \<or> in_stable_tree (rmaps s ri))" by auto
  let ?e = "if ic then store_checksum (remove_rmap_item_from_tree s (Some ri) False) p ri
               else Inr (remove_rmap_item_from_tree s (Some ri) False)"
  from r ro v obtain s2 where e: "?e = Inr s2"
    by (cases ?e) (auto simp: cmp_and_merge_page_def Let_def)
  note f = candidate_entry_frame [OF e]
  from r ro v e obtain s3 zr where zp: "cmp_and_merge_zero_page s2 p = Inr (s3, zr)"
    by (cases "cmp_and_merge_zero_page s2 p") (auto simp: cmp_and_merge_page_def Let_def)
  from r ro v e zp have rest: "(zr = 0 \<and> s' = s3) \<or> (zr \<noteq> 0 \<and> cmp_and_merge_trees s3 p ri = Some (Inr (s', res)))"
    by (auto simp: cmp_and_merge_page_def Let_def split: if_splits)
  from z f have z2: "zero_frame_untracked s2" by (simp add: zero_frame_untracked_def)
  note i23 = cmp_and_merge_zero_page_frame(1) [OF zp]
  from z2 ident_untracked [OF i23] have z3: "zero_frame_untracked s3" by simp
  from rest have k3: "kept s3 s'"
    using kept_cmp_and_merge_trees [OF _ z3] by (auto simp: kept_refl)
  from new(1) k3 have m3: "zero_mapped s3 v a" by (simp add: kept_def)
  from new(2) f have m2: "\<not> zero_mapped s2 v a"
    by (auto simp: zero_mapped_def split: option.splits)
  from zero_redirect_in_zero_path [OF zp m3 m2] obtain r0 where
    fz: "is_page_full_zero s2 p" and pk: "pksm (pages s2 p) = Some r0"
    and ck: "checksum (rmaps s2 r0) = pksm_zero_random_checksum s2" by blast
  from fz f have "is_page_full_zero s p" by (simp add: is_page_full_zero_def)
  moreover from ident_trans [OF i23 kept_ident [OF k3]] have i: "ident s2 s'" .
  from pk ck ident_fields(2,4,6) [OF i]
  have "pksm (pages s' p) = Some r0 \<and> checksum (rmaps s' r0) = pksm_zero_random_checksum s'"
    by simp
  ultimately show ?thesis by blast
qed

lemmas st_zero_defs = st_zero_def st_candidate_def idle_def null_rmap_def null_page_def

lemma zero_words_full_zero: "is_full_zero zero_words PAGE_SIZE"
  by (simp add: is_full_zero_def zero_words_def PAGE_SIZE_def list_all_iff)

lemma st_zero_entry:
  "check_valid_rmap_item st_zero (Some 2)" "\<not> PageKsm st_zero 2"
  "\<not> in_stable_tree (rmaps st_zero 2)"
  "remove_rmap_item_from_tree st_zero (Some 2) False = st_zero"
  "zero_frame_untracked st_zero" "\<not> zero_mapped st_zero 1 64"
  "is_page_full_zero st_zero 2"
  "root_stable_tree st_zero = Leaf" "root_unstable_tree st_zero = Leaf"
  by (simp_all add: st_zero_defs check_valid_rmap_item_def PagePKSM_def PageKsm_def
      in_stable_tree_def remove_rmap_item_from_tree_def zero_frame_untracked_def
      zero_mapped_def is_page_full_zero_def zero_words_full_zero Let_def flag_simps)

lemma st_zero_merge:
  "\<exists>s3. cmp_and_merge_zero_page st_zero 2 = Inr (s3, 0) \<and> zero_mapped s3 1 64"
  by (simp add: cmp_and_merge_zero_page_def find_zero_page_hash_def try_to_merge_zero_page_def
      PageAnon_def trylock_page_def pksm_rmap_walk_def page_lock_anon_vma_def page_mapcount_def
      vma_can_enter_def pksm_merge_zero_page_def write_protect_page_def page_check_address_def
      is_page_full_zero_def zero_words_full_zero replace_page_def is_zero_pfn_def set_pte_at_def
      page_remove_rmap_def try_to_free_swap_def put_page_def pksm_add_sharing_page_counter_def
      PageKsm_def unlock_page_def upd_page_def zero_mapped_def PKSM_FAULT_SUCCESS_def
      PKSM_FAULT_DROP_def Let_def st_zero_defs)

text \<open>C8. \<^verbatim>\<open>cmp_and_merge_page\<close> runs the zero fast path on the state left by the
  validity checks, \<^verbatim>\<open>remove_rmap_item_from_tree\<close> and the optional re-hash; the
  stable-tree search and everything after it run on the state the zero path leaves, and
  only when the zero path did not return 0. When it returns 0 the step ends there: the
  stable tree is the one before the step and the unstable tree the one left by
  \<^verbatim>\<open>remove_rmap_item_from_tree\<close>, so nothing was inserted into either tree. A mapping
  that points at the zero frame after \<^verbatim>\<open>cmp_and_merge_zero_page\<close> and did not before
  exists only if the page is all zero (\<^verbatim>\<open>is_page_full_zero\<close>) and the stored hash equals
  \<^verbatim>\<open>pksm_zero_random_checksum\<close>. The same holds for the whole of
  \<^verbatim>\<open>cmp_and_merge_page\<close> when the zero frame is not itself a tracked page: the merges
  through the trees never point a mapping at the zero frame.\<close>

theorem C8_zero_fast_path:
  "(check_valid_rmap_item s (Some ri) \<and> \<not> PageKsm s p \<and> \<not> in_stable_tree (rmaps s ri) \<and>
    (if ic then store_checksum (remove_rmap_item_from_tree s (Some ri) False) p ri
     else Inr (remove_rmap_item_from_tree s (Some ri) False)) = Inr s2 \<and>
    cmp_and_merge_zero_page s2 p = Inr (s3, z) \<longrightarrow>
      cmp_and_merge_page s p (Some ri) ic
        = (if z = 0 then Some (Inr (s3, 0)) else cmp_and_merge_trees s3 p ri) \<and>
      root_stable_tree s3 = root_stable_tree s \<and>
      root_unstable_tree s3 = root_unstable_tree (remove_rmap_item_from_tree s (Some ri) False) \<and>
      set_tree (root_unstable_tree s3) \<subseteq> set_tree (root_unstable_tree s)) \<and>
   (cmp_and_merge_zero_page t p = Inr (t', z') \<and> zero_mapped t' v a \<and> \<not> zero_mapped t v a \<longrightarrow>
      is_page_full_zero t p \<and> find_zero_page_hash t p = Inr True) \<and>
   (zero_frame_untracked u \<and> cmp_and_merge_page u p ro ic = Some (Inr (u', res)) \<and>
    zero_mapped u' v a \<and> \<not> zero_mapped u v a \<longrightarrow>
      is_page_full_zero u p \<and>
      (\<exists>r. pksm (pages u' p) = Some r \<and> checksum (rmaps u' r) = pksm_zero_random_checksum u'))"
proof (intro conjI impI)
  assume h: "check_valid_rmap_item s (Some ri) \<and> \<not> PageKsm s p \<and> \<not> in_stable_tree (rmaps s ri) \<and>
    (if ic then store_checksum (remove_rmap_item_from_tree s (Some ri) False) p ri
     else Inr (remove_rmap_item_from_tree s (Some ri) False)) = Inr s2 \<and>
    cmp_and_merge_zero_page s2 p = Inr (s3, z)"
  then have e: "(if ic then store_checksum (remove_rmap_item_from_tree s (Some ri) False) p ri
     else Inr (remove_rmap_item_from_tree s (Some ri) False)) = Inr s2"
    and zp: "cmp_and_merge_zero_page s2 p = Inr (s3, z)" by simp_all
  from h show "cmp_and_merge_page s p (Some ri) ic
        = (if z = 0 then Some (Inr (s3, 0)) else cmp_and_merge_trees s3 p ri)"
    by (simp add: cmp_and_merge_page_def Let_def)
  note f = candidate_entry_frame(4,5) [OF e]
  from same_trees_cmp_and_merge_zero_page [OF zp] f
  have t: "root_stable_tree s3 = root_stable_tree (remove_rmap_item_from_tree s (Some ri) False)"
    "root_unstable_tree s3 = root_unstable_tree (remove_rmap_item_from_tree s (Some ri) False)"
    by (simp_all add: same_trees_def)
  from t(1) h show "root_stable_tree s3 = root_stable_tree s"
    by (simp add: remove_keeps_stable_tree)
  from t(2) show "root_unstable_tree s3
      = root_unstable_tree (remove_rmap_item_from_tree s (Some ri) False)" .
  from t(2) remove_trees_subset(2) [of s "Some ri" False]
  show "set_tree (root_unstable_tree s3) \<subseteq> set_tree (root_unstable_tree s)" by simp
next
  assume h: "cmp_and_merge_zero_page t p = Inr (t', z') \<and> zero_mapped t' v a \<and> \<not> zero_mapped t v a"
  then have h3: "cmp_and_merge_zero_page t p = Inr (t', z')" "zero_mapped t' v a"
    "\<not> zero_mapped t v a" by simp_all
  have "is_page_full_zero t p \<and>
         (\<exists>ri. pksm (pages t p) = Some ri \<and> checksum (rmaps t ri) = pksm_zero_random_checksum t)"
    by (rule zero_redirect_in_zero_path [OF h3])
  then show "is_page_full_zero t p" and "find_zero_page_hash t p = Inr True"
    by (auto simp: find_zero_page_hash_def)
next
  assume h: "zero_frame_untracked u \<and> cmp_and_merge_page u p ro ic = Some (Inr (u', res)) \<and>
    zero_mapped u' v a \<and> \<not> zero_mapped u v a"
  then have h4: "zero_frame_untracked u" "cmp_and_merge_page u p ro ic = Some (Inr (u', res))"
    "zero_mapped u' v a" "\<not> zero_mapped u v a" by simp_all
  have "is_page_full_zero u p \<and>
      (\<exists>r. pksm (pages u' p) = Some r \<and> checksum (rmaps u' r) = pksm_zero_random_checksum u')"
    by (rule zero_redirect_in_step [OF h4])
  then show "is_page_full_zero u p"
    and "\<exists>r. pksm (pages u' p) = Some r \<and> checksum (rmaps u' r) = pksm_zero_random_checksum u'"
    by simp_all
qed

theorem C8_zero_fast_path_witness:
  "check_valid_rmap_item st_zero (Some 2) \<and> \<not> PageKsm st_zero 2 \<and>
   \<not> in_stable_tree (rmaps st_zero 2) \<and> zero_frame_untracked st_zero \<and>
   \<not> zero_mapped st_zero 1 64 \<and>
   (\<exists>s3. cmp_and_merge_zero_page st_zero 2 = Inr (s3, 0) \<and>
         cmp_and_merge_page st_zero 2 (Some 2) False = Some (Inr (s3, 0)) \<and>
         zero_mapped s3 1 64 \<and>
         root_stable_tree s3 = Leaf \<and> root_unstable_tree s3 = Leaf \<and>
         (\<exists>r. pksm (pages s3 2) = Some r \<and> checksum (rmaps s3 r) = pksm_zero_random_checksum s3)) \<and>
   is_page_full_zero st_zero 2 \<and> find_zero_page_hash st_zero 2 = Inr True"
proof -
  obtain s3 where m: "cmp_and_merge_zero_page st_zero 2 = Inr (s3, 0)"
    and zm: "zero_mapped s3 1 64"
    using st_zero_merge by blast
  have e: "(if False then store_checksum (remove_rmap_item_from_tree st_zero (Some 2) False) 2 2
     else Inr (remove_rmap_item_from_tree st_zero (Some 2) False)) = Inr st_zero"
    using st_zero_entry(4) by simp
  note c = C8_zero_fast_path [where s = st_zero and ri = 2 and p = 2 and ic = False
      and ?s2.0 = st_zero and ?s3.0 = s3 and z = 0 and t = st_zero and t' = s3 and z' = 0
      and v = 1 and a = 64 and u = st_zero and ro = "Some 2" and u' = s3 and res = 0]
  from c st_zero_entry(1,2,3) e m
  have r: "cmp_and_merge_page st_zero 2 (Some 2) False = Some (Inr (s3, 0))"
    "root_stable_tree s3 = root_stable_tree st_zero"
    "root_unstable_tree s3 = root_unstable_tree (remove_rmap_item_from_tree st_zero (Some 2) False)"
    by simp_all
  from r(2,3) have tr: "root_stable_tree s3 = Leaf" "root_unstable_tree s3 = Leaf"
    unfolding st_zero_entry(4) by (simp_all add: st_zero_entry(8,9))
  from c m zm st_zero_entry(6)
  have z: "is_page_full_zero st_zero 2" "find_zero_page_hash st_zero 2 = Inr True"
    by blast+
  from c st_zero_entry(5,6) r(1) zm
  have k: "\<exists>r. pksm (pages s3 2) = Some r \<and> checksum (rmaps s3 r) = pksm_zero_random_checksum s3"
    by blast
  from st_zero_entry(1,2,3,5,6) m r(1) zm tr k z show ?thesis by blast
qed

end
